(* ===== verification/Go_Prelude.thy ===== *)
theory Go_Prelude
  imports Main "HOL-Library.AList" "HOL-Library.List_Lexorder" "HOL-Library.Char_ord"
    "HOL-Library.Multiset"
begin

text \<open>
  What every component of the model shares: the types that stand for Go's basic types, the
  operations of Go's standard library that the components call on strings and maps, and the
  generic lemmas on lists and association lists that their proofs use.

  A Go \<open>string\<close> is a sequence of bytes, as is HOL's \<open>string\<close>, so \<open>len(s)\<close> is \<open>length s\<close>
  and Go's \<open><\<close> on strings is the lexicographic order of \<open>List_Lexorder\<close>.
  A Go \<open>map[K]V\<close> that the code iterates over is an association list with distinct keys; its
  list order stands for the iteration order the runtime picked.
  A \<open>time.Time\<close> is an \<open>int\<close>, nanoseconds since the Unix epoch, and a \<open>time.Duration\<close> an
  \<open>int\<close> of nanoseconds.
\<close>

named_theorems go_consts \<open>definitions of the source's string constants\<close>

type_synonym gerror = string
type_synonym gtime = int
type_synonym duration = int

text \<open>How a call ends: it returns, or it panics with the runtime's message.\<close>

datatype 'a outcome = Done 'a | Panic string

subsection \<open>Time constants\<close>

abbreviation Second :: duration where "Second \<equiv> 1000000000"
abbreviation Minute :: duration where "Minute \<equiv> 60000000000"
abbreviation Hour :: duration where "Hour \<equiv> 3600000000000"

text \<open>The zero \<open>time.Time\<close>, 1 January of year 1, on the epoch's scale.\<close>

definition zero_time :: gtime where
  "zero_time = - 62135596800 * Second"

subsection \<open>Strings\<close>

definition has_prefix :: "string \<Rightarrow> string \<Rightarrow> bool" where
  "has_prefix s p \<longleftrightarrow> take (length p) s = p"

definition trim_prefix :: "string \<Rightarrow> string \<Rightarrow> string" where
  "trim_prefix s p = (if has_prefix s p then drop (length p) s else s)"

lemma has_prefix_append [simp]: "has_prefix (p @ s) p"
  by (simp add: has_prefix_def)

lemma trim_prefix_append [simp]: "trim_prefix (p @ s) p = s"
  by (simp add: trim_prefix_def)

text \<open>\<open>strings.Contains(s, sub)\<close>.\<close>

fun contains :: "string \<Rightarrow> string \<Rightarrow> bool" where
  "contains [] p \<longleftrightarrow> p = []"
| "contains (c # s) p \<longleftrightarrow> has_prefix (c # s) p \<or> contains s p"

lemma contains_append: "contains (xs @ p @ ys) p"
proof (induction xs)
  case Nil
  have "has_prefix (p @ ys) p" by simp
  then show ?case by (cases "p @ ys") (simp_all del: has_prefix_append)
next
  case (Cons x xs)
  then show ?case by simp
qed

lemma contains_iff: "contains s p \<longleftrightarrow> (\<exists>xs ys. s = xs @ p @ ys)"
proof (induction s)
  case Nil
  then show ?case by auto
next
  case (Cons c s)
  have "has_prefix (c # s) p \<Longrightarrow> c # s = [] @ p @ drop (length p) (c # s)"
    by (metis append_Nil append_take_drop_id has_prefix_def)
  then have "has_prefix (c # s) p \<Longrightarrow> \<exists>xs ys. c # s = xs @ p @ ys"
    by blast
  moreover have "contains s p \<Longrightarrow> \<exists>xs ys. c # s = xs @ p @ ys"
    using Cons by (metis append_Cons)
  moreover have "c # s = xs @ p @ ys \<Longrightarrow> contains (c # s) p" for xs ys
    using contains_append by metis
  ultimately show ?case by (metis contains.simps(2))
qed

text \<open>Decimal digits of a number, as \<open>fmt\<close> and \<open>strconv\<close> print it.\<close>

definition digit :: "nat \<Rightarrow> char" where
  "digit d = char_of (48 + d)"

fun decimal :: "nat \<Rightarrow> string" where
  "decimal n = (if n < 10 then [digit n] else decimal (n div 10) @ [digit (n mod 10)])"

declare decimal.simps [simp del]

definition itoa :: "int \<Rightarrow> string" where
  "itoa i = (if i < 0 then CHR ''-'' # decimal (nat (- i)) else decimal (nat i))"

lemma decimal_nonempty [simp]: "decimal n \<noteq> []"
  by (subst decimal.simps) simp

lemma length_decimal: "n < 10 ^ w \<Longrightarrow> 0 < w \<Longrightarrow> length (decimal n) \<le> w"
proof (induction n arbitrary: w rule: decimal.induct)
  case (1 n)
  then obtain v where w: "w = Suc v" by (cases w) auto
  show ?case
  proof (cases "n < 10")
    case False
    then have "0 < v" using 1(2) w by (cases v) auto
    moreover have "n div 10 < 10 ^ v" using 1(2) w by simp
    ultimately show ?thesis using 1(1) [OF False, of v] False w by (subst decimal.simps) simp
  qed (simp add: w decimal.simps [of n])
qed

subsection \<open>Association lists\<close>

lemma set_updateD: "p \<in> set (AList.update k v xs) \<Longrightarrow> p = (k, v) \<or> p \<in> set xs"
  by (induction xs) (auto split: if_splits)

lemma set_snd_distinct:
  "distinct (map fst xs) \<Longrightarrow> v \<in> snd ` set xs \<longleftrightarrow> (\<exists>k. map_of xs k = Some v)"
  by (force dest: map_of_SomeD)

lemma ran_map_of: "distinct (map fst xs) \<Longrightarrow> snd ` set xs = ran (map_of xs)"
  by (auto simp: ran_def set_snd_distinct)

lemma filter_snd_id [simp]: "c \<notin> snd ` set xs \<Longrightarrow> filter (\<lambda>p. snd p \<noteq> c) xs = xs"
  by (induction xs) auto

lemma mem_snd_image: "(\<exists>t \<in> set xs. snd t = c) \<longleftrightarrow> c \<in> snd ` set xs"
  by auto

lemma option_eqI: "(\<And>r. x = Some r \<longleftrightarrow> y = Some r) \<Longrightarrow> x = y"
  by (metis not_Some_eq)

end
