(* ===== verification/Store_Ulid.thy ===== *)
theory Store_Ulid
  imports Go_Prelude "HOL-Library.Word"
begin

text \<open>
  \<open>store/ulid.go\<close>: identifiers of 48 bits of milliseconds and 80 random bits, written as 26
  Crockford base-32 symbols. The shifts and masks are kept on 64-bit words as in the code. The
  lemmas show that the carry between the two words is right, so the text is the 26 base-32
  digits of the 128-bit number, and that the text sorts as the number does.
\<close>

unbundle bit_operations_syntax

definition crockford :: string where
  "crockford = ''0123456789ABCDEFGHJKMNPQRSTVWXYZ''"

text \<open>\<open>binary.BigEndian.Uint64\<close> of eight bytes.\<close>

definition big_endian :: "8 word list \<Rightarrow> 64 word" where
  "big_endian bs = foldl (\<lambda>acc b. push_bit 8 acc OR ucast b) 0 bs"

text \<open>The loop of \<open>encodeCrockford\<close> from index \<open>i - 1\<close> down to 0.\<close>

fun crockford_loop :: "nat \<Rightarrow> 64 word \<Rightarrow> 64 word \<Rightarrow> string \<Rightarrow> string" where
  "crockford_loop 0 hi lo out = out"
| "crockford_loop (Suc i) hi lo out =
     crockford_loop i (drop_bit 5 hi) (drop_bit 5 lo OR push_bit 59 hi)
       (crockford ! unat (lo AND 31) # out)"

definition encodeCrockford :: "8 word list \<Rightarrow> string" where
  "encodeCrockford b = crockford_loop 26 (big_endian (take 8 b)) (big_endian (drop 8 b)) []"

definition unix_milli :: "gtime \<Rightarrow> int" where
  "unix_milli t = t div 1000000"

definition timestamp_bytes :: "gtime \<Rightarrow> 8 word list" where
  "timestamp_bytes t =
     (let ms = (word_of_int (unix_milli t) :: 64 word)
      in [ucast (drop_bit 40 ms), ucast (drop_bit 32 ms), ucast (drop_bit 24 ms),
          ucast (drop_bit 16 ms), ucast (drop_bit 8 ms), ucast ms])"

text \<open>\<open>NewULID\<close>; \<open>entropy\<close> is what \<open>rand.Read\<close> returns for the last ten bytes.\<close>

definition NewULID :: "gerror + 8 word list \<Rightarrow> gtime \<Rightarrow> gerror + string" where
  "NewULID entropy t =
     (case entropy of
        Inl e \<Rightarrow> Inl e
      | Inr rs \<Rightarrow> Inr (encodeCrockford (timestamp_bytes t @ rs)))"

subsection \<open>The number a byte sequence stands for\<close>

definition be_value :: "8 word list \<Rightarrow> nat" where
  "be_value bs = foldl (\<lambda>acc b. acc * 256 + unat b) 0 bs"

lemma be_value_snoc: "be_value (bs @ [b]) = be_value bs * 256 + unat b"
  by (simp add: be_value_def)

lemma unat_byte: "unat (b :: 8 word) < 256"
  using unsigned_less [of b, where ?'a = nat] by simp

lemma be_value_less: "be_value bs < 256 ^ length bs"
proof (induction bs rule: rev_induct)
  case Nil
  show ?case by (simp add: be_value_def)
next
  case (snoc b bs)
  have "be_value bs * 256 + unat b < be_value bs * 256 + 256"
    using unat_byte [of b] by simp
  also have "\<dots> = (be_value bs + 1) * 256" by simp
  also have "\<dots> \<le> 256 ^ length bs * 256" using snoc by (intro mult_right_mono) simp_all
  finally show ?case by (simp add: be_value_snoc mult.commute)
qed

lemma be_value_append: "be_value (xs @ ys) = be_value xs * 256 ^ length ys + be_value ys"
proof (induction ys rule: rev_induct)
  case Nil
  show ?case by (simp add: be_value_def)
next
  case (snoc y ys)
  have "be_value (xs @ ys @ [y]) = be_value (xs @ ys) * 256 + unat y"
    by (metis append_assoc be_value_snoc)
  with snoc show ?case by (simp add: be_value_snoc algebra_simps)
qed

lemma shift_in_byte:
  fixes w :: "64 word"
  assumes "unat w < 2 ^ 56"
  shows "unat (push_bit 8 w OR ucast (b :: 8 word)) = unat w * 256 + unat b"
proof -
  have "push_bit 8 w OR ucast b = push_bit 8 w + (ucast b :: 64 word)"
    by (rule disjunctive_add [symmetric]) (auto simp: bit_simps dest: bit_imp_le_length)
  moreover have "unat (push_bit 8 w) = unat w * 256"
    using assms unfolding unsigned_push_bit_eq by (simp add: take_bit_eq_mod push_bit_eq_mult)
  moreover have "unat (ucast b :: 64 word) = unat b"
    using unat_byte [of b] by (simp add: unsigned_ucast_eq take_bit_eq_mod)
  ultimately show ?thesis
    using assms unat_byte [of b] by (simp add: unat_word_ariths)
qed

lemma unat_big_endian: "length bs \<le> 8 \<Longrightarrow> unat (big_endian bs) = be_value bs"
proof (induction bs rule: rev_induct)
  case Nil
  show ?case by (simp add: big_endian_def be_value_def)
next
  case (snoc b bs)
  have "be_value bs < 256 ^ length bs" by (rule be_value_less)
  also have "\<dots> \<le> 256 ^ 7" using snoc.prems by (intro power_increasing) simp_all
  finally have "unat (big_endian bs) < 2 ^ 56" using snoc by simp
  then show ?case
    using snoc by (simp add: big_endian_def shift_in_byte be_value_snoc)
qed

subsection \<open>The loop computes base-32 digits\<close>

fun digits32 :: "nat \<Rightarrow> nat \<Rightarrow> nat list" where
  "digits32 0 n = []"
| "digits32 (Suc k) n = digits32 k (n div 32) @ [n mod 32]"

lemma length_digits32 [simp]: "length (digits32 k n) = k"
  by (induction k arbitrary: n) simp_all

lemma digits32_less: "d \<in> set (digits32 k n) \<Longrightarrow> d < 32"
  by (induction k arbitrary: n) auto

lemma unat_low5: "unat ((lo :: 64 word) AND 31) = unat lo mod 32"
proof -
  have "lo AND 31 = take_bit 5 lo"
    by (simp add: take_bit_eq_mask mask_eq_exp_minus_1)
  then have "unat (lo AND 31) = take_bit 5 (unat lo)"
    by (simp only: unsigned_take_bit_eq)
  then show ?thesis by (simp add: take_bit_eq_mod)
qed

lemma shift_right_128:
  fixes hi lo :: "64 word"
  shows "unat (drop_bit 5 hi) * 2 ^ 64 + unat (drop_bit 5 lo OR push_bit 59 hi)
    = (unat hi * 2 ^ 64 + unat lo) div 32"
proof -
  have l: "unat lo < 2 ^ 64" using unsigned_less [of lo, where ?'a = nat] by simp
  have "drop_bit 5 lo OR push_bit 59 hi = drop_bit 5 lo + push_bit 59 hi"
    by (rule disjunctive_add [symmetric]) (auto simp: bit_simps dest: bit_imp_le_length)
  moreover have "unat (drop_bit 5 lo) = unat lo div 32"
    unfolding unat_drop_bit_eq by (simp add: drop_bit_eq_div)
  moreover have "unat (push_bit 59 hi) = unat hi mod 32 * 2 ^ 59"
    using mult_mod_left [of "unat hi" 32 "2 ^ 59"]
    unfolding unsigned_push_bit_eq by (simp add: take_bit_eq_mod push_bit_eq_mult)
  ultimately have "unat (drop_bit 5 lo OR push_bit 59 hi)
      = (unat lo div 32 + unat hi mod 32 * 2 ^ 59) mod 2 ^ 64"
    by (simp add: unat_word_ariths)
  also have "\<dots> = unat lo div 32 + unat hi mod 32 * 2 ^ 59"
  proof (rule mod_less)
    have "unat lo div 32 < 2 ^ 59" using l by simp
    moreover have "unat hi mod 32 \<le> 31" using mod_less_divisor [of 32 "unat hi"] by simp
    ultimately show "unat lo div 32 + unat hi mod 32 * 2 ^ 59 < 2 ^ 64" by simp
  qed
  finally have "unat (drop_bit 5 lo OR push_bit 59 hi)
      = unat lo div 32 + unat hi mod 32 * 2 ^ 59" .
  moreover have "unat (drop_bit 5 hi) = unat hi div 32"
    unfolding unat_drop_bit_eq by (simp add: drop_bit_eq_div)
  moreover have "h div 32 * 2 ^ 64 + (l + h mod 32 * 2 ^ 59) = h * 2 ^ 59 + l" for h l :: nat
  proof -
    have "(h div 32 * 32 + h mod 32) * 2 ^ 59 = h * 2 ^ 59" by (simp only: div_mult_mod_eq)
    then show ?thesis by (simp only: add_mult_distrib) simp
  qed
  moreover have "(unat hi * 2 ^ 64 + unat lo) div 32 = unat hi * 2 ^ 59 + unat lo div 32"
    using div_mult_self1 [of 32 "unat lo" "unat hi * 2 ^ 59"] by (simp add: algebra_simps)
  ultimately show ?thesis by simp
qed

lemma crockford_loop_digits:
  "crockford_loop k hi lo out =
     map ((!) crockford) (digits32 k (unat hi * 2 ^ 64 + unat lo)) @ out"
proof (induction k arbitrary: hi lo out)
  case 0
  show ?case by simp
next
  case (Suc k)
  have "unat (lo AND 31) = (unat hi * 2 ^ 64 + unat lo) mod 32"
    unfolding unat_low5 using mod_mult_self3 [of "unat hi * 2 ^ 59" 32 "unat lo"] by (simp add: mult.commute)
  then show ?case
    unfolding crockford_loop.simps Suc.IH digits32.simps shift_right_128 by simp
qed

lemma encodeCrockford_digits:
  assumes "length b = 16"
  shows "encodeCrockford b = map ((!) crockford) (digits32 26 (be_value b))"
proof -
  have "be_value b = be_value (take 8 b) * 2 ^ 64 + be_value (drop 8 b)"
    using be_value_append [of "take 8 b" "drop 8 b"] assms by simp
  then show ?thesis
    using assms by (simp add: encodeCrockford_def crockford_loop_digits unat_big_endian)
qed

subsection \<open>Sorting\<close>

lemma snoc_less_snoc:
  assumes "length xs = length ys"
  shows "xs @ [a] < ys @ [b] \<longleftrightarrow> xs < ys \<or> (xs = ys \<and> a < (b :: 'a :: linorder))"
  using assms by (induction xs ys rule: list_induct2) auto

lemma digits32_mono: "m < n \<Longrightarrow> n < 32 ^ k \<Longrightarrow> digits32 k m < digits32 k n"
proof (induction k arbitrary: m n)
  case 0
  then show ?case by simp
next
  case (Suc k)
  have n: "n div 32 < 32 ^ k" using Suc.prems(2) by (simp add: less_mult_imp_div_less mult.commute)
  consider "m div 32 < n div 32" | "m div 32 = n div 32" "m mod 32 < n mod 32"
    using Suc.prems(1) by (metis div_le_mono div_mod_decomp le_neq_implies_less less_imp_le
        nat_add_left_cancel_less)
  then show ?case
    by cases (simp_all add: snoc_less_snoc Suc.IH n)
qed

lemma map_mono_less:
  assumes "length xs = length ys" "xs < ys" "set xs \<subseteq> A" "set ys \<subseteq> A"
    and "\<And>a b. a \<in> A \<Longrightarrow> b \<in> A \<Longrightarrow> a < b \<Longrightarrow> f a < f b"
  shows "map f xs < map (f :: 'a :: linorder \<Rightarrow> 'b :: linorder) ys"
  using assms(1-4) by (induction xs ys rule: list_induct2) (auto simp: assms(5))

lemma crockford_sorted: "sorted_wrt (<) crockford"
  by (simp add: crockford_def less_char_def)

lemma crockford_length: "length crockford = 32"
  by (simp add: crockford_def)

lemma crockford_mono: "a < b \<Longrightarrow> b < 32 \<Longrightarrow> crockford ! a < crockford ! b"
  using crockford_sorted by (simp add: sorted_wrt_iff_nth_less crockford_length)

lemma encodeCrockford_mono:
  assumes "length b = 16" "length b' = 16" "be_value b < be_value b'"
  shows "encodeCrockford b < encodeCrockford b'"
proof -
  have "be_value b' < 32 ^ 26"
    using be_value_less [of b'] assms(2) by simp
  with assms(3) have "digits32 26 (be_value b) < digits32 26 (be_value b')"
    by (rule digits32_mono)
  then show ?thesis
    unfolding encodeCrockford_digits [OF assms(1)] encodeCrockford_digits [OF assms(2)]
    by (intro map_mono_less [where A = "{..<32}"])
      (auto simp: crockford_mono dest: digits32_less)
qed

lemma be_value_inj: "length b = length b' \<Longrightarrow> be_value b = be_value b' \<Longrightarrow> b = b'"
proof (induction b arbitrary: b' rule: rev_induct)
  case Nil
  then show ?case by simp
next
  case (snoc x b)
  then obtain y c where b': "b' = c @ [y]" by (cases b' rule: rev_cases) auto
  have e: "be_value b * 256 + unat x = be_value c * 256 + unat y"
    using snoc.prems(2) b' by (simp add: be_value_snoc)
  have v: "be_value b = be_value c"
    using e unat_byte [of x] unat_byte [of y] by linarith
  with e have "unat x = unat y" by simp
  with v show ?case using snoc b' by (simp add: unsigned_word_eqI)
qed

lemma encodeCrockford_inj:
  assumes "length b = 16" "length b' = 16" "encodeCrockford b = encodeCrockford b'"
  shows "b = b'"
proof (rule ccontr)
  assume "b \<noteq> b'"
  then have "be_value b \<noteq> be_value b'" using assms be_value_inj by metis
  then show False
    using encodeCrockford_mono assms by (metis less_irrefl linorder_neqE_nat)
qed

text \<open>The timestamp bytes hold the milliseconds, as long as these fit 48 bits.\<close>

lemma be_value_timestamp:
  assumes "0 \<le> unix_milli t" "unix_milli t < 2 ^ 48"
  shows "be_value (timestamp_bytes t) = nat (unix_milli t)"
proof -
  define n where "n = nat (unix_milli t)"
  have n: "n < 2 ^ 48" using assms by (simp add: n_def)
  have "unat (word_of_int (unix_milli t) :: 64 word) = n"
    using assms n by (simp add: n_def unat_eq_nat_uint uint_word_of_int)
  then have b: "unat (ucast (drop_bit k (word_of_int (unix_milli t) :: 64 word)) :: 8 word)
      = n div 2 ^ k mod 256" for k
    unfolding unsigned_ucast_eq unat_drop_bit_eq by (simp add: take_bit_eq_mod drop_bit_eq_div)
  have b0: "unat (ucast (word_of_int (unix_milli t) :: 64 word) :: 8 word) = n mod 256"
    using b [of 0] by simp
  have "be_value (timestamp_bytes t) = ((((n div 2 ^ 40 mod 256 * 256 + n div 2 ^ 32 mod 256) * 256
      + n div 2 ^ 24 mod 256) * 256 + n div 2 ^ 16 mod 256) * 256 + n div 2 ^ 8 mod 256) * 256
      + n mod 256"
    by (simp only: be_value_def timestamp_bytes_def Let_def foldl.simps b b0)
      simp
  also have "\<dots> = n"
  proof -
    have h: "n div 2 ^ (k + 8) * 256 + n div 2 ^ k mod 256 = n div 2 ^ k" for k
      by (simp add: power_add div_mult2_eq)
    have "n div 2 ^ 40 mod 256 = n div 2 ^ 40" using n by simp
    then show ?thesis
      using h [of 32] h [of 24] h [of 16] h [of 8] h [of 0] by simp
  qed
  finally show ?thesis by (simp add: n_def)
qed

subsection \<open>Properties\<close>

text \<open>Reading the symbols back: the position of a symbol in the alphabet is its value.\<close>

definition symbol_value :: "char \<Rightarrow> nat" where
  "symbol_value c = length (takeWhile (\<lambda>x. x \<noteq> c) crockford)"

definition base32_value :: "string \<Rightarrow> nat" where
  "base32_value s = foldl (\<lambda>v c. v * 32 + symbol_value c) 0 s"

lemma symbol_value_nth: "d < 32 \<Longrightarrow> symbol_value (crockford ! d) = d"
proof -
  have "\<forall>d \<in> set [0..<32]. symbol_value (crockford ! d) = d" by code_simp
  then show "d < 32 \<Longrightarrow> symbol_value (crockford ! d) = d" by simp
qed

lemma base32_value_digits32: "n < 32 ^ k \<Longrightarrow> base32_value (map ((!) crockford) (digits32 k n)) = n"
proof (induction k arbitrary: n)
  case 0
  then show ?case by (simp add: base32_value_def)
next
  case (Suc k)
  have "n div 32 < 32 ^ k" using Suc.prems by (simp add: less_mult_imp_div_less mult.commute)
  from Suc.IH [OF this] show ?case by (simp add: base32_value_def symbol_value_nth)
qed

text \<open>
  C26: a ULID is 26 symbols of Crockford's alphabet that, read as a base-32 number, give the 128
  bits of the id back; so different ids have different texts.
\<close>

theorem encodeCrockford_roundtrip:
  assumes "length b = 16"
  shows "length (encodeCrockford b) = 26 \<and> set (encodeCrockford b) \<subseteq> set crockford \<and>
    base32_value (encodeCrockford b) = be_value b"
proof -
  have "be_value b < 32 ^ 26" using be_value_less [of b] assms by simp
  then have "base32_value (encodeCrockford b) = be_value b"
    unfolding encodeCrockford_digits [OF assms] by (rule base32_value_digits32)
  moreover have "set (encodeCrockford b) \<subseteq> set crockford"
    unfolding encodeCrockford_digits [OF assms]
    by (auto dest!: digits32_less intro!: nth_mem simp: crockford_length)
  ultimately show ?thesis by (simp add: encodeCrockford_digits [OF assms])
qed

theorem encodeCrockford_roundtrip_witness:
  "base32_value (encodeCrockford [1, 2, 3, 4, 5, 6, 7, 8, 9, 10, 11, 12, 13, 14, 15, 255])
     = be_value [1, 2, 3, 4, 5, 6, 7, 8, 9, 10, 11, 12, 13, 14, 15, 255]"
  using encodeCrockford_roundtrip [of "[1, 2, 3, 4, 5, 6, 7, 8, 9, 10, 11, 12, 13, 14, 15, 255]"]
  by simp

text \<open>
  C27: ULIDs sort by time: of two ids made in different milliseconds (up to the year 10889), the
  later one is the greater string, whatever the random bytes.
\<close>

theorem NewULID_sorts_by_time:
  assumes "NewULID (Inr rs) t = Inr u" and "NewULID (Inr rs') t' = Inr u'"
    and "length rs = 10" and "length rs' = 10"
    and "0 \<le> unix_milli t" and "unix_milli t < unix_milli t'" and "unix_milli t' < 2 ^ 48"
  shows "u < u'"
proof -
  have u: "u = encodeCrockford (timestamp_bytes t @ rs)"
    "u' = encodeCrockford (timestamp_bytes t' @ rs')"
    using assms(1,2) by (simp_all add: NewULID_def)
  have l: "length (timestamp_bytes x) = 6" for x by (simp add: timestamp_bytes_def Let_def)
  have v: "be_value (timestamp_bytes t) < be_value (timestamp_bytes t')"
    using assms(5-7) by (simp add: be_value_timestamp)
  have "be_value rs < 256 ^ 10" using be_value_less [of rs] assms(3) by simp
  then have "be_value (timestamp_bytes t @ rs) < (be_value (timestamp_bytes t) + 1) * 256 ^ 10"
    using assms(3) by (simp add: be_value_append)
  also have "\<dots> \<le> be_value (timestamp_bytes t') * 256 ^ 10"
    using v by (intro mult_right_mono) simp_all
  also have "\<dots> \<le> be_value (timestamp_bytes t' @ rs')"
    using assms(4) by (simp add: be_value_append)
  finally show ?thesis
    unfolding u by (intro encodeCrockford_mono) (simp_all add: l assms(3,4))
qed

theorem NewULID_sorts_by_time_witness:
  "\<exists>u u'. NewULID (Inr (replicate 10 255)) 1700000000000000000 = Inr u \<and>
     NewULID (Inr (replicate 10 0)) 1700000000001000000 = Inr u' \<and> u < u'"
  using NewULID_sorts_by_time [of "replicate 10 255" 1700000000000000000 _ "replicate 10 0"
      1700000000001000000]
  by (simp add: NewULID_def unix_milli_def)

end
