(* ===== verification/Go_Utf8.thy ===== *)
theory Go_Utf8
  imports Go_Prelude
begin

text \<open>
  Go's view of a byte string as a sequence of runes: \<open>utf8.DecodeRune\<close> and the conversions
  \<open>[]rune(s)\<close> and \<open>string(rs)\<close>. A rune is a \<open>nat\<close>. A byte that starts no well-formed
  encoding decodes to \<open>RuneError\<close> with width 1, as in Go. The lemmas show that decoding takes
  between one and four bytes of a non-empty string, and that decoding what was encoded gives
  back the runes.
\<close>

type_synonym rune = nat

definition RuneError :: rune where
  "RuneError = 65533"

definition byte :: "char \<Rightarrow> nat" where
  "byte c = of_char c"

definition is_digit :: "char \<Rightarrow> bool" where
  "is_digit c \<longleftrightarrow> 48 \<le> byte c \<and> byte c \<le> 57"

lemma byte_less [simp]: "byte c < 256"
  by (simp add: byte_def)

lemma byte_inj: "byte c = byte d \<Longrightarrow> c = d"
  by (simp add: byte_def)

lemma byte_char_of [simp]: "n < 256 \<Longrightarrow> byte (char_of n) = n"
  by (simp add: byte_def)

text \<open>A continuation byte within the bounds that Go's table gives for this lead byte.\<close>

definition cont :: "nat \<Rightarrow> nat \<Rightarrow> nat \<Rightarrow> bool" where
  "cont lo hi b \<longleftrightarrow> lo \<le> b \<and> b \<le> hi"

definition second_lo :: "nat \<Rightarrow> nat" where
  "second_lo b = (if b = 224 then 160 else if b = 240 then 144 else 128)"

definition second_hi :: "nat \<Rightarrow> nat" where
  "second_hi b = (if b = 237 then 159 else if b = 244 then 143 else 191)"

text \<open>\<open>utf8.DecodeRune\<close>: the first rune and its width.\<close>

fun decode_rune :: "string \<Rightarrow> rune \<times> nat" where
  "decode_rune [] = (RuneError, 0)"
| "decode_rune (c # s) =
     (let b = byte c in
      if b < 128 then (b, 1)
      else if 194 \<le> b \<and> b < 224 then
        (case s of
           c1 # _ \<Rightarrow> if cont 128 191 (byte c1) then ((b - 192) * 64 + (byte c1 - 128), 2)
                     else (RuneError, 1)
         | [] \<Rightarrow> (RuneError, 1))
      else if 224 \<le> b \<and> b < 240 then
        (case s of
           c1 # c2 # _ \<Rightarrow>
             if cont (second_lo b) (second_hi b) (byte c1) \<and> cont 128 191 (byte c2)
             then ((b - 224) * 4096 + (byte c1 - 128) * 64 + (byte c2 - 128), 3)
             else (RuneError, 1)
         | _ \<Rightarrow> (RuneError, 1))
      else if 240 \<le> b \<and> b < 245 then
        (case s of
           c1 # c2 # c3 # _ \<Rightarrow>
             if cont (second_lo b) (second_hi b) (byte c1) \<and> cont 128 191 (byte c2)
                \<and> cont 128 191 (byte c3)
             then ((b - 240) * 262144 + (byte c1 - 128) * 4096 + (byte c2 - 128) * 64
                    + (byte c3 - 128), 4)
             else (RuneError, 1)
         | _ \<Rightarrow> (RuneError, 1))
      else (RuneError, 1))"

lemma decode_rune_width:
  "s \<noteq> [] \<Longrightarrow> 1 \<le> snd (decode_rune s) \<and> snd (decode_rune s) \<le> length s"
  by (cases s) (auto simp: Let_def split: list.splits)

lemma decode_rune_ascii [simp]: "byte c < 128 \<Longrightarrow> decode_rune (c # s) = (byte c, 1)"
  by (simp add: Let_def)

text \<open>\<open>[]rune(s)\<close>.\<close>

function runes :: "string \<Rightarrow> rune list" where
  "runes s = (if s = [] then []
              else fst (decode_rune s) # runes (drop (snd (decode_rune s)) s))"
  by pat_completeness auto
termination
proof (relation "measure length")
  fix s :: string
  assume "s \<noteq> []"
  with decode_rune_width [of s] show "(drop (snd (decode_rune s)) s, s) \<in> measure length"
    by (simp add: le_Suc_eq Suc_le_eq)
qed simp

declare runes.simps [simp del]
declare decode_rune.simps [simp del]

lemma runes_Nil [simp]: "runes [] = []"
  by (simp add: runes.simps)

lemma runes_ascii_Cons [simp]: "byte c < 128 \<Longrightarrow> runes (c # s) = byte c # runes s"
  by (subst runes.simps) simp

text \<open>A Unicode scalar value: what an encoder may be given, everything but surrogates.\<close>

definition scalar :: "rune \<Rightarrow> bool" where
  "scalar r \<longleftrightarrow> r < 55296 \<or> (57344 \<le> r \<and> r < 1114112)"

text \<open>\<open>utf8.AppendRune\<close>: an invalid rune is written as \<open>RuneError\<close>.\<close>

definition encode_scalar :: "rune \<Rightarrow> string" where
  "encode_scalar r =
     (if r < 128 then [char_of r]
      else if r < 2048 then [char_of (192 + r div 64), char_of (128 + r mod 64)]
      else if r < 65536 then
        [char_of (224 + r div 4096), char_of (128 + r div 64 mod 64), char_of (128 + r mod 64)]
      else
        [char_of (240 + r div 262144), char_of (128 + r div 4096 mod 64),
         char_of (128 + r div 64 mod 64), char_of (128 + r mod 64)])"

definition encode_rune :: "rune \<Rightarrow> string" where
  "encode_rune r = encode_scalar (if scalar r then r else RuneError)"

definition of_runes :: "rune list \<Rightarrow> string" where
  "of_runes rs = concat (map encode_rune rs)"

lemma of_runes_simps [simp]:
  "of_runes [] = []" "of_runes (r # rs) = encode_rune r @ of_runes rs"
  "of_runes (xs @ ys) = of_runes xs @ of_runes ys"
  by (simp_all add: of_runes_def)

lemma encode_scalar_nonempty [simp]: "encode_scalar r \<noteq> []"
  by (simp add: encode_scalar_def)

lemma decode_encode2:
  assumes "128 \<le> r" "r < 2048"
  shows "decode_rune (encode_scalar r @ s) = (r, 2)"
proof -
  have "r div 64 < 32" "2 \<le> r div 64" using assms by auto
  then show ?thesis
    using assms
    by (simp add: encode_scalar_def decode_rune.simps Let_def cont_def) 
qed

lemma div_mod_64: "r div 64 * 64 + r mod 64 = (r::nat)" "r div 64 div 64 = r div 4096"
  "r div 4096 div 64 = r div 262144"
  by (simp_all add: div_mult2_eq [symmetric])

lemma split_digits3: "r div 4096 * 4096 + r div 64 mod 64 * 64 + r mod 64 = (r::nat)"
proof -
  have "r div 4096 * 64 + r div 64 mod 64 = r div 64"
    using div_mod_64(1) [of "r div 64"] by (simp only: div_mod_64)
  then have "(r div 4096 * 64 + r div 64 mod 64) * 64 + r mod 64 = r"
    by (simp only: div_mod_64)
  then show ?thesis by (simp add: algebra_simps)
qed

lemma split_digits4:
  "r div 262144 * 262144 + r div 4096 mod 64 * 4096 + r div 64 mod 64 * 64 + r mod 64 = (r::nat)"
proof -
  have "r div 262144 * 64 + r div 4096 mod 64 = r div 4096"
    using div_mod_64(1) [of "r div 4096"] by (simp only: div_mod_64)
  then have "(r div 262144 * 64 + r div 4096 mod 64) * 4096 + r div 64 mod 64 * 64 + r mod 64 = r"
    by (simp only: split_digits3)
  then show ?thesis by (simp add: algebra_simps)
qed

lemma decode_bytes3:
  assumes "a < 16" "b \<le> 63" "c \<le> 63" "cont (second_lo (224 + a)) (second_hi (224 + a)) (128 + b)"
  shows "decode_rune (char_of (224 + a) # char_of (128 + b) # char_of (128 + c) # s)
    = (a * 4096 + b * 64 + c, 3)"
  using assms by (simp add: decode_rune.simps Let_def) (simp add: cont_def)

lemma decode_bytes4:
  assumes "a < 5" "b \<le> 63" "c \<le> 63" "d \<le> 63"
    "cont (second_lo (240 + a)) (second_hi (240 + a)) (128 + b)"
  shows "decode_rune (char_of (240 + a) # char_of (128 + b) # char_of (128 + c)
      # char_of (128 + d) # s) = (a * 262144 + b * 4096 + c * 64 + d, 4)"
  using assms by (simp add: decode_rune.simps Let_def) (simp add: cont_def)

lemma mod_64_le: "(n::nat) mod 64 \<le> 63"
  using mod_less_divisor [of 64 n] by simp

lemma decode_encode3:
  assumes r: "2048 \<le> r" "r < 65536" and sc: "scalar r"
  shows "decode_rune (encode_scalar r @ s) = (r, 3)"
proof -
  have b: "r div 4096 < 16" using r by auto
  then have b4: "r div 4096 \<noteq> 16" "r div 4096 \<noteq> 20" by linarith+
  have m: "r div 64 mod 64 < 64" "r mod 64 < 64" by simp_all
  have lo: "r div 4096 = 0 \<Longrightarrow> 32 \<le> r div 64 mod 64"
    using r by (auto simp: div_eq_0_iff)
  have hi: "r div 4096 = 13 \<Longrightarrow> r div 64 mod 64 < 32"
  proof -
    assume e: "r div 4096 = 13"
    have "r < 57344" using e by auto
    with sc have "r < 55296" by (auto simp: scalar_def)
    then have "13 * 4096 + r div 64 mod 64 * 64 < 55296"
      using split_digits3 [of r] e by linarith
    then show "r div 64 mod 64 < 32" by linarith
  qed
  have "cont (second_lo (224 + r div 4096)) (second_hi (224 + r div 4096))
          (128 + r div 64 mod 64)"
    using lo hi m b4 by (auto simp: cont_def second_lo_def second_hi_def)
  from decode_bytes3 [OF b mod_64_le mod_64_le this, of "r mod 64" s] show ?thesis
    using r by (simp add: encode_scalar_def split_digits3)
qed

lemma decode_encode4:
  assumes r: "65536 \<le> r" "r < 1114112"
  shows "decode_rune (encode_scalar r @ s) = (r, 4)"
proof -
  have b: "r div 262144 < 5" using r by auto
  have m: "r div 4096 mod 64 < 64" "r div 64 mod 64 < 64" "r mod 64 < 64" by simp_all
  have lo: "r div 262144 = 0 \<Longrightarrow> 16 \<le> r div 4096 mod 64"
    using r by (auto simp: div_eq_0_iff)
  have hi: "r div 262144 = 4 \<Longrightarrow> r div 4096 mod 64 < 16"
    using r split_digits4 [of r] by linarith
  have "cont (second_lo (240 + r div 262144)) (second_hi (240 + r div 262144))
          (128 + r div 4096 mod 64)"
    using lo hi m by (auto simp: cont_def second_lo_def second_hi_def)
  from decode_bytes4 [OF b mod_64_le mod_64_le mod_64_le this, of "r div 64" "r mod 64" s]
  show ?thesis
    using r by (simp add: encode_scalar_def split_digits4)
qed

lemma decode_encode:
  assumes "scalar r"
  shows "decode_rune (encode_rune r @ s) = (r, length (encode_rune r))"
proof -
  consider "r < 128" | "128 \<le> r" "r < 2048" | "2048 \<le> r" "r < 65536"
    | "65536 \<le> r" "r < 1114112"
    using assms by (fastforce simp: scalar_def)
  then show ?thesis
  proof cases
    case 1
    then show ?thesis
      using assms by (simp add: encode_rune_def encode_scalar_def decode_rune.simps Let_def)
  next
    case 2
    then show ?thesis
      using assms decode_encode2 [OF 2, of s] by (simp add: encode_rune_def encode_scalar_def)
  next
    case 3
    then show ?thesis
      using assms decode_encode3 [OF 3 assms, of s] by (simp add: encode_rune_def encode_scalar_def)
  next
    case 4
    then show ?thesis
      using assms decode_encode4 [OF 4, of s] by (simp add: encode_rune_def encode_scalar_def)
  qed
qed

lemma encode_rune_nonempty [simp]: "encode_rune r \<noteq> []"
  by (simp add: encode_rune_def)

lemma runes_encode: "scalar r \<Longrightarrow> runes (encode_rune r @ s) = r # runes s"
  by (subst runes.simps) (simp add: decode_encode)

lemma runes_of_runes: "list_all scalar rs \<Longrightarrow> runes (of_runes rs) = rs"
  by (induction rs) (simp_all add: runes_encode)

end
