(* ===== verification/Go_Strings.thy ===== *)
theory Go_Strings
  imports Go_Utf8
begin

text \<open>
  What the program uses of the package \<open>strings\<close> on runes (\<open>TrimSpace\<close>, \<open>Map\<close>, \<open>TrimRight\<close>,
  \<open>ToLower\<close> of a word, \<open>SplitN\<close> at a dot) and of \<open>encoding/base64\<close> (\<open>RawURLEncoding\<close>). The lemmas
  say when trimming leaves a text alone, which bytes a mapped text can contain, and that
  decoding what was encoded gives the bytes back.
\<close>

subsection \<open>TrimSpace\<close>

definition is_space :: "rune \<Rightarrow> bool" where
  "is_space r \<longleftrightarrow> r \<in> {9, 10, 11, 12, 13, 32, 133, 160, 5760, 8232, 8233, 8239, 8287, 12288}
     \<or> (8192 \<le> r \<and> r \<le> 8202)"

function trim_left :: "string \<Rightarrow> string" where
  "trim_left s =
     (if s = [] then []
      else let (r, w) = decode_rune s in if is_space r then trim_left (drop w s) else s)"
  by pat_completeness auto
termination
proof (relation "measure length")
  fix s :: string and x r w
  assume "s \<noteq> []" "x = decode_rune s" "(r, w) = x"
  with decode_rune_width [of s] show "(drop w s, s) \<in> measure length"
    by (metis diff_less in_measure length_drop length_greater_0_conv less_eq_Suc_le
        One_nat_def snd_conv)
qed simp

declare trim_left.simps [simp del]

text \<open>
  \<open>utf8.DecodeLastRune\<close> of a non-empty string: the last rune start among the three bytes before
  the last one begins it, if the rune that starts there ends at the end.
\<close>

definition rune_start :: "char \<Rightarrow> bool" where
  "rune_start c \<longleftrightarrow> byte c div 64 \<noteq> 2"

definition decode_last_rune :: "string \<Rightarrow> rune \<times> nat" where
  "decode_last_rune s =
     (if byte (last s) < 128 then (byte (last s), 1)
      else case find (\<lambda>k. k \<le> length s \<and> rune_start (s ! (length s - k))) [2, 3, 4] of
             None \<Rightarrow> (RuneError, 1)
           | Some k \<Rightarrow>
               (let (r, w) = decode_rune (drop (length s - k) s)
                in if w = k then (r, w) else (RuneError, 1)))"

lemma decode_last_rune_width: "1 \<le> snd (decode_last_rune s)"
proof (cases "find (\<lambda>k. k \<le> length s \<and> rune_start (s ! (length s - k))) [2, 3, 4]")
  case None
  then show ?thesis by (simp only: decode_last_rune_def) simp
next
  case (Some k)
  then have "k \<in> {2, 3, 4}" by (auto split: if_splits)
  with Some show ?thesis
    by (cases "decode_rune (drop (length s - k) s)") (auto simp only: decode_last_rune_def Let_def
        option.case prod.case snd_conv split: if_splits)
qed

function trim_right :: "string \<Rightarrow> string" where
  "trim_right s =
     (if s = [] then []
      else let (r, w) = decode_last_rune s
           in if is_space r then trim_right (take (length s - w) s) else s)"
  by pat_completeness auto
termination
proof (relation "measure length")
  fix s :: string and x r w
  assume "s \<noteq> []" "x = decode_last_rune s" "(r, w) = x"
  with decode_last_rune_width [of s] show "(take (length s - w) s, s) \<in> measure length"
    by (metis diff_less in_measure length_greater_0_conv length_take less_eq_Suc_le min.absorb2
        One_nat_def snd_conv diff_le_self)
qed simp

declare trim_right.simps [simp del]

definition trim_space :: "string \<Rightarrow> string" where
  "trim_space s = trim_right (trim_left s)"

text \<open>A text that begins and ends with printable ASCII is not trimmed.\<close>

definition printable :: "char \<Rightarrow> bool" where
  "printable c \<longleftrightarrow> 33 \<le> byte c \<and> byte c < 127"

lemma printable_not_space: "printable c \<Longrightarrow> \<not> is_space (byte c)"
  by (auto simp: printable_def is_space_def)

lemma trim_space_id:
  assumes "printable (hd s)" "printable (last s)"
  shows "trim_space s = s"
proof (cases s)
  case Nil
  then show ?thesis by (simp add: trim_space_def trim_left.simps trim_right.simps)
next
  case (Cons c cs)
  have "byte c < 128" "\<not> is_space (byte c)"
    using assms(1) Cons printable_not_space by (auto simp: printable_def)
  then have "trim_left s = s" by (subst trim_left.simps) (simp add: Cons)
  moreover have "byte (last s) < 128" "\<not> is_space (byte (last s))"
    using assms(2) printable_not_space by (auto simp: printable_def)
  then have "trim_right s = s"
    by (subst trim_right.simps) (simp add: decode_last_rune_def)
  ultimately show ?thesis by (simp add: trim_space_def)
qed

lemma trim_space_Nil [simp]: "trim_space [] = []"
  by (simp add: trim_space_def trim_left.simps trim_right.simps)

subsection \<open>Map and TrimRight\<close>

text \<open>
  \<open>strings.Map\<close> with a mapping that drops nothing: a text that is not well-formed UTF-8 has its
  bad bytes replaced.
\<close>

definition map_runes :: "(rune \<Rightarrow> rune) \<Rightarrow> string \<Rightarrow> string" where
  "map_runes f s = of_runes (map f (runes s))"

text \<open>
  \<open>strings.ToLower\<close> as far as a comparison with a lower-case ASCII word can see it: besides the
  ASCII capitals two runes are lower-cased into ASCII, U+0130 and U+212A.
\<close>

definition lower_rune :: "rune \<Rightarrow> rune" where
  "lower_rune r =
     (if 65 \<le> r \<and> r \<le> 90 then r + 32 else if r = 0x130 then 105 else if r = 0x212A then 107 else r)"

text \<open>\<open>strings.TrimRight(s, "\n")\<close>.\<close>

definition newline :: char where
  "newline = CHR 0x0A"

definition trim_newlines :: "string \<Rightarrow> string" where
  "trim_newlines s = rev (dropWhile (\<lambda>c. c = newline) (rev s))"

lemma trim_newlines_prefix: "\<exists>ys. s = trim_newlines s @ ys"
proof -
  have "rev s = takeWhile (\<lambda>c. c = newline) (rev s) @ dropWhile (\<lambda>c. c = newline) (rev s)" by simp
  then have "s = trim_newlines s @ rev (takeWhile (\<lambda>c. c = newline) (rev s))"
    unfolding trim_newlines_def by (metis rev_append rev_rev_ident)
  then show ?thesis ..
qed

text \<open>A byte below 128 of an encoded rune is that rune.\<close>

lemma encode_scalar_ascii:
  "r < 1114112 \<Longrightarrow> c \<in> set (encode_scalar r) \<Longrightarrow> byte c < 128 \<Longrightarrow> byte c = r"
  by (auto simp: encode_scalar_def split: if_splits)

lemma of_runes_ascii: "c \<in> set (of_runes rs) \<Longrightarrow> byte c < 128 \<Longrightarrow> byte c \<in> set rs"
proof (induction rs)
  case (Cons r rs)
  have "byte c = r" if "c \<in> set (encode_rune r)"
    using that Cons.prems(2) encode_scalar_ascii [of r c] encode_scalar_ascii [of RuneError c]
    by (auto simp: encode_rune_def scalar_def RuneError_def split: if_splits)
  with Cons show ?case by auto
qed simp

text \<open>The symbols the program's texts use beyond ASCII.\<close>

definition em_dash :: string where "em_dash = encode_rune 0x2014"
definition ellipsis :: string where "ellipsis = encode_rune 0x2026"
definition right_arrow :: string where "right_arrow = encode_rune 0x2192"
definition bullet :: string where "bullet = encode_rune 0x2022"
definition check_mark :: string where "check_mark = encode_rune 0x2705"

lemma encode_rune_ascii: "c \<in> set (encode_rune r) \<Longrightarrow> byte c < 128 \<Longrightarrow> byte c = r"
  using of_runes_ascii [of c "[r]"] by simp

lemma trim_newlines_last:
  assumes "xs \<noteq> []" "last xs \<noteq> newline"
  shows "\<exists>zs. trim_newlines (xs @ ys) = xs @ zs"
proof -
  obtain x xs' where xs: "xs = xs' @ [x]" "x \<noteq> newline"
    using assms by (cases xs rule: rev_cases) auto
  have "dropWhile (\<lambda>c. c = newline) (rev ys @ x # rev xs') =
      dropWhile (\<lambda>c. c = newline) (rev ys) @ x # rev xs'"
    using xs(2) by (induction "rev ys") (auto simp: dropWhile_append3 dropWhile_append)
  then show ?thesis unfolding trim_newlines_def xs(1) by simp
qed

subsection \<open>SplitN at a dot\<close>

text \<open>\<open>strings.SplitN(s, ".", 2)\<close> when the separator occurs, and \<open>None\<close> when it does not.\<close>

fun split_dot :: "string \<Rightarrow> (string \<times> string) option" where
  "split_dot [] = None"
| "split_dot (c # s) =
     (if c = CHR ''.'' then Some ([], s)
      else map_option (\<lambda>(a, b). (c # a, b)) (split_dot s))"

lemma split_dot_append: "CHR ''.'' \<notin> set a \<Longrightarrow> split_dot (a @ CHR ''.'' # b) = Some (a, b)"
  by (induction a) auto

lemma split_dot_Some: "split_dot s = Some (a, b) \<Longrightarrow> s = a @ CHR ''.'' # b"
  by (induction s arbitrary: a) (auto split: if_splits)

subsection \<open>Base64\<close>

definition b64_alphabet :: string where
  "b64_alphabet = ''ABCDEFGHIJKLMNOPQRSTUVWXYZabcdefghijklmnopqrstuvwxyz0123456789-_''"

definition b64_sym :: "nat \<Rightarrow> char" where
  "b64_sym n = b64_alphabet ! n"

text \<open>\<open>RawURLEncoding.EncodeToString\<close>: four symbols for three bytes, no padding.\<close>

fun b64_encode :: "string \<Rightarrow> string" where
  "b64_encode [] = []"
| "b64_encode [a] = [b64_sym (byte a div 4), b64_sym (byte a mod 4 * 16)]"
| "b64_encode [a, b] =
     [b64_sym (byte a div 4), b64_sym (byte a mod 4 * 16 + byte b div 16),
      b64_sym (byte b mod 16 * 4)]"
| "b64_encode (a # b # c # s) =
     [b64_sym (byte a div 4), b64_sym (byte a mod 4 * 16 + byte b div 16),
      b64_sym (byte b mod 16 * 4 + byte c div 64), b64_sym (byte c mod 64)] @ b64_encode s"

definition b64_value :: "char \<Rightarrow> nat option" where
  "b64_value c =
     (let i = length (takeWhile (\<lambda>x. x \<noteq> c) b64_alphabet) in if i < 64 then Some i else None)"

text \<open>A last group of one symbol is an error; the unused bits of the last symbol are not checked.\<close>

fun b64_bytes :: "nat list \<Rightarrow> string option" where
  "b64_bytes [] = Some []"
| "b64_bytes [a] = None"
| "b64_bytes [a, b] = Some [char_of (a * 4 + b div 16)]"
| "b64_bytes [a, b, c] = Some [char_of (a * 4 + b div 16), char_of (b mod 16 * 16 + c div 4)]"
| "b64_bytes (a # b # c # d # vs) =
     map_option (\<lambda>s. [char_of (a * 4 + b div 16), char_of (b mod 16 * 16 + c div 4),
       char_of (c mod 4 * 64 + d)] @ s) (b64_bytes vs)"

text \<open>\<open>DecodeString\<close>: line breaks are skipped, any other symbol outside the alphabet is an error.\<close>

definition b64_decode :: "string \<Rightarrow> string option" where
  "b64_decode s =
     (case those (map b64_value (filter (\<lambda>c. c \<noteq> CHR 0x0A \<and> c \<noteq> CHR 0x0D) s)) of
        None \<Rightarrow> None
      | Some vs \<Rightarrow> b64_bytes vs)"

lemma b64_sym_props:
  "n < 64 \<Longrightarrow> b64_value (b64_sym n) = Some n \<and> printable (b64_sym n) \<and> b64_sym n \<noteq> CHR ''.''
     \<and> b64_sym n \<noteq> CHR 0x0A \<and> b64_sym n \<noteq> CHR 0x0D"
proof -
  have "\<forall>n \<in> set [0..<64]. b64_value (b64_sym n) = Some n \<and> printable (b64_sym n)
      \<and> b64_sym n \<noteq> CHR ''.'' \<and> b64_sym n \<noteq> CHR 0x0A \<and> b64_sym n \<noteq> CHR 0x0D" by code_simp
  then show "n < 64 \<Longrightarrow> b64_value (b64_sym n) = Some n \<and> printable (b64_sym n)
      \<and> b64_sym n \<noteq> CHR ''.'' \<and> b64_sym n \<noteq> CHR 0x0A \<and> b64_sym n \<noteq> CHR 0x0D" by simp
qed

text \<open>The six-bit groups of a text.\<close>

fun b64_groups :: "string \<Rightarrow> nat list" where
  "b64_groups [] = []"
| "b64_groups [a] = [byte a div 4, byte a mod 4 * 16]"
| "b64_groups [a, b] = [byte a div 4, byte a mod 4 * 16 + byte b div 16, byte b mod 16 * 4]"
| "b64_groups (a # b # c # s) =
     [byte a div 4, byte a mod 4 * 16 + byte b div 16, byte b mod 16 * 4 + byte c div 64,
      byte c mod 64] @ b64_groups s"

lemma div_byte: "byte c div 4 < 64" "byte c div 16 < 16" "byte c div 64 < 4"
  using byte_less [of c] by (simp_all add: less_mult_imp_div_less)

lemma pack6: "a < 4 \<Longrightarrow> b < 16 \<Longrightarrow> a * 16 + b < (64 :: nat)" "a < 16 \<Longrightarrow> b < 4 \<Longrightarrow> a * 4 + b < (64 :: nat)"
  by auto

lemma b64_groups_less: "n \<in> set (b64_groups s) \<Longrightarrow> n < 64"
  by (induction s rule: b64_groups.induct) (auto simp: div_byte pack6 intro: pack6)

lemma b64_encode_groups: "b64_encode s = map b64_sym (b64_groups s)"
  by (induction s rule: b64_groups.induct) simp_all

lemma char_of_byte [simp]: "char_of (byte c) = c"
  by (simp add: byte_def)

lemma unpack6:
  "x < 16 \<Longrightarrow> a div 4 * 4 + (a mod 4 * 16 + x) div 16 = (a :: nat)"
  "x < 16 \<Longrightarrow> y < 4 \<Longrightarrow> (x' * 16 + x) mod 16 * 16 + (y' * 4 + y) div 4 = x * 16 + (y' :: nat)"
  "y < 4 \<Longrightarrow> (y' * 4 + y) mod 4 * 64 + z = y * 64 + (z :: nat)"
  by simp_all

lemma char_of_byte_split:
  "char_of (byte b div 16 * 16 + byte b mod 16) = b" "char_of (byte c div 64 * 64 + byte c mod 64) = c"
  by (simp_all only: div_mult_mod_eq char_of_byte)

lemma b64_bytes_groups: "b64_bytes (b64_groups s) = Some s"
proof (induction s rule: b64_groups.induct)
  case (2 a)
  then show ?case using unpack6(1) [of 0 "byte a"] by simp
next
  case (3 a b)
  have "byte b div 16 < 16" by (rule div_byte)
  then show ?case
    using unpack6(1) [of "byte b div 16" "byte a"]
      unpack6(2) [of "byte b div 16" 0 "byte a mod 4" "byte b mod 16"] char_of_byte_split(1) [of b]
    by simp
next
  case (4 a b c s)
  have "byte b div 16 < 16" "byte c div 64 < 4" by (rule div_byte)+
  then show ?case
    using unpack6(1) [of "byte b div 16" "byte a"] 4
      unpack6(2) [of "byte b div 16" "byte c div 64" "byte a mod 4" "byte b mod 16"]
      unpack6(3) [of "byte c div 64" "byte b mod 16" "byte c mod 64"]
      char_of_byte_split(1) [of b] char_of_byte_split(2) [of c]
    by simp
qed simp

lemma those_map_Some: "(\<And>x. x \<in> set xs \<Longrightarrow> f x = Some (g x)) \<Longrightarrow> those (map f xs) = Some (map g xs)"
  by (induction xs) auto

lemma b64_roundtrip: "b64_decode (b64_encode s) = Some s"
proof -
  have "filter (\<lambda>c. c \<noteq> CHR 0x0A \<and> c \<noteq> CHR 0x0D) (b64_encode s) = b64_encode s"
    by (rule filter_True) (auto simp: b64_encode_groups dest!: b64_groups_less b64_sym_props)
  moreover have "those (map b64_value (b64_encode s)) = Some (b64_groups s)"
    unfolding b64_encode_groups map_map
    using those_map_Some [of "b64_groups s" "b64_value \<circ> b64_sym" id] b64_groups_less b64_sym_props
    by (simp add: comp_def)
  ultimately show ?thesis by (simp add: b64_decode_def b64_bytes_groups)
qed

lemma b64_encode_chars: "c \<in> set (b64_encode s) \<Longrightarrow> printable c \<and> c \<noteq> CHR ''.''"
  by (auto simp: b64_encode_groups dest!: b64_groups_less b64_sym_props)

subsection \<open>Runes of parts of a string\<close>

lemma rune_start_iff: "rune_start c \<longleftrightarrow> byte c < 128 \<or> 191 < byte c"
  unfolding rune_start_def by linarith

lemma not_cont: "rune_start c \<Longrightarrow> \<not> cont (second_lo b) (second_hi b) (byte c) \<and> \<not> cont 128 191 (byte c)"
  by (auto simp: rune_start_iff cont_def second_lo_def second_hi_def)

text \<open>Decoding does not look past a byte that starts a rune.\<close>

lemma decode_rune_append:
  assumes "a \<noteq> []" "b = [] \<or> rune_start (hd b)"
  shows "decode_rune (a @ b) = decode_rune a"
proof (cases "b = []")
  case False
  then obtain x b' where b: "b = x # b'" "rune_start x" using assms(2) by (cases b) auto
  note n = not_cont [OF b(2)]
  obtain c a' where a: "a = c # a'" using assms(1) by (cases a) auto
  consider "a' = []" | y where "a' = [y]" | y z where "a' = [y, z]" | y z w a'' where "a' = y # z # w # a''"
    by (metis neq_Nil_conv)
  then show ?thesis
    using n by cases (simp_all add: a b(1) decode_rune.simps Let_def split: list.splits)
qed simp

lemma runes_append:
  assumes "b = [] \<or> rune_start (hd b)"
  shows "runes (a @ b) = runes a @ runes b"
proof (induction a rule: runes.induct)
  case (1 a)
  show ?case
  proof (cases "a = []")
    case False
    let ?w = "snd (decode_rune a)"
    have d: "decode_rune (a @ b) = decode_rune a" by (rule decode_rune_append [OF False assms])
    have w: "?w \<le> length a" using decode_rune_width [OF False] by simp
    have "runes (a @ b) = fst (decode_rune a) # runes (drop ?w a @ b)"
      using False w by (subst runes.simps) (simp add: d)
    also have "\<dots> = runes a @ runes b"
      using False "1.IH" by (subst (2) runes.simps) simp
    finally show ?thesis .
  qed simp
qed

lemma runes_ascii [simp]: "\<forall>c \<in> set s. byte c < 128 \<Longrightarrow> runes s = map byte s"
  by (induction s) simp_all

lemma runes_append_ascii:
  assumes "a = [] \<or> byte (last a) < 128"
  shows "runes (a @ b) = runes a @ runes b"
proof (cases "a = []")
  case False
  then obtain a' c where a: "a = a' @ [c]" "byte c < 128" using assms by (cases a rule: rev_cases) auto
  then have "rune_start c" by (simp add: rune_start_iff)
  then have "runes (a' @ c # b) = runes a' @ runes (c # b)" "runes (a' @ [c]) = runes a' @ runes [c]"
    by (simp_all add: runes_append)
  with a show ?thesis by simp
qed simp

lemma runes_trim_left: "\<exists>p. runes s = p @ runes (trim_left s) \<and> list_all is_space p"
proof (induction s rule: trim_left.induct)
  case (1 s)
  show ?case
  proof (cases "s = [] \<or> \<not> is_space (fst (decode_rune s))")
    case True
    then have "trim_left s = s" by (subst trim_left.simps) (auto simp: split_def Let_def)
    then show ?thesis by (intro exI [of _ "[]"]) simp
  next
    case False
    obtain r w where rw: "decode_rune s = (r, w)" by fastforce
    with False have sp: "s \<noteq> []" "is_space r" by auto
    from "1.IH" [OF sp(1) refl rw [symmetric] sp(2)] obtain p where
      p: "runes (drop w s) = p @ runes (trim_left (drop w s))" "list_all is_space p" by blast
    have "trim_left s = trim_left (drop w s)"
      using sp rw by (subst trim_left.simps) simp
    moreover have "runes s = r # runes (drop w s)" using sp(1) rw by (subst runes.simps) simp
    ultimately have "runes s = (r # p) @ runes (trim_left s)" using p(1) by simp
    then show ?thesis using p(2) sp(2) by (intro exI [of _ "r # p"]) simp
  qed
qed

lemma runes_single: "s \<noteq> [] \<Longrightarrow> decode_rune s = (r, length s) \<Longrightarrow> runes s = [r]"
  by (subst runes.simps) simp

text \<open>The last rune, unless it is an error, is the last of the runes.\<close>

lemma runes_decode_last:
  assumes "s \<noteq> []" "decode_last_rune s = (r, w)" "r \<noteq> RuneError"
  shows "runes s = runes (take (length s - w) s) @ [r]"
proof (cases "byte (last s) < 128")
  case True
  then have r: "r = byte (last s)" "w = 1" using assms(2) by (simp_all add: decode_last_rune_def)
  have s: "s = take (length s - 1) s @ [last s]" using assms(1) by (metis append_butlast_last_id butlast_conv_take)
  have "rune_start (last s)" using True by (simp add: rune_start_iff)
  then have "runes (take (length s - 1) s @ [last s]) = runes (take (length s - 1) s) @ runes [last s]"
    by (simp add: runes_append)
  with s True r show ?thesis by simp
next
  case False
  let ?P = "\<lambda>k. k \<le> length s \<and> rune_start (s ! (length s - k))"
  show ?thesis
  proof (cases "find ?P [2, 3, 4]")
    case None
    then have "decode_last_rune s = (RuneError, 1)"
      using False by (simp only: decode_last_rune_def option.case if_False)
    then show ?thesis using assms(2,3) by simp
  next
    case (Some k)
    then have k: "?P k" "2 \<le> k" by (auto split: if_splits)
    obtain r' w' where d: "decode_rune (drop (length s - k) s) = (r', w')" by fastforce
    have "decode_last_rune s = (if w' = k then (r', w') else (RuneError, 1))"
      using False Some d by (simp only: decode_last_rune_def option.case if_False Let_def prod.case)
    then have e: "w' = k" "r' = r" "w = k" using assms(2,3) by (auto split: if_splits)
    let ?d = "drop (length s - k) s"
    have len: "length ?d = k" using k by simp
    then have ne: "?d \<noteq> []" "length ?d = k" using k(2) by (cases ?d, simp_all)
    have "hd ?d = s ! (length s - k)" using ne by (intro hd_drop_conv_nth) simp
    then have "runes (take (length s - k) s @ ?d) = runes (take (length s - k) s) @ runes ?d"
      using k(1) by (intro runes_append) simp
    moreover have "runes ?d = [r]" using runes_single [OF ne(1)] d e ne(2) by simp
    ultimately show ?thesis using e(3) by simp
  qed
qed

lemma runes_trim_right: "\<exists>q. runes s = runes (trim_right s) @ q \<and> list_all is_space q"
proof (induction s rule: trim_right.induct)
  case (1 s)
  show ?case
  proof (cases "s = [] \<or> \<not> is_space (fst (decode_last_rune s))")
    case True
    then have "trim_right s = s" by (subst trim_right.simps) (auto simp: split_def Let_def)
    then show ?thesis by (intro exI [of _ "[]"]) simp
  next
    case False
    obtain r w where rw: "decode_last_rune s = (r, w)" by fastforce
    with False have sp: "s \<noteq> []" "is_space r" by auto
    from "1.IH" [OF sp(1) refl rw [symmetric] sp(2)] obtain q where
      q: "runes (take (length s - w) s) = runes (trim_right (take (length s - w) s)) @ q"
      "list_all is_space q" by blast
    have "trim_right s = trim_right (take (length s - w) s)"
      using sp rw by (subst trim_right.simps) simp
    moreover have "r \<noteq> RuneError" using sp(2) by (auto simp: is_space_def RuneError_def)
    then have "runes s = runes (take (length s - w) s) @ [r]" by (rule runes_decode_last [OF sp(1) rw])
    ultimately have "runes s = runes (trim_right s) @ q @ [r]" using q(1) by simp
    then show ?thesis using q(2) sp(2) by (intro exI [of _ "q @ [r]"]) simp
  qed
qed

lemma runes_trim_space:
  "\<exists>p q. runes s = p @ runes (trim_space s) @ q \<and> list_all is_space p \<and> list_all is_space q"
proof -
  obtain p where p: "runes s = p @ runes (trim_left s)" "list_all is_space p" using runes_trim_left by blast
  obtain q where q: "runes (trim_left s) = runes (trim_space s) @ q" "list_all is_space q"
    using runes_trim_right [of "trim_left s"] by (auto simp: trim_space_def)
  from p q show ?thesis by auto
qed

lemma trim_right_snoc:
  assumes "byte c < 128"
  shows "trim_right (s @ [c]) = (if is_space (byte c) then trim_right s else s @ [c])"
  by (subst trim_right.simps) (simp add: decode_last_rune_def assms)

lemma trim_left_Cons:
  assumes "byte c < 128"
  shows "trim_left (c # s) = (if is_space (byte c) then trim_left s else c # s)"
  by (subst trim_left.simps) (simp add: assms)

lemma encode_rune_byte: "byte c < 128 \<Longrightarrow> encode_rune (byte c) = [c]"
  by (simp add: encode_rune_def scalar_def encode_scalar_def)

lemma map_runes_ascii_id:
  "\<forall>c \<in> set s. byte c < 128 \<and> f (byte c) = byte c \<Longrightarrow> map_runes f s = s"
  by (induction s) (simp_all add: map_runes_def encode_rune_byte)

lemma trim_right_idem [simp]: "trim_right (trim_right s) = trim_right s"
proof (induction s rule: trim_right.induct)
  case (1 s)
  show ?case
  proof (cases "s = [] \<or> \<not> is_space (fst (decode_last_rune s))")
    case True
    then have "trim_right s = s" by (subst trim_right.simps) (auto simp: split_def Let_def)
    then show ?thesis by simp
  next
    case False
    obtain r w where rw: "decode_last_rune s = (r, w)" by fastforce
    with False have sp: "s \<noteq> []" "is_space r" by auto
    have "trim_right s = trim_right (take (length s - w) s)"
      using sp rw by (subst trim_right.simps) simp
    then show ?thesis using "1.IH" [OF sp(1) refl rw [symmetric] sp(2)] by simp
  qed
qed

lemma trim_left_head: "trim_left s = [] \<or> \<not> is_space (fst (decode_rune (trim_left s)))"
proof (induction s rule: trim_left.induct)
  case (1 s)
  show ?case
  proof (cases "s = [] \<or> \<not> is_space (fst (decode_rune s))")
    case True
    then have "trim_left s = s" by (subst trim_left.simps) (auto simp: split_def Let_def)
    then show ?thesis using True by auto
  next
    case False
    obtain r w where rw: "decode_rune s = (r, w)" by fastforce
    with False have sp: "s \<noteq> []" "is_space r" by auto
    have "trim_left s = trim_left (drop w s)"
      using sp rw by (subst trim_left.simps) simp
    then show ?thesis using "1.IH" [OF sp(1) refl rw [symmetric] sp(2)] by simp
  qed
qed

lemma hd_runes: "s \<noteq> [] \<Longrightarrow> hd (runes s) = fst (decode_rune s) \<and> runes s \<noteq> []"
  by (subst (1 2) runes.simps) simp

lemma trim_space_head: "trim_space s = [] \<or> \<not> is_space (fst (decode_rune (trim_space s)))"
proof (cases "trim_space s = []")
  case False
  then have l: "trim_left s \<noteq> []" by (auto simp: trim_space_def trim_right.simps)
  obtain q where "runes (trim_left s) = runes (trim_space s) @ q"
    using runes_trim_right [of "trim_left s"] by (auto simp: trim_space_def)
  then have "hd (runes (trim_left s)) = hd (runes (trim_space s))"
    using hd_runes [OF False] by simp
  then show ?thesis using hd_runes [OF False] hd_runes [OF l] trim_left_head [of s] l by simp
qed simp

lemma trim_left_id: "\<not> is_space (fst (decode_rune s)) \<Longrightarrow> trim_left s = s"
  by (subst trim_left.simps) (simp add: split_def Let_def)

text \<open>A trimmed text that is written with a newline is trimmed to itself when it is read back.\<close>

lemma trim_space_newline: "trim_space (trim_space s @ [newline]) = trim_space s"
proof -
  have nl: "byte newline < 128" "is_space (byte newline)" "rune_start newline"
    by (simp_all add: newline_def byte_def is_space_def rune_start_def)
  have r: "trim_right (trim_space s @ [newline]) = trim_space s"
    using nl by (simp add: trim_right_snoc) (simp add: trim_space_def)
  show ?thesis
  proof (cases "trim_space s = []")
    case True
    have "trim_left [newline] = []" using nl by (simp add: trim_left_Cons) (simp add: trim_left.simps)
    then show ?thesis unfolding trim_space_def [of "_ @ _"] True by (simp add: trim_right.simps)
  next
    case False
    have "decode_rune (trim_space s @ [newline]) = decode_rune (trim_space s)"
      using False nl(3) by (intro decode_rune_append) simp_all
    then have "\<not> is_space (fst (decode_rune (trim_space s @ [newline])))"
      using trim_space_head [of s] False by simp
    then have "trim_left (trim_space s @ [newline]) = trim_space s @ [newline]" by (rule trim_left_id)
    then show ?thesis using r by (simp only: trim_space_def [of "_ @ _"])
  qed
qed

lemma trim_space_idem [simp]: "trim_space (trim_space s) = trim_space s"
proof (cases "trim_space s = []")
  case False
  then have "trim_left (trim_space s) = trim_space s" using trim_space_head [of s] by (intro trim_left_id) simp
  then have "trim_space (trim_space s) = trim_right (trim_space s)" unfolding trim_space_def [of "trim_space s"] by simp
  then show ?thesis by (simp add: trim_space_def)
qed simp

subsection \<open>What decoding gives\<close>

lemma decode_rune_high:
  assumes "128 \<le> byte c"
  shows "128 \<le> fst (decode_rune (c # s))"
proof -
  have two: "194 \<le> b \<Longrightarrow> (128 :: nat) \<le> (b - 192) * 64 + x" for b x by (simp add: le_diff_conv2)
  have three: "cont (second_lo b) (second_hi b) (byte y) \<Longrightarrow>
      (128 :: nat) \<le> (b - 224) * 4096 + (byte y - 128) * 64 + x" if "224 \<le> b" for b y x
    using that by (cases "b = 224") (auto simp: cont_def second_lo_def second_hi_def split: if_splits)
  have four: "cont (second_lo b) (second_hi b) (byte y) \<Longrightarrow>
      (128 :: nat) \<le> (b - 240) * 262144 + (byte y - 128) * 4096 + x + z" if "240 \<le> b" for b y x z
    using that by (cases "b = 240") (auto simp: cont_def second_lo_def second_hi_def split: if_splits)
  consider "byte c < 194 \<or> 245 \<le> byte c" | "194 \<le> byte c" "byte c < 224"
    | "224 \<le> byte c" "byte c < 240" | "240 \<le> byte c" "byte c < 245" by linarith
  then show ?thesis
  proof cases
    case 1
    with assms show ?thesis by (auto simp: decode_rune.simps Let_def RuneError_def)
  next
    case 2
    with two show ?thesis by (simp add: decode_rune.simps Let_def RuneError_def split: list.splits)
  next
    case 3
    with three show ?thesis by (simp add: decode_rune.simps Let_def RuneError_def split: list.splits)
  next
    case 4
    with four show ?thesis by (simp add: decode_rune.simps Let_def RuneError_def split: list.splits)
  qed
qed

lemma decode_rune_low: "fst (decode_rune s) < 128 \<Longrightarrow> s \<noteq> [] \<Longrightarrow> fst (decode_rune s) = byte (hd s)"
proof (cases s)
  case (Cons c cs)
  assume low: "fst (decode_rune s) < 128"
  then have "byte c < 128" using decode_rune_high [of c cs] Cons by (meson not_le)
  then show ?thesis by (simp add: Cons)
qed simp

lemma runes_low: "r \<in> set (runes s) \<Longrightarrow> r < 128 \<Longrightarrow> \<exists>c \<in> set s. byte c = r"
proof (induction s rule: runes.induct)
  case (1 s)
  show ?case
  proof (cases "s = []")
    case False
    then consider "r = fst (decode_rune s)" | "r \<in> set (runes (drop (snd (decode_rune s)) s))"
      using "1.prems"(1) by (subst (asm) runes.simps) auto
    then show ?thesis
    proof cases
      case 1
      with "1.prems"(2) decode_rune_low [of s] False show ?thesis
        by (intro bexI [of _ "hd s"]) auto
    next
      case 2
      with "1.IH" [OF False] "1.prems"(2) show ?thesis by (meson in_set_dropD)
    qed
  qed (use "1.prems" in simp)
qed

text \<open>A decoded rune is one that can be encoded.\<close>

lemma scalar_error: "scalar RuneError" by (simp add: scalar_def RuneError_def)

lemma scalar_2: "194 \<le> b \<Longrightarrow> b < 224 \<Longrightarrow> cont 128 191 c1 \<Longrightarrow> scalar ((b - 192) * 64 + (c1 - 128))"
  unfolding scalar_def cont_def by (intro disjI1) linarith

lemma scalar_3:
  assumes "224 \<le> b" "b < 240" "cont (second_lo b) (second_hi b) c1" "cont 128 191 c2"
  shows "scalar ((b - 224) * 4096 + (c1 - 128) * 64 + (c2 - 128))"
proof -
  consider "b \<le> 236" | "b = 237" | "238 \<le> b" by linarith
  then show ?thesis
  proof cases
    case 1
    then have "second_hi b = 191" by (simp add: second_hi_def)
    with 1 assms show ?thesis unfolding scalar_def cont_def by (intro disjI1) linarith
  next
    case 2
    with assms show ?thesis unfolding scalar_def cont_def by (intro disjI1) (simp add: second_hi_def second_lo_def, linarith?)
  next
    case 3
    then have "second_hi b = 191" using assms by (simp add: second_hi_def)
    with 3 assms show ?thesis unfolding scalar_def cont_def by (intro disjI2) linarith
  qed
qed

lemma scalar_4:
  assumes "240 \<le> b" "b < 245" "cont (second_lo b) (second_hi b) c1" "cont 128 191 c2" "cont 128 191 c3"
  shows "scalar ((b - 240) * 262144 + (c1 - 128) * 4096 + (c2 - 128) * 64 + (c3 - 128))"
proof -
  consider "b = 240" | "240 < b \<and> b < 244" | "b = 244" using assms by linarith
  then show ?thesis
  proof cases
    case 1
    with assms show ?thesis unfolding scalar_def cont_def by (intro disjI2) (simp add: second_hi_def second_lo_def, linarith?)
  next
    case 2
    then have "second_hi b = 191" by (simp add: second_hi_def)
    with 2 assms show ?thesis unfolding scalar_def cont_def by (intro disjI2) linarith
  next
    case 3
    with assms show ?thesis unfolding scalar_def cont_def by (intro disjI2) (simp add: second_hi_def second_lo_def, linarith?)
  qed
qed

lemma scalar_decode: "scalar (fst (decode_rune s))"
proof (cases s)
  case (Cons c t)
  have "byte c < 128 \<Longrightarrow> scalar (byte c)" by (simp add: scalar_def)
  then show ?thesis
    unfolding Cons decode_rune.simps Let_def
    by (simp add: scalar_error scalar_2 scalar_3 scalar_4 split: list.split)
qed (simp add: decode_rune.simps scalar_error)

lemma scalar_runes: "list_all scalar (runes s)"
proof (induction s rule: runes.induct)
  case (1 s)
  show ?case
  proof (cases "s = []")
    case False
    have "runes s = fst (decode_rune s) # runes (drop (snd (decode_rune s)) s)"
      using False by (subst runes.simps) simp
    with 1 [OF False] scalar_decode show ?thesis by simp
  qed simp
qed

end
