(* ===== verification/Go_Regexp.thy ===== *)
theory Go_Regexp
  imports Go_Strings
begin

text \<open>
  The part of Go's \<open>regexp\<close> the program uses: expressions over runes with classes, sequences,
  alternatives, repetition and the ASCII word boundary, and \<open>MatchString\<close>. \<open>ends r s i\<close> computes
  where a match of \<open>r\<close> that begins at \<open>i\<close> may end; \<open>mat\<close> is the same as a relation. The lemmas: a
  match depends only on the text it covers and on whether its neighbours are word characters,
  which is what reasoning about a text cut into sentences needs.
\<close>

subsection \<open>Expressions\<close>

datatype re =
    Eps
  | Cls "rune \<Rightarrow> bool"
  | Seq re re
  | Alt re re
  | Star re
  | WordB

definition word_rune :: "rune \<Rightarrow> bool" where
  "word_rune r \<longleftrightarrow> (48 \<le> r \<and> r \<le> 57) \<or> (65 \<le> r \<and> r \<le> 90) \<or> (97 \<le> r \<and> r \<le> 122) \<or> r = 95"

definition at_boundary :: "rune list \<Rightarrow> nat \<Rightarrow> bool" where
  "at_boundary s i \<longleftrightarrow> (0 < i \<and> word_rune (s ! (i - 1))) \<noteq> (i < length s \<and> word_rune (s ! i))"

text \<open>The positions reached by repeated steps of \<open>f\<close> that advance, \<open>n\<close> of them at most.\<close>

fun reach :: "(nat \<Rightarrow> nat list) \<Rightarrow> nat \<Rightarrow> nat \<Rightarrow> nat list" where
  "reach f 0 i = [i]"
| "reach f (Suc n) i = i # concat (map (reach f n) (filter (\<lambda>j. i < j) (f i)))"

primrec ends :: "re \<Rightarrow> rune list \<Rightarrow> nat \<Rightarrow> nat list" where
  "ends Eps s i = [i]"
| "ends (Cls P) s i = (if i < length s \<and> P (s ! i) then [Suc i] else [])"
| "ends (Seq a b) s i = remdups (concat (map (ends b s) (ends a s i)))"
| "ends (Alt a b) s i = remdups (ends a s i @ ends b s i)"
| "ends (Star a) s i = remdups (reach (ends a s) (length s - i) i)"
| "ends WordB s i = (if at_boundary s i then [i] else [])"

definition match_runes :: "re \<Rightarrow> rune list \<Rightarrow> bool" where
  "match_runes r s \<longleftrightarrow> (\<exists>i \<in> set [0..<Suc (length s)]. ends r s i \<noteq> [])"

definition MatchString :: "re \<Rightarrow> string \<Rightarrow> bool" where
  "MatchString r s \<longleftrightarrow> match_runes r (runes s)"

subsection \<open>Building expressions\<close>

text \<open>A letter under \<open>(?i)\<close>: two letters have a third form beyond ASCII.\<close>

definition fold_case :: "rune \<Rightarrow> rune \<Rightarrow> bool" where
  "fold_case c r \<longleftrightarrow> r = c \<or> (97 \<le> c \<and> c \<le> 122 \<and> r + 32 = c) \<or> (c = 107 \<and> r = 0x212A) \<or>
     (c = 115 \<and> r = 0x17F)"

definition lit :: "string \<Rightarrow> re" where
  "lit s = foldr (\<lambda>c. Seq (Cls (fold_case (byte c)))) s Eps"

definition seqs :: "re list \<Rightarrow> re" where
  "seqs rs = foldr Seq rs Eps"

definition alts :: "re list \<Rightarrow> re" where
  "alts rs = foldr Alt rs (Cls (\<lambda>_. False))"

definition opt :: "re \<Rightarrow> re" where
  "opt r = Alt r Eps"

definition plus_re :: "re \<Rightarrow> re" where
  "plus_re r = Seq r (Star r)"

primrec upto_re :: "nat \<Rightarrow> re \<Rightarrow> re" where
  "upto_re 0 r = Eps"
| "upto_re (Suc n) r = opt (Seq r (upto_re n r))"

definition white :: "rune \<Rightarrow> bool" where
  "white r \<longleftrightarrow> r = 9 \<or> r = 10 \<or> r = 12 \<or> r = 13 \<or> r = 32"

definition space :: re where
  "space = Cls white"

subsection \<open>Matches as a relation\<close>

primrec mat :: "re \<Rightarrow> rune list \<Rightarrow> nat \<Rightarrow> nat \<Rightarrow> bool" where
  "mat Eps s i j \<longleftrightarrow> j = i"
| "mat (Cls P) s i j \<longleftrightarrow> i < length s \<and> P (s ! i) \<and> j = Suc i"
| "mat (Seq a b) s i j \<longleftrightarrow> (\<exists>k. mat a s i k \<and> mat b s k j)"
| "mat (Alt a b) s i j \<longleftrightarrow> mat a s i j \<or> mat b s i j"
| "mat (Star a) s i j \<longleftrightarrow> (mat a s)\<^sup>*\<^sup>* i j"
| "mat WordB s i j \<longleftrightarrow> j = i \<and> at_boundary s i"

lemma star_le:
  assumes "f\<^sup>*\<^sup>* i j" "\<And>i j. f i j \<Longrightarrow> i \<le> j \<and> (i \<le> n \<longrightarrow> j \<le> (n :: nat))"
  shows "i \<le> j \<and> (i \<le> n \<longrightarrow> j \<le> n)"
  using assms(1) by induction (use assms(2) in force)+

lemma mat_le: "mat r s i j \<Longrightarrow> i \<le> j \<and> (i \<le> length s \<longrightarrow> j \<le> length s)"
proof (induction r arbitrary: i j)
  case (Seq a b)
  then show ?case by fastforce
next
  case (Star a)
  then show ?case using star_le [of "mat a s" i j "length s"] by simp
qed auto

lemma reach_iff:
  assumes "\<And>i j. j \<in> set (f i) \<Longrightarrow> i \<le> j \<and> (i \<le> N \<longrightarrow> j \<le> N)" and "i \<le> N" "N - i \<le> n"
  shows "j \<in> set (reach f n i) \<longleftrightarrow> (\<lambda>i j. j \<in> set (f i))\<^sup>*\<^sup>* i j"
proof
  show "j \<in> set (reach f n i) \<Longrightarrow> (\<lambda>i j. j \<in> set (f i))\<^sup>*\<^sup>* i j"
    by (induction f n i rule: reach.induct) (auto intro: converse_rtranclp_into_rtranclp)
next
  assume "(\<lambda>i j. j \<in> set (f i))\<^sup>*\<^sup>* i j"
  then show "j \<in> set (reach f n i)" using assms(2,3)
  proof (induction arbitrary: n rule: converse_rtranclp_induct)
    case base
    show ?case by (cases n) simp_all
  next
    case (step x y)
    have xy: "x \<le> y" "y \<le> N" using assms(1) [OF step.hyps(1)] step.prems(1) by simp_all
    show ?case
    proof (cases "x = y")
      case True
      with step.IH [of n] step.prems show ?thesis by simp
    next
      case False
      then obtain m where n: "n = Suc m" using xy step.prems by (cases n) auto
      have "j \<in> set (reach f m y)" using step.IH [of m] xy False step.prems n by simp
      with n False xy step.hyps(1) show ?thesis by auto
    qed
  qed
qed

lemma ends_mat: "i \<le> length s \<Longrightarrow> j \<in> set (ends r s i) \<longleftrightarrow> mat r s i j"
proof (induction r arbitrary: i j)
  case (Seq a b)
  have "k \<le> length s" if "k \<in> set (ends a s i)" for k
    using that Seq.IH(1) [OF Seq.prems] mat_le [of a s i k] Seq.prems by simp
  with Seq show ?case by auto
next
  case (Star a)
  define f where "f = (\<lambda>i j. i \<le> length s \<and> mat a s i j)"
  have same: "(\<lambda>i j. j \<in> set (if i \<le> length s then ends a s i else [])) = f"
    using Star.IH by (auto simp: f_def fun_eq_iff)
  have r: "reach (ends a s) n i = reach (\<lambda>i. if i \<le> length s then ends a s i else []) n i"
    if "i \<le> length s" for n i
    using that
  proof (induction n arbitrary: i)
    case (Suc n)
    have "k \<le> length s" if "k \<in> set (ends a s i)" for k
      using that Star.IH [OF Suc.prems] mat_le [of a s i k] Suc.prems by simp
    then have "map (reach (ends a s) n) (filter (\<lambda>j. i < j) (ends a s i)) =
        map (reach (\<lambda>i. if i \<le> length s then ends a s i else []) n) (filter (\<lambda>j. i < j) (ends a s i))"
      using Suc.IH by simp
    with Suc.prems show ?case by (simp only: reach.simps if_True)
  qed simp
  have "j \<in> set (ends (Star a) s i) \<longleftrightarrow> f\<^sup>*\<^sup>* i j"
    unfolding same [symmetric] ends.simps set_remdups r [OF Star.prems]
    by (rule reach_iff [where N = "length s"])
      (use Star mat_le in \<open>auto split: if_splits\<close>)
  also have "\<dots> \<longleftrightarrow> (mat a s)\<^sup>*\<^sup>* i j"
  proof
    show "f\<^sup>*\<^sup>* i j \<Longrightarrow> (mat a s)\<^sup>*\<^sup>* i j" by (erule rtranclp_mono [THEN predicate2D, rotated]) (auto simp: f_def)
    assume "(mat a s)\<^sup>*\<^sup>* i j"
    then have "f\<^sup>*\<^sup>* i j \<and> j \<le> length s"
    proof induction
      case (step y z)
      then show ?case using mat_le [of a s y z] by (auto simp: f_def intro: rtranclp.rtrancl_into_rtrancl)
    qed (use Star.prems in simp)
    then show "f\<^sup>*\<^sup>* i j" ..
  qed
  finally show ?case by simp
qed auto

lemma match_runes_iff: "match_runes r s \<longleftrightarrow> (\<exists>i j. i \<le> length s \<and> mat r s i j)"
proof
  assume "match_runes r s"
  then obtain i where i: "i \<le> length s" "ends r s i \<noteq> []"
    unfolding match_runes_def by (metis atLeastLessThan_iff atLeastLessThan_upt less_Suc_eq_le)
  then obtain j where "j \<in> set (ends r s i)" by (cases "ends r s i") auto
  with i show "\<exists>i j. i \<le> length s \<and> mat r s i j" using ends_mat by blast
next
  assume "\<exists>i j. i \<le> length s \<and> mat r s i j"
  then obtain i j where ij: "i \<le> length s" "mat r s i j" by blast
  then have "j \<in> set (ends r s i)" by (simp add: ends_mat)
  then have "ends r s i \<noteq> []" by auto
  with ij(1) show "match_runes r s" unfolding match_runes_def by (intro bexI [of _ i]) auto
qed

subsection \<open>Locality\<close>

text \<open>The neighbours of a part of a text that end a word at its edges.\<close>

definition inner :: "rune list \<Rightarrow> rune list \<Rightarrow> bool" where
  "inner p q \<longleftrightarrow> (p = [] \<or> \<not> word_rune (last p)) \<and> (q = [] \<or> \<not> word_rune (hd q))"

lemma at_boundary_inner:
  assumes "inner p q" "k \<le> length t"
  shows "at_boundary (p @ t @ q) (length p + k) = at_boundary t k"
proof -
  have left: "(0 < length p + k \<and> word_rune ((p @ t @ q) ! (length p + k - 1))) =
      (0 < k \<and> word_rune (t ! (k - 1)))"
  proof (cases k)
    case 0
    then show ?thesis
      using assms(1) by (cases p rule: rev_cases) (auto simp: inner_def nth_append)
  next
    case (Suc k')
    then show ?thesis using assms(2) by (simp add: nth_append)
  qed
  have right: "(length p + k < length (p @ t @ q) \<and> word_rune ((p @ t @ q) ! (length p + k))) =
      (k < length t \<and> word_rune (t ! k))"
  proof (cases "k < length t")
    case False
    then have "k = length t" using assms(2) by simp
    then show ?thesis using assms(1) by (cases q) (auto simp: inner_def nth_append)
  qed (simp add: nth_append)
  show ?thesis unfolding at_boundary_def left right ..
qed

lemma mat_inner:
  assumes "inner p q"
  shows "i \<le> length t \<Longrightarrow> j \<le> length t \<Longrightarrow>
    mat r (p @ t @ q) (length p + i) (length p + j) \<longleftrightarrow> mat r t i j"
proof (induction r arbitrary: i j)
  case (Cls P)
  then show ?case by (auto simp: nth_append)
next
  case (Seq a b)
  show ?case
  proof
    assume "mat (Seq a b) (p @ t @ q) (length p + i) (length p + j)"
    then obtain k where k: "mat a (p @ t @ q) (length p + i) k" "mat b (p @ t @ q) k (length p + j)"
      by auto
    then have "length p + i \<le> k" "k \<le> length p + j" using mat_le by blast+
    then obtain k' where "k = length p + k'" "k' \<le> length t"
      using Seq.prems by (metis add_le_cancel_left le_Suc_ex le_add1 order_trans)
    with k Seq show "mat (Seq a b) t i j" by auto
  next
    assume "mat (Seq a b) t i j"
    then obtain k where k: "mat a t i k" "mat b t k j" by auto
    then have "k \<le> length t" using mat_le Seq.prems by blast
    with k Seq have "mat a (p @ t @ q) (length p + i) (length p + k)"
      "mat b (p @ t @ q) (length p + k) (length p + j)" by simp_all
    then show "mat (Seq a b) (p @ t @ q) (length p + i) (length p + j)" by auto
  qed
next
  case (Star a)
  show ?case
  proof
    assume "mat (Star a) (p @ t @ q) (length p + i) (length p + j)"
    then have "(mat a (p @ t @ q))\<^sup>*\<^sup>* (length p + i) (length p + j)" by simp
    moreover have "(mat a (p @ t @ q))\<^sup>*\<^sup>* (length p + i) m \<Longrightarrow>
        \<forall>j'. m = length p + j' \<longrightarrow> j' \<le> length t \<longrightarrow> (mat a t)\<^sup>*\<^sup>* i j'" for m
    proof (induction rule: rtranclp_induct)
      case (step y z)
      show ?case
      proof (intro allI impI)
        fix j'
        assume j': "z = length p + j'" "j' \<le> length t"
        have "length p + i \<le> y" "y \<le> z"
          using star_le [OF step.hyps(1), of "length (p @ t @ q)"] mat_le step.hyps(2) by blast+
        then obtain y' where y: "y = length p + y'" "y' \<le> j'"
          using j'(1) by (metis add_le_cancel_left le_Suc_ex le_add1 order_trans)
        with j' step Star.IH [of y' j'] show "(mat a t)\<^sup>*\<^sup>* i j'"
          by (auto intro: rtranclp.rtrancl_into_rtrancl)
      qed
    qed simp
    ultimately have "(mat a t)\<^sup>*\<^sup>* i j" using Star.prems by blast
    then show "mat (Star a) t i j" by simp
  next
    assume "mat (Star a) t i j"
    then have "(mat a t)\<^sup>*\<^sup>* i j" by simp
    then have "(mat a (p @ t @ q))\<^sup>*\<^sup>* (length p + i) (length p + j) \<and> j \<le> length t"
    proof induction
      case (step y z)
      then have "z \<le> length t" using mat_le by blast
      with step Star.IH [of y z] show ?case by (auto intro: rtranclp.rtrancl_into_rtrancl)
    qed (use Star.prems in simp)
    then show "mat (Star a) (p @ t @ q) (length p + i) (length p + j)" by simp
  qed
next
  case WordB
  then show ?case using at_boundary_inner [OF assms, of i t] by auto
qed auto

text \<open>The runes a match covers, and the first of them.\<close>

primrec all_cls :: "(rune \<Rightarrow> bool) \<Rightarrow> re \<Rightarrow> bool" where
  "all_cls Q Eps \<longleftrightarrow> True"
| "all_cls Q (Cls P) \<longleftrightarrow> (\<forall>x. P x \<longrightarrow> Q x)"
| "all_cls Q (Seq a b) \<longleftrightarrow> all_cls Q a \<and> all_cls Q b"
| "all_cls Q (Alt a b) \<longleftrightarrow> all_cls Q a \<and> all_cls Q b"
| "all_cls Q (Star a) \<longleftrightarrow> all_cls Q a"
| "all_cls Q WordB \<longleftrightarrow> True"

primrec headed :: "(rune \<Rightarrow> bool) \<Rightarrow> re \<Rightarrow> bool" where
  "headed H Eps \<longleftrightarrow> False"
| "headed H (Cls P) \<longleftrightarrow> (\<forall>x. P x \<longrightarrow> H x)"
| "headed H (Seq a b) \<longleftrightarrow> headed H a \<or> (a = WordB \<and> headed H b)"
| "headed H (Alt a b) \<longleftrightarrow> headed H a \<and> headed H b"
| "headed H (Star a) \<longleftrightarrow> False"
| "headed H WordB \<longleftrightarrow> False"

lemma mat_all:
  "mat r s i j \<Longrightarrow> all_cls Q r \<Longrightarrow> i \<le> k \<Longrightarrow> k < j \<Longrightarrow> Q (s ! k)"
proof (induction r arbitrary: i j)
  case (Cls P)
  then show ?case by (auto simp: less_Suc_eq_le)
next
  case (Seq a b)
  then obtain m where m: "mat a s i m" "mat b s m j" by auto
  show ?case
  proof (cases "k < m")
    case True
    with m(1) Seq.IH(1) Seq.prems show ?thesis by simp
  next
    case False
    with m(2) Seq.IH(2) Seq.prems show ?thesis by simp
  qed
next
  case (Star a)
  have "(mat a s)\<^sup>*\<^sup>* i j" using Star.prems(1) by simp
  then show ?case using Star.prems(3,4)
  proof induction
    case (step y z)
    show ?case
    proof (cases "k < y")
      case False
      with step Star show ?thesis by (meson all_cls.simps(5) not_less)
    qed (use step in simp)
  qed simp
qed auto

lemma mat_headed: "mat r s i j \<Longrightarrow> headed H r \<Longrightarrow> i < j \<and> i < length s \<and> H (s ! i)"
proof (induction r arbitrary: i j)
  case (Seq a b)
  then obtain m where m: "mat a s i m" "mat b s m j" by auto
  show ?case
  proof (cases "headed H a")
    case True
    with Seq.IH(1) [OF m(1)] mat_le [OF m(2)] show ?thesis by simp
  next
    case False
    then have "a = WordB" "headed H b" using Seq.prems(2) by auto
    with m Seq.IH(2) show ?thesis by auto
  qed
qed auto

text \<open>A match that cannot begin in a prefix begins after it.\<close>

lemma match_skip:
  assumes "list_all (\<lambda>x. \<not> H x \<and> \<not> word_rune x) p" "headed H r"
  shows "match_runes r (p @ s) \<longleftrightarrow> match_runes r s"
proof -
  have inn: "inner p []" using assms(1) by (cases p rule: rev_cases) (auto simp: inner_def)
  show ?thesis
  proof
    assume "match_runes r (p @ s)"
    then obtain i j where ij: "i \<le> length (p @ s)" "mat r (p @ s) i j" unfolding match_runes_iff by blast
    from mat_headed [OF ij(2) assms(2)] have "H ((p @ s) ! i)" by simp
    have "\<not> i < length p"
    proof
      assume "i < length p"
      then have "(p @ s) ! i \<in> set p" by (simp add: nth_append)
      with \<open>H ((p @ s) ! i)\<close> assms(1) show False by (auto simp: list_all_iff)
    qed
    then obtain i' where i': "i = length p + i'" by (metis le_Suc_ex not_less)
    have "i \<le> j" "j \<le> length (p @ s)" using mat_le [OF ij(2)] ij(1) by simp_all
    then obtain j' where j': "j = length p + j'" using i' by (metis le_add1 le_Suc_ex order_trans)
    have "mat r (p @ s @ []) (length p + i') (length p + j')" using ij(2) i' j' by simp
    then have "mat r s i' j'"
      using mat_inner [OF inn, of i' s j' r] ij(1) \<open>j \<le> length (p @ s)\<close> i' j' by simp
    then show "match_runes r s" unfolding match_runes_iff using ij(1) i' by auto
  next
    assume "match_runes r s"
    then obtain i j where ij: "i \<le> length s" "mat r s i j" unfolding match_runes_iff by blast
    then have "mat r (p @ s @ []) (length p + i) (length p + j)"
      using mat_inner [OF inn, of i s j r] mat_le [OF ij(2)] by simp
    then show "match_runes r (p @ s)" unfolding match_runes_iff using ij(1)
      by (intro exI [of _ "length p + i"] exI [of _ "length p + j"]) simp
  qed
qed

lemma match_inner:
  assumes "inner p q" "match_runes r t"
  shows "match_runes r (p @ t @ q)"
proof -
  obtain i j where ij: "i \<le> length t" "mat r t i j" using assms(2) unfolding match_runes_iff by blast
  then have "mat r (p @ t @ q) (length p + i) (length p + j)"
    using mat_inner [OF assms(1)] mat_le [OF ij(2)] by simp
  then show ?thesis unfolding match_runes_iff using ij(1)
      by (intro exI [of _ "length p + i"] exI [of _ "length p + j"]) simp
qed


subsection \<open>Sentences\<close>

text \<open>
  A text cut into sentences: text without terminators, its terminators, white space; only the last
  sentence may lack a terminator, and then nothing follows it.
\<close>

definition terminator :: "rune \<Rightarrow> bool" where
  "terminator r \<longleftrightarrow> r = 46 \<or> r = 33 \<or> r = 63"

definition sentence :: "bool \<Rightarrow> rune list \<Rightarrow> bool" where
  "sentence closed s \<longleftrightarrow>
     (\<exists>x t w. s = x @ t @ w \<and> list_all (\<lambda>r. \<not> terminator r) x \<and> list_all terminator t \<and>
        list_all white w \<and> (t = [] \<longrightarrow> w = [] \<and> \<not> closed))"

fun cut :: "rune list list \<Rightarrow> bool" where
  "cut [] \<longleftrightarrow> True"
| "cut (s # ss) \<longleftrightarrow> sentence (ss \<noteq> []) s \<and> cut ss"

lemma sentence_mono: "sentence closed s \<Longrightarrow> (closed' \<longrightarrow> closed) \<Longrightarrow> sentence closed' s"
  unfolding sentence_def by blast

lemma not_word: "terminator r \<Longrightarrow> \<not> word_rune r" "white r \<Longrightarrow> \<not> word_rune r"
  by (auto simp: terminator_def white_def word_rune_def)

lemma cut_filter: "cut ss \<Longrightarrow> cut (filter P ss)"
proof (induction ss)
  case (Cons s ss)
  have "filter P ss \<noteq> [] \<longrightarrow> ss \<noteq> []" by (cases ss) simp_all
  with Cons sentence_mono [of "ss \<noteq> []" s "filter P ss \<noteq> []"] show ?case by simp
qed simp

lemma cut_map_filter: "cut (map f ss) \<Longrightarrow> cut (map f (filter P ss))"
proof (induction ss)
  case (Cons s ss)
  have "filter P ss \<noteq> [] \<longrightarrow> ss \<noteq> []" by (cases ss) simp_all
  with Cons sentence_mono [of "ss \<noteq> []" "f s" "filter P ss \<noteq> []"] show ?case by simp
qed simp

text \<open>
  A match of an expression that begins with neither a terminator nor white space and covers no
  terminator ends before the terminators of its sentence, so it is a match of every text that the
  sentence is cut from.
\<close>

lemma match_sentence:
  assumes "headed (\<lambda>x. \<not> terminator x \<and> \<not> white x) r" "all_cls (\<lambda>x. \<not> terminator x) r"
    and "sentence closed s" "match_runes r s" "p = [] \<or> \<not> word_rune (last p)" "\<not> closed \<longrightarrow> q = []"
  shows "match_runes r (p @ s @ q)"
proof -
  obtain x t w where s: "s = x @ t @ w" and t: "list_all terminator t" and w: "list_all white w"
    and tw: "t = [] \<longrightarrow> w = [] \<and> \<not> closed"
    using assms(3) by (auto simp: sentence_def)
  obtain a b where m: "mat r s a b" using assms(4) unfolding match_runes_iff by blast
  note h = mat_headed [OF m assms(1)]
  have ax: "a < length x"
  proof (rule ccontr)
    assume n: "\<not> a < length x"
    have "a < length x + length (t @ w)" using h s by simp
    then have "a - length x < length (t @ w)" using n by linarith
    moreover have "s ! a = (t @ w) ! (a - length x)" unfolding s using n by (simp add: nth_append)
    ultimately have "s ! a \<in> set (t @ w)" by (metis nth_mem)
    then show False using h t w by (auto simp: list_all_iff)
  qed
  have bx: "b \<le> length x"
  proof (rule ccontr)
    assume n: "\<not> b \<le> length x"
    show False
    proof (cases "t = []")
      case True
      then show False using n mat_le [OF m] h tw s by simp
    next
      case False
      have "\<not> terminator (s ! length x)"
        using mat_all [OF m assms(2), of "length x"] ax n by simp
      moreover have "s ! length x = hd t" using False s by (cases t) (simp_all add: nth_append)
      moreover have "terminator (hd t)" using False t by (cases t) auto
      ultimately show False by simp
    qed
  qed
  have q: "inner [] (t @ w)" "inner p (t @ w @ q)"
    using assms(5,6) tw t not_word(1) by (cases t; auto simp: inner_def)+
  have "mat r x a b" using mat_inner [OF q(1), of a x b r] ax bx m s by simp
  then have "match_runes r x" unfolding match_runes_iff using ax by (intro exI [of _ a] exI [of _ b]) simp
  from match_inner [OF q(2) this] s show ?thesis by simp
qed

text \<open>
  An expression that begins with neither a terminator nor white space and covers no terminator
  matches a cut text only inside one of its sentences.
\<close>

lemma match_cut:
  assumes "headed (\<lambda>x. \<not> terminator x \<and> \<not> white x) r" "all_cls (\<lambda>x. \<not> terminator x) r"
  shows "cut ss \<Longrightarrow> p = [] \<or> \<not> word_rune (last p) \<Longrightarrow> mat r (p @ concat ss) (length p + a) (length p + b)
    \<Longrightarrow> \<exists>s \<in> set ss. match_runes r s"
proof (induction ss arbitrary: p a b)
  case Nil
  from mat_headed [OF Nil.prems(3) assms(1)] show ?case by simp
next
  case (Cons s ss)
  obtain x t w where s: "s = x @ t @ w" and x: "list_all (\<lambda>r. \<not> terminator r) x"
    and t: "list_all terminator t" and w: "list_all white w" and last: "t = [] \<longrightarrow> w = [] \<and> ss = []"
    and ss: "cut ss"
    using Cons.prems(1) by (auto simp: sentence_def)
  let ?u = "p @ concat (s # ss)"
  from mat_headed [OF Cons.prems(3) assms(1)] have a: "a < b" "length p + a < length ?u"
    "\<not> terminator (?u ! (length p + a)) \<and> \<not> white (?u ! (length p + a))" by simp_all
  show ?case
  proof (cases "a < length s")
    case False
    then obtain a' where a': "a = length s + a'" by (metis le_Suc_ex not_less)
    moreover obtain b' where b': "b = length s + b'" using False a(1) by (metis le_Suc_ex less_imp_le not_less order_trans)
    have "ss \<noteq> []" using a(2) False by auto
    then have tn: "t \<noteq> []" using last by blast
    then have ne: "t @ w \<noteq> []" by simp
    have "last (t @ w) \<in> set (t @ w)" by (rule last_in_set [OF ne])
    then have "\<not> word_rune (last (t @ w))" using t w not_word by (auto simp: list_all_iff)
    moreover have "last (p @ s) = last (t @ w)" using ne s by simp
    ultimately have nw: "\<not> word_rune (last (p @ s))" by simp
    have "mat r ((p @ s) @ concat ss) (length (p @ s) + a') (length (p @ s) + b')"
      using Cons.prems(3) a' b' by (simp add: add.assoc)
    from Cons.IH [OF ss _ this] nw show ?thesis by auto
  next
    case True
    have at: "?u ! (length p + a) = s ! a" using True by (simp add: nth_append)
    have ax: "a < length x"
    proof (rule ccontr)
      assume "\<not> a < length x"
      then have "s ! a = (t @ w) ! (a - length x)" "a - length x < length (t @ w)"
        using True s by (simp_all add: nth_append)
      then have "s ! a \<in> set (t @ w)" by (metis nth_mem)
      then have "terminator (s ! a) \<or> white (s ! a)" using t w by (auto simp: list_all_iff)
      with a(3) at show False by simp
    qed
    have bx: "b \<le> length x"
    proof (rule ccontr)
      assume n: "\<not> b \<le> length x"
      show False
      proof (cases "t = []")
        case True
        then have "?u = p @ x" using last s by simp
        moreover have "length p + b \<le> length ?u" using mat_le [OF Cons.prems(3)] a(2) by simp
        ultimately show False using n by simp
      next
        case False
        have "\<not> terminator (?u ! (length p + length x))"
          using mat_all [OF Cons.prems(3) assms(2), of "length p + length x"] ax n by simp
        moreover have "?u ! (length p + length x) = hd t"
          using False s by (cases t) (simp_all add: nth_append)
        moreover have "terminator (hd t)" using False t by (cases t) auto
        ultimately show False by simp
      qed
    qed
    have q: "inner p (t @ w @ concat ss)" "inner [] (t @ w)"
      using Cons.prems(2) last t not_word(1) by (cases t; auto simp: inner_def)+
    have "mat r (p @ x @ (t @ w @ concat ss)) (length p + a) (length p + b)"
      using Cons.prems(3) s by simp
    then have "mat r x a b" using mat_inner [OF q(1), of a x b r] ax bx by simp
    then have "match_runes r x" unfolding match_runes_iff using ax by (intro exI [of _ a] exI [of _ b]) simp
    from match_inner [OF q(2) this] s show ?thesis by simp
  qed
qed

end
