(* ===== verification/Ai_Guard.thy ===== *)
theory Ai_Guard
  imports Go_Regexp
begin

text \<open>
  \<open>internal/aiclient/guard.go\<close>: the deterministic checks on what a model wrote. A text is cut into
  sentences as the expression \<open>sentenceSplit\<close> finds them, and sentences that state another severity
  or a change of status are dropped. The lemmas lift the check of each sentence to the text that
  is put together from the sentences that are kept.
\<close>

subsection \<open>Sentences\<close>

definition term_char :: "char \<Rightarrow> bool" where
  "term_char c \<longleftrightarrow> terminator (byte c)"

definition white_char :: "char \<Rightarrow> bool" where
  "white_char c \<longleftrightarrow> white (byte c)"

text \<open>
  \<open>sentenceSplit.FindAllString(s, -1)\<close>. The three repetitions are greedy and none can do better by
  giving back; a terminator that no sentence precedes is skipped. The classes treat a byte beyond
  ASCII like the rune it is part of, so the cut is made on bytes.
\<close>

function sentences :: "string \<Rightarrow> string list" where
  "sentences s =
     (let s = dropWhile term_char s
      in if s = [] then []
         else
           let x = takeWhile (\<lambda>c. \<not> term_char c) s;
               r = dropWhile (\<lambda>c. \<not> term_char c) s;
               t = takeWhile term_char r;
               r = dropWhile term_char r;
               w = takeWhile white_char r;
               r = dropWhile white_char r
           in (x @ t @ w) # sentences r)"
  by pat_completeness auto
termination
proof (relation "measure length", goal_cases)
  case (2 s s' x r t r' w r'')
  have s': "s' \<noteq> []" "\<not> term_char (hd s')"
    using 2(1,2) hd_dropWhile [of term_char s] by auto
  then obtain c s'' where c: "s' = c # s''" "\<not> term_char c" by (cases s') auto
  have "r = dropWhile (\<lambda>c. \<not> term_char c) s'" "r' = dropWhile term_char r"
    "r'' = dropWhile white_char r'" by (fact 2)+
  then have "length r'' \<le> length r'" "length r' \<le> length r" "length r \<le> length s''"
    using c by (simp_all add: length_dropWhile_le)
  moreover have "length s' \<le> length s" using 2(1) by (simp add: length_dropWhile_le)
  ultimately show ?case using c by simp
qed simp

declare sentences.simps [simp del]

subsection \<open>Severity\<close>

definition severityWords :: "string list" where
  "severityWords =
     [''critical'', ''high'', ''medium'', ''moderate'', ''low'', ''info'', ''informational'']"

definition same_severity :: "string \<Rightarrow> string list" where
  "same_severity engine =
     (if engine = ''info'' \<or> engine = ''informational'' then [engine, ''info'', ''informational'']
      else if engine = ''medium'' \<or> engine = ''moderate'' then [engine, ''medium'', ''moderate'']
      else [engine])"

definition words_re :: "string list \<Rightarrow> re" where
  "words_re ws = alts (map lit ws)"

definition conflict_re :: "string \<Rightarrow> re" where
  "conflict_re engine =
     (let alt = words_re (filter (\<lambda>w. w \<notin> set (same_severity engine)) severityWords);
          kinds = words_re [''severity'', ''risk'', ''priority'']
      in alts
        [seqs [WordB, alt, plus_re (Cls (\<lambda>r. white r \<or> r = 45)), kinds, WordB],
         seqs [WordB, kinds, plus_re space,
           opt (alts [lit ''is'', lit ''of'', seqs [lit ''level'', plus_re space, lit ''is''],
             seqs [lit ''rating'', plus_re space, lit ''is'']]),
           Star space, alt, WordB]])"

definition dropConflictingSeverity :: "string \<Rightarrow> string \<Rightarrow> string" where
  "dropConflictingSeverity text engineSeverity =
     (let engine = map_runes lower_rune (trim_space engineSeverity)
      in if engine = [] \<or> text = [] then text
         else
           let kept = filter (\<lambda>s. \<not> MatchString (conflict_re engine) s) (sentences text);
               out = trim_space (concat kept)
           in if out = [] then text else out)"

subsection \<open>Status\<close>

definition statusClaim :: re where
  "statusClaim = alts
     [seqs [WordB,
        words_re [''has been'', ''have been'', ''was'', ''were'', ''is now'', ''are now'', ''will be'', ''been''],
        plus_re space,
        words_re [''marked'', ''set'', ''adjusted'', ''changed'', ''lowered'', ''raised'', ''updated'',
          ''reclassified'', ''downgraded'', ''upgraded'', ''closed'', ''resolved'', ''fixed''],
        WordB],
      seqs [WordB, words_re [''marked'', ''flagged'', ''classified''], plus_re space,
        words_re [''as'', ''to''], plus_re space,
        words_re [''resolved'', ''fixed'', ''closed'', ''safe'', ''not a risk'', ''false positive''], WordB],
      seqs [WordB, lit ''severity'', plus_re space, opt (words_re [''has been'', ''was'', ''is now'']),
        Star space, words_re [''adjusted'', ''changed'', ''lowered'', ''raised'', ''set''], WordB]]"

definition dropStatusClaims :: "string \<Rightarrow> string" where
  "dropStatusClaims text =
     (if text = [] then text
      else trim_space (concat (filter (\<lambda>s. \<not> MatchString statusClaim s) (sentences text))))"

subsection \<open>The guards together\<close>

record explanation =
  exExplanationText :: string
  exWhatToVerify :: "string list"
  exDisclaimer :: string

definition minGroundedExplanation :: nat where
  "minGroundedExplanation = 20"

text \<open>The explanation as the guards left it, and whether it was rejected.\<close>

definition applyOutputGuards :: "explanation \<Rightarrow> string \<Rightarrow> explanation \<times> bool" where
  "applyOutputGuards expl engineSeverity =
     (let text = (if engineSeverity \<noteq> []
                  then dropConflictingSeverity (exExplanationText expl) engineSeverity
                  else exExplanationText expl);
          text = dropStatusClaims text;
          verify = filter (\<lambda>v. trim_space v \<noteq> []) (map dropStatusClaims (exWhatToVerify expl));
          expl = expl\<lparr>exExplanationText := text, exWhatToVerify := verify\<rparr>
      in (expl, length (runes (trim_space text)) < minGroundedExplanation))"

subsection \<open>Lemmas\<close>

lemma terminator_low: "terminator r \<Longrightarrow> r < 128" "white r \<Longrightarrow> r < 128"
  by (auto simp: terminator_def white_def)

lemma set_takeWhile_all: "list_all P (takeWhile P xs)"
  by (auto simp: list_all_iff dest: set_takeWhileD)

text \<open>The pieces of the runes of a sentence.\<close>

lemma sentence_runes:
  assumes "list_all (\<lambda>c. \<not> term_char c) x" "list_all term_char t" "list_all white_char w"
    and "t = [] \<longrightarrow> w = [] \<and> \<not> closed"
  shows "sentence closed (runes (x @ t @ w))"
proof -
  have lows: "\<forall>c \<in> set t. byte c < 128" "\<forall>c \<in> set w. byte c < 128"
    using assms(2,3) terminator_low by (auto simp: list_all_iff term_char_def white_char_def)
  have "t @ w = [] \<or> rune_start (hd (t @ w))"
    using lows assms(4) by (cases t) (auto simp: rune_start_iff)
  then have "runes (x @ t @ w) = runes x @ runes (t @ w)" by (rule runes_append)
  moreover have "\<forall>c \<in> set (t @ w). byte c < 128" using lows by auto
  then have "runes (t @ w) = map byte t @ map byte w" by (simp only: runes_ascii map_append)
  ultimately have r: "runes (x @ t @ w) = runes x @ map byte t @ map byte w" by simp
  have "list_all (\<lambda>r. \<not> terminator r) (runes x)"
  proof (unfold list_all_iff, intro ballI notI)
    fix r
    assume "r \<in> set (runes x)" "terminator r"
    then obtain c where "c \<in> set x" "byte c = r" using runes_low terminator_low(1) by blast
    then show False using assms(1) \<open>terminator r\<close> by (auto simp: list_all_iff term_char_def)
  qed
  moreover have "list_all terminator (map byte t)" "list_all white (map byte w)"
    using assms(2,3) by (auto simp: list_all_iff term_char_def white_char_def)
  moreover have "map byte t = [] \<longrightarrow> map byte w = [] \<and> \<not> closed" using assms(4) by simp
  ultimately show ?thesis unfolding sentence_def r by blast
qed

lemma sentences_cut: "cut (map runes (sentences s))"
proof (induction s rule: sentences.induct)
  case (1 s)
  define s' x r t r' w r'' where defs: "s' = dropWhile term_char s" "x = takeWhile (\<lambda>c. \<not> term_char c) s'"
    "r = dropWhile (\<lambda>c. \<not> term_char c) s'" "t = takeWhile term_char r" "r' = dropWhile term_char r"
    "w = takeWhile white_char r'" "r'' = dropWhile white_char r'"
  show ?case
  proof (cases "s' = []")
    case True
    then have "sentences s = []" by (subst sentences.simps) (simp add: defs)
    then show ?thesis by simp
  next
    case False
    then have ss: "sentences s = (x @ t @ w) # sentences r''"
      by (subst sentences.simps) (simp add: defs Let_def)
    have ih: "cut (map runes (sentences r''))"
      using "1.IH" [OF defs(1) False defs(2-7)] .
    have "t = [] \<longrightarrow> r = []"
      using hd_dropWhile [of "\<lambda>c. \<not> term_char c" s'] unfolding defs(3,4) by (cases "dropWhile (\<lambda>c. \<not> term_char c) s'") auto
    then have "t = [] \<longrightarrow> w = [] \<and> map runes (sentences r'') = []"
      unfolding defs(5-7) by (auto simp: sentences.simps)
    then have "sentence (map runes (sentences r'') \<noteq> []) (runes (x @ t @ w))"
      by (intro sentence_runes) (auto simp: defs set_takeWhile_all)
    with ih ss show ?thesis by simp
  qed
qed

text \<open>Every sentence but the last ends with an ASCII byte, so runes do not run across sentences.\<close>

fun closed :: "string list \<Rightarrow> bool" where
  "closed [] \<longleftrightarrow> True"
| "closed (s # ss) \<longleftrightarrow> (ss = [] \<or> s = [] \<or> byte (last s) < 128) \<and> closed ss"

lemma closed_filter: "closed ss \<Longrightarrow> closed (filter P ss)"
  by (induction ss) auto

lemma closed_runes: "closed ss \<Longrightarrow> runes (concat ss) = concat (map runes ss)"
proof (induction ss)
  case (Cons s ss)
  show ?case
  proof (cases "ss = []")
    case False
    with Cons have "s = [] \<or> byte (last s) < 128" by simp
    then have "runes (s @ concat ss) = runes s @ runes (concat ss)" by (rule runes_append_ascii)
    with Cons show ?thesis by simp
  qed simp
qed simp

lemma sentences_closed: "closed (sentences s)"
proof (induction s rule: sentences.induct)
  case (1 s)
  define s' x r t r' w r'' where defs: "s' = dropWhile term_char s" "x = takeWhile (\<lambda>c. \<not> term_char c) s'"
    "r = dropWhile (\<lambda>c. \<not> term_char c) s'" "t = takeWhile term_char r" "r' = dropWhile term_char r"
    "w = takeWhile white_char r'" "r'' = dropWhile white_char r'"
  show ?case
  proof (cases "s' = []")
    case True
    then have "sentences s = []" by (subst sentences.simps) (simp add: defs)
    then show ?thesis by simp
  next
    case False
    then have ss: "sentences s = (x @ t @ w) # sentences r''"
      by (subst sentences.simps) (simp add: defs Let_def)
    have ih: "closed (sentences r'')" using "1.IH" [OF defs(1) False defs(2-7)] .
    have low: "\<forall>c \<in> set (t @ w). byte c < 128"
      using terminator_low
      by (auto simp: defs term_char_def white_char_def dest!: set_takeWhileD)
    show ?thesis
    proof (cases "t @ w = []")
      case True
      then have "r = []"
        using hd_dropWhile [of "\<lambda>c. \<not> term_char c" s'] unfolding defs(3,4)
        by (cases "dropWhile (\<lambda>c. \<not> term_char c) s'") auto
      then have "sentences r'' = []" unfolding defs(5,7) by (simp add: sentences.simps)
      with ss show ?thesis by simp
    next
      case False
      then have "last (x @ t @ w) \<in> set (t @ w)" by (metis last_appendR last_in_set)
      with low ss ih show ?thesis by auto
    qed
  qed
qed

text \<open>
  A text put together from sentences none of which matches does not match, for an expression that
  begins with neither a terminator nor white space and covers no terminator.
\<close>

lemma kept_quiet:
  assumes "headed (\<lambda>x. \<not> terminator x \<and> \<not> white x) r" "all_cls (\<lambda>x. \<not> terminator x) r"
    and "\<forall>s \<in> set (sentences text). P s \<longrightarrow> \<not> MatchString r s"
  shows "\<not> MatchString r (trim_space (concat (filter P (sentences text))))"
proof
  let ?kept = "filter P (sentences text)"
  assume m: "MatchString r (trim_space (concat ?kept))"
  obtain p q where pq: "runes (concat ?kept) = p @ runes (trim_space (concat ?kept)) @ q"
    "list_all is_space p" "list_all is_space q"
    using runes_trim_space by blast
  have sp: "is_space x \<Longrightarrow> \<not> word_rune x" for x by (auto simp: is_space_def word_rune_def)
  have "inner p q"
    using pq(2,3) sp by (cases p rule: rev_cases; cases q) (auto simp: inner_def)
  from match_inner [OF this] m pq(1) have "match_runes r (concat (map runes ?kept))"
    using closed_runes [OF closed_filter [OF sentences_closed]] by (simp add: MatchString_def)
  then obtain i j where ij: "mat r (concat (map runes ?kept)) i j"
    unfolding match_runes_iff by auto
  have "\<exists>s \<in> set (map runes ?kept). match_runes r s"
    by (rule match_cut [OF assms(1,2) cut_map_filter [OF sentences_cut], where p = "[]" and a = i and b = j])
      (simp_all add: ij)
  then show False using assms(3) by (auto simp: MatchString_def)
qed

lemma kept_no_match:
  assumes "headed (\<lambda>x. \<not> terminator x \<and> \<not> white x) r" "all_cls (\<lambda>x. \<not> terminator x) r"
  shows "\<not> MatchString r (trim_space (concat (filter (\<lambda>s. \<not> MatchString r s) (sentences text))))"
  by (rule kept_quiet [OF assms]) simp

text \<open>A sentence of a text that does not match does not match either.\<close>

lemma sentence_match:
  assumes "headed (\<lambda>x. \<not> terminator x \<and> \<not> white x) r" "all_cls (\<lambda>x. \<not> terminator x) r"
  shows "s \<in> set (sentences str) \<Longrightarrow> MatchString r s \<Longrightarrow> MatchString r str"
proof (induction str rule: sentences.induct)
  case (1 str)
  define g s' x u t v w z where defs: "g = takeWhile term_char str" "s' = dropWhile term_char str"
    "x = takeWhile (\<lambda>c. \<not> term_char c) s'" "u = dropWhile (\<lambda>c. \<not> term_char c) s'" "t = takeWhile term_char u"
    "v = dropWhile term_char u" "w = takeWhile white_char v" "z = dropWhile white_char v"
  have ne: "s' \<noteq> []"
    using "1.prems"(1) by (subst (asm) sentences.simps) (auto simp: defs(2) Let_def split: if_splits)
  have ss: "sentences str = (x @ t @ w) # sentences z"
    by (subst sentences.simps) (use ne in \<open>simp add: defs Let_def\<close>)
  have str: "str = g @ (x @ t @ w) @ z" by (simp add: defs)
  have low: "\<forall>c \<in> set g. byte c < 128" "\<forall>c \<in> set (t @ w). byte c < 128"
    using terminator_low by (auto simp: defs term_char_def white_char_def dest!: set_takeWhileD)
  have "t = [] \<longrightarrow> u = []"
    using hd_dropWhile [of "\<lambda>c. \<not> term_char c" s'] unfolding defs(4,5)
    by (cases "dropWhile (\<lambda>c. \<not> term_char c) s'") auto
  then have tz: "t = [] \<longrightarrow> w = [] \<and> z = []" unfolding defs(6-8) by auto
  have tail: "z = [] \<or> byte (last (x @ t @ w)) < 128 \<and> \<not> word_rune (last (runes (x @ t @ w)))"
  proof (cases "t = []")
    case False
    then have l: "last (x @ t @ w) \<in> set (t @ w)" by (metis append_is_Nil_conv last_appendR last_in_set)
    have "runes (x @ t @ w) = runes x @ map byte (t @ w)"
    proof -
      have "rune_start (hd (t @ w))" using low(2) False by (cases t) (auto simp: rune_start_iff)
      then have "runes (x @ t @ w) = runes x @ runes (t @ w)" by (intro runes_append) simp
      then show ?thesis by (simp only: runes_ascii [OF low(2)])
    qed
    then have "last (runes (x @ t @ w)) = last (map byte (t @ w))" using False by simp
    also have "\<dots> = byte (last (t @ w))" using False by (intro last_map) simp
    finally have "last (runes (x @ t @ w)) = byte (last (t @ w))" .
    moreover have "last (t @ w) \<in> set (t @ w)" using False by (intro last_in_set) simp
    then have "terminator (byte (last (t @ w))) \<or> white (byte (last (t @ w)))"
      by (auto simp: defs term_char_def white_char_def dest!: set_takeWhileD)
    ultimately show ?thesis using l low(2) not_word by auto
  qed (use tz in simp)
  have rs: "runes str = map byte g @ runes (x @ t @ w) @ runes z"
  proof -
    have "runes str = runes g @ runes ((x @ t @ w) @ z)"
      unfolding str by (rule runes_append_ascii) (use low(1) in \<open>cases "g = []"; simp\<close>)
    moreover have "runes ((x @ t @ w) @ z) = runes (x @ t @ w) @ runes z"
    proof (cases "z = []")
      case False
      then show ?thesis using tail by (intro runes_append_ascii) blast
    qed simp
    ultimately show ?thesis by (simp only: runes_ascii [OF low(1)])
  qed
  have gap: "map byte g = [] \<or> \<not> word_rune (last (map byte g))"
  proof (cases "g = []")
    case False
    then have "terminator (last (map byte g))"
      using set_takeWhileD [OF last_in_set [OF False, unfolded defs(1)]] by (simp add: last_map defs(1) term_char_def)
    then show ?thesis using not_word(1) by blast
  qed simp
  show ?case
  proof (cases "s \<in> set (sentences z)")
    case True
    have zm: "match_runes r (runes z)"
      using "1.IH" [OF defs(2) ne defs(3-8) True "1.prems"(2)] by (simp add: MatchString_def)
    have "z \<noteq> []" using True by (auto simp: sentences.simps)
    then have "inner (map byte g @ runes (x @ t @ w)) []"
      using tail gap by (cases "runes (x @ t @ w) = []") (auto simp: inner_def)
    from match_inner [OF this zm] show ?thesis by (simp add: MatchString_def rs)
  next
    case False
    then have "s = x @ t @ w" using "1.prems"(1) ss by simp
    then have m: "match_runes r (runes (x @ t @ w))" using "1.prems"(2) by (simp add: MatchString_def)
    have "sentence (z \<noteq> []) (runes (x @ t @ w))"
      using tz by (intro sentence_runes) (auto simp: defs set_takeWhile_all)
    from match_sentence [OF assms this m gap, of "runes z"] show ?thesis by (simp add: MatchString_def rs)
  qed
qed

subsection \<open>The expressions\<close>

abbreviation inside :: "rune \<Rightarrow> bool" where "inside x \<equiv> \<not> terminator x"
abbreviation begins :: "rune \<Rightarrow> bool" where "begins x \<equiv> \<not> terminator x \<and> \<not> white x"

definition plain :: "string \<Rightarrow> bool" where
  "plain s \<longleftrightarrow> list_all (\<lambda>c. inside (byte c)) s \<and> s \<noteq> [] \<and> begins (byte (hd s))"

lemma fold_case_inside: "inside c \<Longrightarrow> fold_case c r \<Longrightarrow> inside r"
  by (auto simp: fold_case_def terminator_def)

lemma fold_case_begins: "begins c \<Longrightarrow> fold_case c r \<Longrightarrow> begins r"
  by (auto simp: fold_case_def terminator_def white_def)

lemma lit_simps:
  "lit [] = Eps" "lit (c # s) = Seq (Cls (fold_case (byte c))) (lit s)"
  by (simp_all add: lit_def)

lemma all_cls_lit [simp]: "plain s \<Longrightarrow> all_cls inside (lit s)"
proof -
  have "list_all (\<lambda>c. inside (byte c)) s \<Longrightarrow> all_cls inside (lit s)"
    by (induction s) (auto simp: lit_simps dest: fold_case_inside)
  then show "plain s \<Longrightarrow> ?thesis" by (simp add: plain_def)
qed

lemma headed_lit [simp]:
  assumes "plain s"
  shows "headed begins (lit s)"
proof (cases s)
  case (Cons c cs)
  then have "begins (byte c)" using assms by (simp add: plain_def)
  then have "headed begins (Cls (fold_case (byte c)))" unfolding headed.simps using fold_case_begins by blast
  then show ?thesis unfolding Cons lit_simps headed.simps(3) ..
qed (use assms in \<open>simp add: plain_def\<close>)

lemma alts_props [simp]:
  "all_cls Q (alts rs) \<longleftrightarrow> (\<forall>r \<in> set rs. all_cls Q r)"
  "headed H (alts rs) \<longleftrightarrow> (\<forall>r \<in> set rs. headed H r)"
  by (induction rs) (simp_all add: alts_def)

lemma seqs_props [simp]:
  "all_cls Q (seqs rs) \<longleftrightarrow> (\<forall>r \<in> set rs. all_cls Q r)"
  "headed H (seqs (WordB # r # rs)) \<longleftrightarrow> headed H r \<or> (r = WordB \<and> headed H (seqs rs))"
  by (induction rs) (auto simp: seqs_def)

lemma words_props [simp]:
  "list_all plain ws \<Longrightarrow> all_cls inside (words_re ws)"
  "list_all plain ws \<Longrightarrow> headed begins (words_re ws)"
  by (auto simp: words_re_def list_all_iff)

lemma spaces_inside [simp]:
  "all_cls inside space" "all_cls inside (plus_re space)" "all_cls inside (Star space)"
  "all_cls inside (plus_re (Cls (\<lambda>r. white r \<or> r = 45)))" "all_cls inside (opt r) \<longleftrightarrow> all_cls inside r"
  by (auto simp: plus_re_def space_def opt_def white_def terminator_def)

lemmas plain_eval = plain_def terminator_def white_def byte_def

lemma severityWords_plain: "list_all plain severityWords"
  by (simp add: severityWords_def plain_eval)

lemma kinds_plain: "list_all plain [''severity'', ''risk'', ''priority'']"
  by (simp add: plain_eval)

lemma joins_plain: "plain ''is''" "plain ''of''" "plain ''level''" "plain ''rating''" "plain ''severity''"
  by (simp_all add: plain_eval)

lemma conflict_props: "headed begins (conflict_re engine)" "all_cls inside (conflict_re engine)"
proof -
  have "list_all plain (filter P severityWords)" for P
    using severityWords_plain by (auto simp: list_all_iff)
  then show "headed begins (conflict_re engine)" "all_cls inside (conflict_re engine)"
    using kinds_plain joins_plain by (simp_all add: conflict_re_def Let_def del: filter.simps)
qed

lemma statusClaim_props: "headed begins statusClaim" "all_cls inside statusClaim"
proof -
  have w: "list_all plain [''has been'', ''have been'', ''was'', ''were'', ''is now'', ''are now'', ''will be'', ''been'']"
    "list_all plain [''marked'', ''set'', ''adjusted'', ''changed'', ''lowered'', ''raised'', ''updated'',
       ''reclassified'', ''downgraded'', ''upgraded'', ''closed'', ''resolved'', ''fixed'']"
    "list_all plain [''marked'', ''flagged'', ''classified'']" "list_all plain [''as'', ''to'']"
    "list_all plain [''resolved'', ''fixed'', ''closed'', ''safe'', ''not a risk'', ''false positive'']"
    "list_all plain [''has been'', ''was'', ''is now'']"
    "list_all plain [''adjusted'', ''changed'', ''lowered'', ''raised'', ''set'']"
    by (simp_all add: plain_eval)
  show "headed begins statusClaim"
    unfolding statusClaim_def using w joins_plain(5) by simp
  show "all_cls inside statusClaim"
    unfolding statusClaim_def using w joins_plain(5) by simp
qed

lemma MatchString_Nil: "headed H r \<Longrightarrow> \<not> MatchString r []"
  using mat_headed [of r "[]"] by (fastforce simp: MatchString_def match_runes_iff)

lemma dropStatusClaims_clean: "\<not> MatchString statusClaim (dropStatusClaims text)"
  using kept_no_match [OF statusClaim_props] MatchString_Nil [OF statusClaim_props(1)]
  by (simp add: dropStatusClaims_def)

lemma dropConflictingSeverity_clean:
  fixes sev :: string
  defines "engine \<equiv> map_runes lower_rune (trim_space sev)"
  assumes "engine \<noteq> []"
  shows "\<not> MatchString (conflict_re engine) (dropConflictingSeverity text sev) \<or>
    dropConflictingSeverity text sev = text \<and>
      trim_space (concat (filter (\<lambda>s. \<not> MatchString (conflict_re engine) s) (sentences text))) = []"
  using kept_no_match [OF conflict_props] MatchString_Nil [OF conflict_props(1)] assms
  by (auto simp: dropConflictingSeverity_def Let_def)

text \<open>
  What the severity guard leaves survives the status guard: the text either states no other severity,
  or it is what is left of an answer in which no sentence was free of one.
\<close>

lemma guarded_severity:
  fixes sev :: string
  defines "engine \<equiv> map_runes lower_rune (trim_space sev)"
  assumes "engine \<noteq> []"
  shows "\<not> MatchString (conflict_re engine) (dropStatusClaims (dropConflictingSeverity text sev)) \<or>
    trim_space (concat (filter (\<lambda>s. \<not> MatchString (conflict_re engine) s) (sentences text))) = []"
proof (cases "MatchString (conflict_re engine) (dropConflictingSeverity text sev)")
  case False
  then have "\<not> MatchString (conflict_re engine) s" if "s \<in> set (sentences (dropConflictingSeverity text sev))" for s
    using sentence_match [OF conflict_props that] by blast
  then have "\<not> MatchString (conflict_re engine) (dropStatusClaims (dropConflictingSeverity text sev))"
    using kept_quiet [OF conflict_props] MatchString_Nil [OF conflict_props(1)] by (simp add: dropStatusClaims_def)
  then show ?thesis ..
next
  case True
  with dropConflictingSeverity_clean [of sev _] assms show ?thesis by auto
qed

text \<open>
  C11: an explanation that passes the guards claims no change of status: neither its text nor any
  of its points to verify matches the expression for such claims, although the guards only look
  at one sentence at a time; and it has at least twenty characters.
\<close>

theorem guarded_text_claims_no_status:
  assumes "applyOutputGuards expl sev = (expl', False)"
  shows "\<not> MatchString statusClaim (exExplanationText expl') \<and>
    minGroundedExplanation \<le> length (runes (trim_space (exExplanationText expl'))) \<and>
    (\<forall>v \<in> set (exWhatToVerify expl'). \<not> MatchString statusClaim v \<and> trim_space v \<noteq> []) \<and>
    exDisclaimer expl' = exDisclaimer expl"
  using assms dropStatusClaims_clean by (auto simp: applyOutputGuards_def Let_def)

text \<open>
  The severity guard leaves no statement of another severity in a text, except that it returns
  the text unchanged when no other sentence is left.
\<close>

theorem severity_guard:
  assumes "trim_space sev \<noteq> []"
  shows "\<not> MatchString (conflict_re (map_runes lower_rune (trim_space sev))) (dropConflictingSeverity text sev) \<or>
    dropConflictingSeverity text sev = text \<and>
      trim_space (concat (filter (\<lambda>s. \<not> MatchString (conflict_re (map_runes lower_rune (trim_space sev))) s)
        (sentences text))) = []"
proof (rule dropConflictingSeverity_clean)
  have "runes (trim_space sev) \<noteq> []" using assms by (subst runes.simps) simp
  then show "map_runes lower_rune (trim_space sev) \<noteq> []"
    by (cases "runes (trim_space sev)") (simp_all add: map_runes_def)
qed

definition sample_answer :: explanation where
  "sample_answer = \<lparr>exExplanationText = ''Renew it in six days. It was set.'', exWhatToVerify = [],
     exDisclaimer = []\<rparr>"

lemma sample_sentences: "sentences ''Renew it in six days. It was set.'' = [''Renew it in six days. '', ''It was set.'']"
  by code_simp

lemma sample_matches: "\<not> MatchString statusClaim ''Renew it in six days. ''" "MatchString statusClaim ''It was set.''"
  by code_simp+

lemma sample_trim: "trim_space ''Renew it in six days. '' = ''Renew it in six days.''"
proof -
  have "trim_space ''Renew it in six days.'' = ''Renew it in six days.''"
    by (intro trim_space_id) (simp_all add: printable_def byte_def)
  then have "trim_right ''Renew it in six days.'' = ''Renew it in six days.''"
    by (simp add: trim_space_def trim_left_Cons is_space_def byte_def)
  moreover have "trim_right (''Renew it in six days.'' @ [CHR '' '']) = trim_right ''Renew it in six days.''"
    by (subst trim_right_snoc) (simp_all add: is_space_def byte_def)
  ultimately show ?thesis
    by (simp add: trim_space_def trim_left_Cons is_space_def byte_def)
qed

lemma sample_guarded: "applyOutputGuards sample_answer [] =
    (\<lparr>exExplanationText = ''Renew it in six days.'', exWhatToVerify = [], exDisclaimer = []\<rparr>, False)"
proof -
  have d: "dropStatusClaims ''Renew it in six days. It was set.'' = ''Renew it in six days.''"
    by (simp add: dropStatusClaims_def sample_sentences sample_matches sample_trim)
  have t: "trim_space ''Renew it in six days.'' = ''Renew it in six days.''"
    by (intro trim_space_id) (simp_all add: printable_def byte_def)
  show ?thesis
    unfolding applyOutputGuards_def Let_def sample_answer_def
    by (simp add: d t minGroundedExplanation_def) (simp add: byte_def)
qed

theorem guarded_text_claims_no_status_witness:
  "\<exists>expl. applyOutputGuards sample_answer [] = (expl, False) \<and>
     \<not> MatchString statusClaim (exExplanationText expl) \<and>
     exExplanationText expl = ''Renew it in six days.'' \<and> MatchString statusClaim ''It was set.''"
  using guarded_text_claims_no_status [OF sample_guarded] sample_guarded sample_matches(2) by auto

lemma sample_conflicts: "MatchString (conflict_re ''high'') ''Low risk. ''"
    "\<not> MatchString (conflict_re ''high'') ''Renew it.''"
  by code_simp+

lemma sample_sentences2: "sentences ''Low risk. Renew it.'' = [''Low risk. '', ''Renew it.'']"
  by code_simp

lemma sample_lower: "map_runes lower_rune (trim_space ''high'') = ''high''"
proof -
  have "trim_space ''high'' = ''high''" by (intro trim_space_id) (simp_all add: printable_def byte_def)
  moreover have "map_runes lower_rune ''high'' = ''high''"
    by (intro map_runes_ascii_id) (simp add: lower_rune_def byte_def)
  ultimately show ?thesis by simp
qed

theorem severity_guard_witness:
  "dropConflictingSeverity ''Low risk. Renew it.'' ''high'' = ''Renew it.'' \<and>
   \<not> MatchString (conflict_re ''high'') (dropConflictingSeverity ''Low risk. Renew it.'' ''high'')"
proof -
  have t: "trim_space ''high'' \<noteq> []" "trim_space ''Renew it.'' = ''Renew it.''"
    using trim_space_id [of "''high''"] trim_space_id [of "''Renew it.''"]
    by (simp_all add: printable_def byte_def)
  have d: "dropConflictingSeverity ''Low risk. Renew it.'' ''high'' = ''Renew it.''"
    by (simp add: dropConflictingSeverity_def Let_def sample_lower sample_sentences2 sample_conflicts t(2))
  show ?thesis
    using severity_guard [OF t(1), of "''Low risk. Renew it.''"] unfolding sample_lower d by simp
qed

end
