(* ===== verification/Go_Json.thy ===== *)
theory Go_Json
  imports Go_Utf8
begin

text \<open>
  The Go values that travel through an \<open>any\<close> in this program (a finding's evidence map) and
  \<open>json.Marshal\<close> on them: keys sorted bytewise, strings escaped as Go's encoder escapes them
  with HTML escaping on; reading is in \<open>Go_Json_Decode\<close>. \<open>GOther\<close> is any other dynamic type: it holds the value its JSON text
  decodes to, or \<open>None\<close> when \<open>json.Marshal\<close> refuses it. A number of a float type is
  held as the text \<open>strconv\<close> prints for it, which for the three values that are not finite is one
  that JSON has no number for.
\<close>

datatype goval =
    GNil
  | GBool bool
  | GInt int
  | GFloat string
  | GStr string
  | GMap "(string \<times> goval) list"
  | GNilMap
  | GList "goval list"
  | GNilList
  | GStrs "string list"
  | GNilStrs
  | GOther "goval option"

text \<open>A \<open>map[string]any\<close>, which may be nil.\<close>

type_synonym gomap = "(string \<times> goval) list"
type_synonym evidence = "gomap option"

definition hex_digit :: "nat \<Rightarrow> char" where
  "hex_digit n = (if n < 10 then char_of (48 + n) else char_of (87 + n))"

definition backslash :: char where
  "backslash = CHR 0x5C"

text \<open>One ASCII byte of a JSON string, as \<open>appendString\<close> of \<open>encoding/json\<close> writes it.\<close>

definition escape_ascii :: "char \<Rightarrow> string" where
  "escape_ascii c =
     (let b = byte c in
      if b = 92 \<or> b = 34 then [backslash, c]
      else if b = 8 then [backslash, CHR ''b'']
      else if b = 12 then [backslash, CHR ''f'']
      else if b = 10 then [backslash, CHR ''n'']
      else if b = 13 then [backslash, CHR ''r'']
      else if b = 9 then [backslash, CHR ''t'']
      else if b < 32 \<or> b = 60 \<or> b = 62 \<or> b = 38
      then backslash # ''u00'' @ [hex_digit (b div 16), hex_digit (b mod 16)]
      else [c])"

function escape :: "string \<Rightarrow> string" where
  "escape s =
     (if s = [] then []
      else let (r, w) = decode_rune s in
        (if r < 128 then escape_ascii (hd s)
         else if r = RuneError \<and> w = 1 then backslash # ''ufffd''
         else if r = 8232 \<or> r = 8233 then backslash # ''u202'' @ [hex_digit (r mod 16)]
         else take w s) @ escape (drop w s))"
  by pat_completeness auto
termination
proof (relation "measure length")
  fix s :: string and x r w
  assume "s \<noteq> []" "x = decode_rune s" "(r, w) = x"
  with decode_rune_width [of s] show "(drop w s, s) \<in> measure length"
    by (metis diff_less in_measure length_drop length_greater_0_conv less_eq_Suc_le
        One_nat_def snd_conv)
qed simp

declare escape.simps [simp del]

lemma escape_Nil [simp]: "escape [] = []"
  by (simp add: escape.simps)

lemma escape_ascii_Cons [simp]: "byte c < 128 \<Longrightarrow> escape (c # s) = escape_ascii c @ escape s"
  by (subst escape.simps) simp

definition quote :: "string \<Rightarrow> string" where
  "quote s = CHR 0x22 # escape s @ [CHR 0x22]"

fun join :: "string \<Rightarrow> string list \<Rightarrow> string" where
  "join sep [] = []"
| "join sep [x] = x"
| "join sep (x # y # xs) = x @ sep @ join sep (y # xs)"

text \<open>All results of a list of encodings, or the failure of one of them.\<close>

fun all_some :: "'a option list \<Rightarrow> 'a list option" where
  "all_some [] = Some []"
| "all_some (None # _) = None"
| "all_some (Some x # xs) = map_option (Cons x) (all_some xs)"

definition encode_object :: "(string \<times> string option) list \<Rightarrow> string option" where
  "encode_object kvs =
     map_option (\<lambda>es. CHR 0x7B # join '','' es @ [CHR 0x7D])
       (all_some (map (\<lambda>(k, e). map_option (\<lambda>t. quote k @ '':'' @ t) e) (sort_key fst kvs)))"

definition encode_array :: "string option list \<Rightarrow> string option" where
  "encode_array es =
     map_option (\<lambda>ts. CHR 0x5B # join '','' ts @ [CHR 0x5D]) (all_some es)"

definition finite_float :: "string \<Rightarrow> bool" where
  "finite_float t \<longleftrightarrow> t \<noteq> ''NaN'' \<and> t \<noteq> ''+Inf'' \<and> t \<noteq> ''-Inf''"

primrec json_marshal :: "goval \<Rightarrow> string option" where
  "json_marshal GNil = Some ''null''"
| "json_marshal (GBool b) = Some (if b then ''true'' else ''false'')"
| "json_marshal (GInt i) = Some (itoa i)"
| "json_marshal (GFloat t) = (if finite_float t then Some t else None)"
| "json_marshal (GStr s) = Some (quote s)"
| "json_marshal (GMap kvs) = encode_object (map (map_prod id json_marshal) kvs)"
| "json_marshal GNilMap = Some ''null''"
| "json_marshal (GList vs) = encode_array (map json_marshal vs)"
| "json_marshal GNilList = Some ''null''"
| "json_marshal (GStrs ss) = encode_array (map (\<lambda>s. Some (quote s)) ss)"
| "json_marshal GNilStrs = Some ''null''"
| "json_marshal (GOther v) =
     (case map_option json_marshal v of None \<Rightarrow> None | Some r \<Rightarrow> r)"

definition marshal_map :: "evidence \<Rightarrow> string option" where
  "marshal_map ev = (case ev of None \<Rightarrow> Some ''null'' | Some kvs \<Rightarrow> json_marshal (GMap kvs))"

lemma all_some_map [simp]: "all_some (map Some ys) = Some ys"
  by (induction ys) simp_all

lemma all_some_SomeD: "all_some xs = Some ys \<Longrightarrow> xs = map Some ys"
proof (induction xs arbitrary: ys rule: all_some.induct)
  case (3 x xs)
  then show ?case by (cases "all_some xs") auto
qed simp_all

text \<open>
  The text does not depend on the iteration order of a map: the keys are sorted first.
\<close>

lemma encode_object_mset:
  assumes "distinct (map fst kvs)" "mset kvs' = mset kvs"
  shows "encode_object kvs' = encode_object kvs"
proof -
  have "inj_on fst (set kvs')"
    using assms by (metis distinct_map mset_eq_setD)
  with assms(2) have "sort_key fst kvs' = sort_key fst kvs"
    by (rule sort_key_eq_sort_key)
  then show ?thesis by (simp add: encode_object_def)
qed

lemma marshal_map_mset:
  assumes "distinct (map fst kvs)" "mset kvs' = mset kvs"
  shows "marshal_map (Some kvs') = marshal_map (Some kvs)"
proof -
  let ?f = "map_prod id json_marshal"
  have "distinct (map fst (map ?f kvs))"
    using assms(1) by (simp add: map_prod_def split_def comp_def)
  moreover have "mset (map ?f kvs') = mset (map ?f kvs)"
    using assms(2) by simp
  ultimately have "encode_object (map ?f kvs') = encode_object (map ?f kvs)"
    by (rule encode_object_mset)
  then show ?thesis by (simp add: marshal_map_def)
qed

lemma marshal_none [simp]: "marshal_map None = Some ''null''"
  by (simp add: marshal_map_def)

text \<open>Which values \<open>json.Marshal\<close> refuses, and the beginning of its error.\<close>

definition marshal_error :: string where
  "marshal_error = ''json: unsupported value''"

fun unserialisable :: "goval \<Rightarrow> bool" where
  "unserialisable (GFloat t) = (\<not> finite_float t)"
| "unserialisable (GMap kvs) = (\<exists>(k, v) \<in> set kvs. unserialisable v)"
| "unserialisable (GList vs) = (\<exists>v \<in> set vs. unserialisable v)"
| "unserialisable (GOther v) = (case v of None \<Rightarrow> True | Some g \<Rightarrow> unserialisable g)"
| "unserialisable v = False"

lemma all_some_None: "all_some xs = None \<longleftrightarrow> None \<in> set xs"
  by (induction xs rule: all_some.induct) (auto split: option.splits)

lemma encode_object_None: "encode_object kvs = None \<longleftrightarrow> (\<exists>k. (k, None) \<in> set kvs)"
  by (force simp: encode_object_def all_some_None image_iff)

lemma encode_array_None: "encode_array es = None \<longleftrightarrow> None \<in> set es"
  by (simp add: encode_array_def all_some_None)

lemma json_marshal_None: "json_marshal v = None \<longleftrightarrow> unserialisable v"
proof (induction v)
  case (GMap kvs)
  have "(\<exists>k. (k, None) \<in> set (map (map_prod id json_marshal) kvs)) \<longleftrightarrow>
      (\<exists>(k, v) \<in> set kvs. json_marshal v = None)"
    by (force simp: image_iff)
  also have "\<dots> \<longleftrightarrow> (\<exists>(k, v) \<in> set kvs. unserialisable v)"
    using GMap.IH by fastforce
  finally show ?case by (simp add: encode_object_None)
next
  case (GList vs)
  have "None \<in> set (map json_marshal vs) \<longleftrightarrow> (\<exists>v \<in> set vs. json_marshal v = None)"
    by (force simp: image_iff)
  then show ?case using GList.IH by (simp add: encode_array_None)
next
  case (GStrs ss)
  then show ?case by (auto simp: encode_array_None)
next
  case (GOther v)
  then show ?case by (cases v) auto
qed simp_all

subsection \<open>JSON objects with a fixed field order\<close>

definition encode_struct :: "(string \<times> string option) list \<Rightarrow> string option" where
  "encode_struct kvs =
     map_option (\<lambda>es. CHR 0x7B # join '','' es @ [CHR 0x7D])
       (all_some (map (\<lambda>(k, e). map_option (\<lambda>t. quote k @ '':'' @ t) e) kvs))"

lemma encode_struct_texts:
  "encode_struct (map (\<lambda>(k, t). (k, Some t)) kts) =
     Some (CHR 0x7B # join '','' (map (\<lambda>(k, t). quote k @ '':'' @ t) kts) @ [CHR 0x7D])"
proof -
  have "map (\<lambda>(k, e). map_option (\<lambda>t. quote k @ '':'' @ t) e) (map (\<lambda>(k, t). (k, Some t)) kts) =
      map Some (map (\<lambda>(k, t). quote k @ '':'' @ t) kts)" by (simp add: comp_def split_def)
  then show ?thesis by (simp only: encode_struct_def all_some_map option.map)
qed

lemma all_some_ok: "(\<And>x. x \<in> set xs \<Longrightarrow> x \<noteq> None) \<Longrightarrow> \<exists>ys. all_some xs = Some ys"
proof (induction xs)
  case (Cons x xs)
  then obtain y ys where "x = Some y" "all_some xs = Some ys" by fastforce
  then show ?case by simp
qed simp

lemma encode_struct_ok: "(\<And>k e. (k, e) \<in> set kvs \<Longrightarrow> e \<noteq> None) \<Longrightarrow> \<exists>s. encode_struct kvs = Some s"
  using all_some_ok [of "map (\<lambda>(k, e). map_option (\<lambda>t. quote k @ '':'' @ t) e) kvs"]
  by (auto simp: encode_struct_def) fastforce

lemma encode_array_ok: "(\<And>x. x \<in> set xs \<Longrightarrow> x \<noteq> None) \<Longrightarrow> \<exists>s. encode_array xs = Some s"
  using all_some_ok [of xs] by (auto simp: encode_array_def)

lemma encode_object_ok: "(\<And>k e. (k, e) \<in> set kvs \<Longrightarrow> e \<noteq> None) \<Longrightarrow> \<exists>s. encode_object kvs = Some s"
  using all_some_ok [of "map (\<lambda>(k, e). map_option (\<lambda>t. quote k @ '':'' @ t) e) (sort_key fst kvs)"]
  by (auto simp: encode_object_def) fastforce

end
