(* ===== verification/Ai_Evidence.thy ===== *)
theory Ai_Evidence
  imports Ai_Guard Go_Json
begin

text \<open>
  \<open>internal/aiclient/evidence.go\<close> and the wire types of \<open>types.go\<close>: what leaves the process when a
  finding is explained. Evidence is a \<open>goval\<close>; a value of any other Go type is the constructor
  \<open>GOther\<close>, which holds what its JSON text decodes to. \<open>cleaned\<close> states what may be sent in place of a
  value, and the lemmas show that the sanitiser keeps to it: bounds at every level, no key that looks
  secret, and no text that reads as an instruction or was cut from one that does; and which JSON object
  a packet holds.
\<close>

subsection \<open>Limits and markers\<close>

definition maxEvidenceKeys :: nat where "maxEvidenceKeys = 24"
definition maxEvidenceString :: nat where "maxEvidenceString = 400"
definition maxEvidenceList :: nat where "maxEvidenceList = 12"
definition maxEvidenceDepth :: nat where "maxEvidenceDepth = 3"

definition secretKeyMarkers :: "string list" where
  "secretKeyMarkers =
     [''password'', ''passwd'', ''passphrase'', ''secret'', ''token'', ''apikey'',
      ''api_key'', ''api-key'', ''private'', ''credential'', ''cookie'', ''session'',
      ''authorization'', ''bearer'', ''license_key'', ''licence_key'', ''signature'']"

definition isSecretKey :: "string \<Rightarrow> bool" where
  "isSecretKey k =
     (let lk = map_runes lower_rune k in \<exists>m \<in> set secretKeyMarkers. contains lk m)"

definition truncateRunes :: "string \<Rightarrow> nat \<Rightarrow> string" where
  "truncateRunes s n =
     (let r = runes s in if length r \<le> n then s else of_runes (take n r) @ ellipsis)"

subsection \<open>Instructions in evidence\<close>

definition gap :: "nat \<Rightarrow> re" where
  "gap n = upto_re n (Cls (\<lambda>r. \<not> terminator r \<and> r \<noteq> 10))"

definition instructionPatterns :: "re list" where
  "instructionPatterns =
     [seqs [WordB, words_re [''ignore'', ''disregard'', ''forget'', ''override''], WordB, gap 40,
        WordB, words_re [''previous'', ''prior'', ''above'', ''all'', ''any'', ''your'', ''the''], WordB, gap 40,
        WordB, alts [seqs [lit ''instruction'', opt (lit ''s'')], seqs [lit ''rule'', opt (lit ''s'')],
          lit ''prompt'', seqs [lit ''guideline'', opt (lit ''s'')]], WordB],
      seqs [WordB,
        alts [lit ''system prompt'', lit ''developer message'', lit ''you are now'', lit ''act as'',
          seqs [lit ''pretend '', words_re [''to be'', ''you are'']],
          seqs [lit ''new instruction'', opt (lit ''s'')], lit ''from now on''],
        WordB],
      seqs [WordB, words_re [''mark'', ''set'', ''treat'', ''report'', ''classify''], WordB, gap 60,
        WordB, words_re [''as'', ''to''], plus_re space,
        words_re [''resolved'', ''fixed'', ''closed'', ''safe'', ''low'', ''info'', ''informational'',
          ''critical'', ''high'', ''medium''], WordB],
      seqs [WordB,
        alts [lit ''output only'',
          seqs [lit ''respond '', opt (lit ''only ''), lit ''with''],
          seqs [lit ''reply '', opt (lit ''only ''), lit ''with''],
          seqs [lit ''return '', opt (lit ''only ''), opt (lit ''the ''), words_re [''following'', ''this''],
            lit '' json''],
          lit ''print exactly''],
        WordB],
      seqs [lit ''<'', opt (lit ''|''),
        words_re [''im_start'', ''im_end'', ''system'', ''user'', ''assistant'', ''endoftext'', ''eot_id'',
          ''start_header_id''],
        opt (lit ''|''), lit ''>''],
      seqs [WordB, words_re [''assistant'', ''system'', ''user''], Star space, lit '':'', Star space,
        lit ''{'']]"

definition instructionPlaceholder :: string where
  "instructionPlaceholder = ''[omitted: instruction-like text]''"

definition instruction_like :: "string \<Rightarrow> bool" where
  "instruction_like s = (\<exists>re \<in> set instructionPatterns. MatchString re s)"

definition neutralizeInstructions :: "string \<Rightarrow> string" where
  "neutralizeInstructions s = (if instruction_like s then instructionPlaceholder else s)"

subsection \<open>Sanitising\<close>

definition omitted_deep :: goval where
  "omitted_deep = GStr ''[omitted: nested too deep]''"

definition omitted_other :: goval where
  "omitted_other = GStr ''[omitted: not serialisable]''"

definition sanitize_string :: "string \<Rightarrow> string" where
  "sanitize_string s = truncateRunes (neutralizeInstructions s) maxEvidenceString"

text \<open>The entries of a map that are kept, in the order of their keys.\<close>

definition kept_entries :: "gomap \<Rightarrow> gomap" where
  "kept_entries kvs =
     take maxEvidenceKeys (sort_key fst (filter (\<lambda>(k, v). \<not> isSecretKey k) kvs))"

lemma kept_entries_subset: "set (kept_entries kvs) \<subseteq> set kvs"
proof
  fix p
  assume "p \<in> set (kept_entries kvs)"
  then have "p \<in> set (sort_key fst (filter (\<lambda>(k, v). \<not> isSecretKey k) kvs))"
    unfolding kept_entries_def by (rule in_set_takeD)
  then show "p \<in> set kvs" by simp
qed

lemma kept_size:
  assumes "(k, v) \<in> set (kept_entries kvs)"
  shows "size v < Suc (size_list (size_prod (\<lambda>_. 0) size) kvs)"
proof -
  have "(k, v) \<in> set kvs" using assms kept_entries_subset by blast
  then have "size v \<le> size_list (size_prod (\<lambda>_. 0) size) kvs"
    by (rule size_list_estimation') simp
  then show ?thesis by simp
qed

function (sequential) sanitizeValue :: "nat \<Rightarrow> goval \<Rightarrow> goval" where
  "sanitizeValue depth (GMap kvs) =
     (if depth \<ge> maxEvidenceDepth then omitted_deep
      else if kvs = [] \<or> kept_entries kvs = [] then GNilMap
      else GMap (map (\<lambda>(k, v). (k, sanitizeValue (Suc depth) v)) (kept_entries kvs)))"
| "sanitizeValue depth GNilMap = (if depth \<ge> maxEvidenceDepth then omitted_deep else GNilMap)"
| "sanitizeValue depth (GList ts) =
     (if depth \<ge> maxEvidenceDepth then omitted_deep
      else GList (map (\<lambda>t. sanitizeValue (Suc depth) t) (take maxEvidenceList ts)))"
| "sanitizeValue depth GNilList = (if depth \<ge> maxEvidenceDepth then omitted_deep else GList [])"
| "sanitizeValue depth (GStrs ss) = GList (map (\<lambda>s. GStr (sanitize_string s)) (take maxEvidenceList ss))"
| "sanitizeValue depth GNilStrs = GList []"
| "sanitizeValue depth (GStr t) = GStr (sanitize_string t)"
| "sanitizeValue depth (GOther v) =
     (case v of None \<Rightarrow> omitted_other | Some g \<Rightarrow> sanitizeValue depth g)"
| "sanitizeValue depth GNil = GNil"
| "sanitizeValue depth (GBool b) = GBool b"
| "sanitizeValue depth (GInt i) = GInt i"
| "sanitizeValue depth (GFloat f) = GFloat f"

  by pat_completeness auto
termination
proof (relation "measure (\<lambda>(depth, v). size v)", goal_cases)
  case (3 depth ts x)
  then have "x \<in> set ts" by (meson in_set_takeD)
  then show ?case by (simp add: size_list_estimation' less_Suc_eq_le)
qed (auto dest: kept_size)

definition sanitizeMap :: "evidence \<Rightarrow> nat \<Rightarrow> evidence" where
  "sanitizeMap m depth =
     (case m of
        None \<Rightarrow> None
      | Some kvs \<Rightarrow>
          (if kvs = [] \<or> kept_entries kvs = [] then None
           else Some (map (\<lambda>(k, v). (k, sanitizeValue depth v)) (kept_entries kvs))))"

definition SanitizeEvidence :: "evidence \<Rightarrow> evidence" where
  "SanitizeEvidence m = sanitizeMap m 1"

subsection \<open>Texts that cannot match\<close>

lemma mat_alts [simp]: "mat (alts rs) s i j \<longleftrightarrow> (\<exists>r \<in> set rs. mat r s i j)"
  by (induction rs) (auto simp: alts_def)

lemma mat_seqs [simp]:
  "mat (seqs []) s i j \<longleftrightarrow> j = i"
  "mat (seqs (r # rs)) s i j \<longleftrightarrow> (\<exists>k. mat r s i k \<and> mat (seqs rs) s k j)"
  by (simp_all add: seqs_def)

lemma mat_words [simp]: "mat (words_re ws) s i j \<longleftrightarrow> (\<exists>w \<in> set ws. mat (lit w) s i j)"
  by (simp add: words_re_def)

text \<open>In a text without capitals and beyond-ASCII runes a literal matches where it stands.\<close>

definition lower_ascii :: "string \<Rightarrow> bool" where
  "lower_ascii s \<longleftrightarrow> list_all (\<lambda>c. byte c < 128 \<and> \<not> (65 \<le> byte c \<and> byte c \<le> 90)) s"

lemma mat_lit_prefix:
  assumes "lower_ascii s"
  shows "mat (lit w) (map byte s) i j \<Longrightarrow> take (length w) (drop i s) = w"
proof (induction w arbitrary: i)
  case (Cons c w)
  then have i: "i < length s" "fold_case (byte c) (byte (s ! i))" "mat (lit w) (map byte s) (Suc i) j"
    by (auto simp: lit_simps)
  have "byte (s ! i) < 128 \<and> \<not> (65 \<le> byte (s ! i) \<and> byte (s ! i) \<le> 90)"
    using assms i(1) by (simp add: lower_ascii_def list_all_length)
  then have "s ! i = c" using i(2) by (intro byte_inj) (auto simp: fold_case_def)
  moreover have "drop i s = s ! i # drop (Suc i) s" using i(1) by (simp add: Cons_nth_drop_Suc)
  ultimately show ?case using Cons.IH [OF i(3)] by simp
qed simp

lemma mat_lit_contains: "lower_ascii s \<Longrightarrow> mat (lit w) (map byte s) i j \<Longrightarrow> contains s w"
proof -
  assume a: "lower_ascii s" "mat (lit w) (map byte s) i j"
  have "take i s @ take (length w) (drop i s) @ drop (length w) (drop i s) = s"
    by (simp only: append_take_drop_id)
  then have "take i s @ w @ drop (length w) (drop i s) = s" by (simp only: mat_lit_prefix [OF a])
  then show ?thesis unfolding contains_iff by metis
qed

text \<open>One of these words occurs in any such text that reads as an instruction.\<close>

definition first_words :: "string list" where
  "first_words = [''ignore'', ''disregard'', ''forget'', ''override'', ''system prompt'',
     ''developer message'', ''you are now'', ''act as'', ''pretend '', ''new instruction'', ''from now on'',
     ''mark'', ''set'', ''treat'', ''report'', ''classify'', ''output only'', ''respond '', ''reply '', ''return '',
     ''print exactly'', ''<'', ''assistant'', ''system'', ''user'']"

lemma mat_first:
  "mat (seqs (r # rs)) s i j \<Longrightarrow> \<exists>a b. mat r s a b"
  "mat (seqs (WordB # r # rs)) s i j \<Longrightarrow> \<exists>a b. mat r s a b"
  by auto

definition has_lit :: "string list \<Rightarrow> re \<Rightarrow> bool" where
  "has_lit ws r \<longleftrightarrow> (\<forall>s i j. mat r s i j \<longrightarrow> (\<exists>w \<in> set ws. \<exists>a b. mat (lit w) s a b))"

lemma has_lit_intros:
  "w \<in> set ws \<Longrightarrow> has_lit ws (lit w)"
  "has_lit ws r \<Longrightarrow> has_lit ws (seqs (r # rs))"
  "has_lit ws r \<Longrightarrow> has_lit ws (seqs (WordB # r # rs))"
  "list_all (has_lit ws) rs \<Longrightarrow> has_lit ws (alts rs)"
  "list_all (\<lambda>w. w \<in> set ws) vs \<Longrightarrow> has_lit ws (words_re vs)"
  unfolding has_lit_def
      apply blast
     apply (meson mat_first(1))
    apply (meson mat_first(2))
   apply (simp add: list_all_iff, blast)
  apply (simp add: list_all_iff, blast)
  done

lemma instruction_leads: "list_all (has_lit first_words) instructionPatterns"
  unfolding instructionPatterns_def first_words_def by (simp add: has_lit_intros)

lemma instruction_words:
  assumes "lower_ascii s" "instruction_like s"
  shows "\<exists>w \<in> set first_words. contains s w"
proof -
  have r: "runes s = map byte s"
    using assms(1) by (intro runes_ascii) (auto simp: lower_ascii_def list_all_iff)
  obtain re i j where re: "re \<in> set instructionPatterns" and m: "mat re (map byte s) i j"
    using assms(2) unfolding instruction_like_def MatchString_def match_runes_iff r by blast
  then obtain w a b where "w \<in> set first_words" "mat (lit w) (map byte s) a b"
    using instruction_leads unfolding list_all_iff has_lit_def by metis
  then show ?thesis using mat_lit_contains [OF assms(1)] by blast
qed

lemma placeholder_quiet:
  "\<not> instruction_like instructionPlaceholder"
  "\<not> instruction_like ''[omitted: nested too deep]''"
  "\<not> instruction_like ''[omitted: not serialisable]''"
proof -
  have "lower_ascii instructionPlaceholder" "lower_ascii ''[omitted: nested too deep]''"
    "lower_ascii ''[omitted: not serialisable]''"
    by (simp_all add: lower_ascii_def instructionPlaceholder_def byte_def)
  then show "\<not> instruction_like instructionPlaceholder"
    "\<not> instruction_like ''[omitted: nested too deep]''"
    "\<not> instruction_like ''[omitted: not serialisable]''"
    using instruction_words
    by (force simp: instructionPlaceholder_def first_words_def has_prefix_def)+
qed

subsection \<open>Truncation\<close>

lemma runes_cut: "n < length (runes s) \<Longrightarrow> runes (truncateRunes s n) = take n (runes s) @ [0x2026]"
proof -
  assume "n < length (runes s)"
  then have "truncateRunes s n = of_runes (take n (runes s) @ [0x2026])"
    by (simp add: truncateRunes_def ellipsis_def Let_def)
  moreover have "list_all scalar (take n (runes s) @ [0x2026])"
    using scalar_runes [of s] by (auto simp: list_all_iff scalar_def dest: in_set_takeD)
  ultimately show ?thesis by (simp only: runes_of_runes)
qed

lemma truncateRunes_id: "length (runes s) \<le> n \<Longrightarrow> truncateRunes s n = s"
  by (simp add: truncateRunes_def Let_def)

text \<open>
  What may be sent of a text: the placeholder if it reads as an instruction anywhere, the text itself if
  it has at most \<open>n\<close> runes, and its first \<open>n\<close> runes with an ellipsis if it is longer.
\<close>

definition clean_text :: "nat \<Rightarrow> string \<Rightarrow> string \<Rightarrow> bool" where
  "clean_text n s t \<longleftrightarrow>
     (if instruction_like s then t = instructionPlaceholder
      else if length (runes s) \<le> n then t = s
      else runes t = take n (runes s) @ [0x2026])"

text \<open>A text that is, or is cut from, one that does not read as an instruction.\<close>

definition quiet_text :: "string \<Rightarrow> bool" where
  "quiet_text t \<longleftrightarrow>
     (\<exists>s. \<not> instruction_like s \<and>
        (if length (runes s) \<le> maxEvidenceString then t = s
         else runes t = take maxEvidenceString (runes s) @ [0x2026]))"

lemma placeholder_runes: "length (runes instructionPlaceholder) = 32"
  by (simp add: instructionPlaceholder_def byte_def)

lemma neutralized: "\<not> instruction_like (neutralizeInstructions s)"
  by (simp add: neutralizeInstructions_def placeholder_quiet)

lemma clean_text_cut: "32 \<le> n \<Longrightarrow> clean_text n s (truncateRunes (neutralizeInstructions s) n)"
  by (simp add: clean_text_def neutralizeInstructions_def truncateRunes_id runes_cut placeholder_runes)

lemma sanitize_string_clean: "clean_text maxEvidenceString s (sanitize_string s)"
  unfolding sanitize_string_def by (rule clean_text_cut) (simp add: maxEvidenceString_def)

lemma clean_text_quiet: "clean_text maxEvidenceString s t \<Longrightarrow> quiet_text t"
proof (cases "instruction_like s")
  case True
  moreover assume "clean_text maxEvidenceString s t"
  ultimately show ?thesis unfolding clean_text_def quiet_text_def
    using placeholder_quiet(1) placeholder_runes
    by (intro exI [of _ instructionPlaceholder]) (simp add: maxEvidenceString_def)
next
  case False
  moreover assume "clean_text maxEvidenceString s t"
  ultimately show ?thesis unfolding clean_text_def quiet_text_def by auto
qed

lemma marker_quiet:
  "quiet_text ''[omitted: nested too deep]''" "quiet_text ''[omitted: not serialisable]''"
proof -
  have q: "quiet_text s" if "\<not> instruction_like s" "length (runes s) \<le> maxEvidenceString" for s
    unfolding quiet_text_def using that by (intro exI [of _ s]) simp
  show "quiet_text ''[omitted: nested too deep]''" "quiet_text ''[omitted: not serialisable]''"
    by (rule q [OF placeholder_quiet(2)]; simp add: maxEvidenceString_def byte_def)
      (rule q [OF placeholder_quiet(3)]; simp add: maxEvidenceString_def byte_def)
qed

subsection \<open>What is left of a value\<close>

text \<open>
  The shape of a sanitised value that stands below \<open>d\<close> maps: maps nest three deep, and lists of
  texts once more.
\<close>

fun is_str :: "goval \<Rightarrow> bool" where
  "is_str (GStr s) = True"
| "is_str v = False"

fun clean :: "nat \<Rightarrow> goval \<Rightarrow> bool" where
  "clean d (GStr s) = quiet_text s"
| "clean d (GMap kvs) =
     (d < maxEvidenceDepth \<and> length kvs \<le> maxEvidenceKeys \<and>
      (\<forall>(k, v) \<in> set kvs. \<not> isSecretKey k \<and> clean (Suc d) v))"
| "clean d GNilMap = (d < maxEvidenceDepth)"
| "clean d (GList vs) =
     (length vs \<le> maxEvidenceList \<and> (d < maxEvidenceDepth \<or> list_all is_str vs) \<and>
      (\<forall>v \<in> set vs. clean (Suc d) v))"
| "clean d GNil = True"
| "clean d (GBool b) = True"
| "clean d (GInt i) = True"
| "clean d (GFloat f) = True"
| "clean d v = False"

lemma kept_not_secret: "(k, v) \<in> set (kept_entries kvs) \<Longrightarrow> \<not> isSecretKey k"
  unfolding kept_entries_def by (auto dest: in_set_takeD)

lemma length_kept: "length (kept_entries kvs) \<le> maxEvidenceKeys"
  by (simp add: kept_entries_def)

lemma omitted_clean: "clean d omitted_deep" "clean d omitted_other"
  by (simp_all add: omitted_deep_def omitted_other_def marker_quiet)

text \<open>
  What the documentation of \<open>SanitizeEvidence\<close> promises of a value: \<open>cleaned d v w\<close> is that \<open>w\<close> may be
  sent in place of \<open>v\<close> below \<open>d\<close> maps.
\<close>

inductive cleaned :: "nat \<Rightarrow> goval \<Rightarrow> goval \<Rightarrow> bool" where
  null: "cleaned d GNil GNil"
| bool: "cleaned d (GBool b) (GBool b)"
| int: "cleaned d (GInt i) (GInt i)"
| float: "cleaned d (GFloat f) (GFloat f)"
| str: "clean_text maxEvidenceString s t \<Longrightarrow> cleaned d (GStr s) (GStr t)"
| deep: "maxEvidenceDepth \<le> d \<Longrightarrow> v \<in> {GMap kvs, GNilMap, GList vs, GNilList} \<Longrightarrow> cleaned d v omitted_deep"
| map: "d < maxEvidenceDepth \<Longrightarrow>
    map fst ws = take maxEvidenceKeys (sort (filter (\<lambda>k. \<not> isSecretKey k) (map fst kvs))) \<Longrightarrow>
    (\<And>k w. (k, w) \<in> set ws \<Longrightarrow> \<exists>v. (k, v) \<in> set kvs \<and> cleaned (Suc d) v w) \<Longrightarrow>
    cleaned d (GMap kvs) (GMap ws)"
| no_map: "d < maxEvidenceDepth \<Longrightarrow> v = GNilMap \<or> v = GMap kvs \<and> list_all (\<lambda>(k, v). isSecretKey k) kvs \<Longrightarrow>
    cleaned d v GNilMap"
| list: "d < maxEvidenceDepth \<Longrightarrow> list_all2 (cleaned (Suc d)) (take maxEvidenceList vs) ws \<Longrightarrow>
    cleaned d (GList vs) (GList ws)"
| no_list: "d < maxEvidenceDepth \<Longrightarrow> cleaned d GNilList (GList [])"
| strs: "list_all2 (clean_text maxEvidenceString) (take maxEvidenceList ss) ts \<Longrightarrow>
    cleaned d (GStrs ss) (GList (map GStr ts))"
| no_strs: "cleaned d GNilStrs (GList [])"
| other: "cleaned d g w \<Longrightarrow> cleaned d (GOther (Some g)) w"
| refused: "cleaned d (GOther None) omitted_other"

lemma sort_key_fst: "map fst (sort_key fst xs) = sort (map fst xs)" for xs :: gomap
  by (metis mset_map mset_sort properties_for_sort sorted_sort_key)

lemma kept_keys: "map fst (kept_entries kvs) = take maxEvidenceKeys (sort (filter (\<lambda>k. \<not> isSecretKey k) (map fst kvs)))"
  unfolding kept_entries_def by (simp add: take_map [symmetric] sort_key_fst filter_map comp_def split_def)

lemma kept_none: "kept_entries kvs = [] \<longleftrightarrow> list_all (\<lambda>(k, v). isSecretKey k) kvs"
proof
  assume "kept_entries kvs = []"
  then have "length (kept_entries kvs) = 0" by simp
  then have "filter (\<lambda>(k, v). \<not> isSecretKey k) kvs = []"
    by (simp add: kept_entries_def maxEvidenceKeys_def min_def split: if_splits)
  then show "list_all (\<lambda>(k, v). isSecretKey k) kvs" unfolding filter_empty_conv list_all_iff by blast
next
  assume "list_all (\<lambda>(k, v). isSecretKey k) kvs"
  then have "filter (\<lambda>(k, v). \<not> isSecretKey k) kvs = []" unfolding filter_empty_conv list_all_iff by blast
  then show "kept_entries kvs = []" by (simp add: kept_entries_def)
qed

lemma sanitizeValue_cleaned: "cleaned depth v (sanitizeValue depth v)"
proof (induction depth v rule: sanitizeValue.induct)
  case (1 depth kvs)
  show ?case
  proof (cases "depth \<ge> maxEvidenceDepth")
    case True
    then show ?thesis by (simp add: cleaned.deep)
  next
    case shallow: False
    show ?thesis
    proof (cases "kvs = [] \<or> kept_entries kvs = []")
      case True
      then have "list_all (\<lambda>(k, v). isSecretKey k) kvs" by (elim disjE) (simp_all only: kept_none list.pred_inject)
      then have "cleaned depth (GMap kvs) GNilMap" using shallow by (intro cleaned.no_map [of _ _ kvs]) simp_all
      then show ?thesis using shallow True by simp
    next
      case False
      let ?ws = "map (\<lambda>(k, v). (k, sanitizeValue (Suc depth) v)) (kept_entries kvs)"
      have "cleaned depth (GMap kvs) (GMap ?ws)"
      proof (rule cleaned.map)
        show "map fst ?ws = take maxEvidenceKeys (sort (filter (\<lambda>k. \<not> isSecretKey k) (map fst kvs)))"
          unfolding kept_keys [symmetric] by (simp add: split_def comp_def)
        fix k w
        assume "(k, w) \<in> set ?ws"
        then obtain v where v: "(k, v) \<in> set (kept_entries kvs)" "w = sanitizeValue (Suc depth) v" by auto
        then have "cleaned (Suc depth) v w" using 1 [OF shallow False v(1) refl] by simp
        then show "\<exists>v. (k, v) \<in> set kvs \<and> cleaned (Suc depth) v w" using v(1) kept_entries_subset by blast
      qed (use shallow in simp)
      then show ?thesis using shallow False by simp
    qed
  qed
next
  case (3 depth ts)
  have "list_all2 (cleaned (Suc depth)) (take maxEvidenceList ts)
      (map (sanitizeValue (Suc depth)) (take maxEvidenceList ts))" if "\<not> maxEvidenceDepth \<le> depth"
    unfolding list_all2_map2 list_all2_same using 3 [OF that] by blast
  then show ?case by (auto intro: cleaned.intros)
next
  case (5 depth ss)
  have "list_all2 (clean_text maxEvidenceString) (take maxEvidenceList ss) (map sanitize_string (take maxEvidenceList ss))"
    unfolding list_all2_map2 list_all2_same using sanitize_string_clean by blast
  from cleaned.strs [OF this] show ?case by (simp add: comp_def)
next
  case (8 depth v)
  then show ?case by (cases v) (auto intro: cleaned.intros)
qed (auto intro: cleaned.intros sanitize_string_clean simp: not_le)

lemma cleaned_clean: "cleaned d v w \<Longrightarrow> clean d w"
proof (induction rule: cleaned.induct)
  case (map d ws kvs)
  have keys: "set (map fst ws) \<subseteq> {k. \<not> isSecretKey k}"
    unfolding map(2) by (auto dest!: in_set_takeD)
  have "length (map fst ws) \<le> maxEvidenceKeys" unfolding map(2) by simp
  moreover have "\<not> isSecretKey k \<and> clean (Suc d) w" if "(k, w) \<in> set ws" for k w
    using map(3) [OF that] keys that by force
  ultimately show ?case using map(1) by auto
next
  case (list d vs ws)
  have "length ws \<le> maxEvidenceList" using list_all2_lengthD [OF list(2)] by simp
  moreover have "\<forall>w \<in> set ws. clean (Suc d) w" using list(2) by (metis (no_types, lifting) in_set_conv_nth list_all2_conv_all_nth)
  ultimately show ?case using list(1) by simp
next
  case (strs ss ts d)
  have "length ts \<le> maxEvidenceList" using list_all2_lengthD [OF strs] by simp
  moreover have "quiet_text t" if "t \<in> set ts" for t
    using strs that clean_text_quiet by (metis in_set_conv_nth list_all2_conv_all_nth)
  ultimately show ?case by (auto simp: list_all_iff)
qed (auto simp: omitted_clean clean_text_quiet)

text \<open>The same of a whole map.\<close>

definition cleaned_evidence :: "evidence \<Rightarrow> evidence \<Rightarrow> bool" where
  "cleaned_evidence m ev \<longleftrightarrow>
     (case ev of
        None \<Rightarrow> m = None \<or> list_all (\<lambda>(k, v). isSecretKey k) (the m)
      | Some kvs \<Rightarrow> kvs \<noteq> [] \<and> m \<noteq> None \<and>
          map fst kvs = take maxEvidenceKeys (sort (filter (\<lambda>k. \<not> isSecretKey k) (map fst (the m)))) \<and>
          list_all (\<lambda>(k, w). \<not> isSecretKey k \<and> clean 1 w \<and> (\<exists>v. (k, v) \<in> set (the m) \<and> cleaned 1 v w)) kvs)"

lemma SanitizeEvidence_cleaned: "cleaned_evidence m (SanitizeEvidence m)"
proof (cases m)
  case (Some kvs)
  show ?thesis
  proof (cases "kept_entries kvs = []")
    case True
    then show ?thesis
      using Some by (simp add: SanitizeEvidence_def sanitizeMap_def cleaned_evidence_def kept_none)
  next
    case False
    let ?ws = "map (\<lambda>(k, v). (k, sanitizeValue 1 v)) (kept_entries kvs)"
    have "SanitizeEvidence m = Some ?ws"
      using Some False kept_entries_subset [of kvs] by (auto simp: SanitizeEvidence_def sanitizeMap_def)
    moreover have "map fst ?ws = map fst (kept_entries kvs)" by (simp add: split_def comp_def)
    moreover have "list_all (\<lambda>(k, w). \<not> isSecretKey k \<and> clean 1 w \<and> (\<exists>v. (k, v) \<in> set kvs \<and> cleaned 1 v w)) ?ws"
      unfolding list_all_iff
      using sanitizeValue_cleaned [of 1] cleaned_clean kept_not_secret [of _ _ kvs] kept_entries_subset [of kvs] by fastforce
    ultimately show ?thesis using Some False by (simp add: cleaned_evidence_def kept_keys)
  qed
qed (simp add: SanitizeEvidence_def sanitizeMap_def cleaned_evidence_def)

text \<open>
  C10: what SanitizeEvidence returns is what may be sent of the evidence: at every level no key that
  looks secret and the first 24 of the others in order, at most twelve items of a list, no map below
  the third level, and every text is the placeholder if the original reads as an instruction anywhere,
  and else the original, cut behind 400 runes; so each is, or is cut from, a text that does not read as
  an instruction. Nothing is returned exactly if there is no entry to keep.
\<close>

theorem sanitized_evidence_clean:
  "case SanitizeEvidence m of
     None \<Rightarrow> m = None \<or> list_all (\<lambda>(k, v). isSecretKey k) (the m)
   | Some kvs \<Rightarrow> kvs \<noteq> [] \<and> m \<noteq> None \<and>
       map fst kvs = take maxEvidenceKeys (sort (filter (\<lambda>k. \<not> isSecretKey k) (map fst (the m)))) \<and>
       list_all (\<lambda>(k, w). \<not> isSecretKey k \<and> clean 1 w \<and> (\<exists>v. (k, v) \<in> set (the m) \<and> cleaned 1 v w)) kvs"
  using SanitizeEvidence_cleaned [of m] unfolding cleaned_evidence_def .

subsection \<open>Cutting can bring an instruction to light\<close>

text \<open>Hyphens before a text change nothing.\<close>

abbreviation no_hyphen :: "rune \<Rightarrow> bool" where "no_hyphen x \<equiv> x \<noteq> 45"

lemma headed_lit_hyphen: "headed no_hyphen (lit (c # w)) \<longleftrightarrow> \<not> fold_case (byte c) 45"
  by (auto simp: lit_simps)

lemma headed_re:
  "headed H (seqs (r # rs)) \<longleftrightarrow> headed H r \<or> (r = WordB \<and> headed H (seqs rs))"
  "headed H (alts []) \<longleftrightarrow> True"
  "headed H (alts (r # rs)) \<longleftrightarrow> headed H r \<and> headed H (alts rs)"
  "headed H (words_re []) \<longleftrightarrow> True"
  "headed H (words_re (w # ws)) \<longleftrightarrow> headed H (lit w) \<and> headed H (words_re ws)"
  by (simp_all add: seqs_def alts_def words_re_def)

lemma instructions_headed: "list_all (headed no_hyphen) instructionPatterns"
  unfolding instructionPatterns_def by (simp add: headed_re headed_lit_hyphen fold_case_def byte_def)

lemma instruction_like_hyphens: "instruction_like (replicate n (CHR ''-'') @ s) \<longleftrightarrow> instruction_like s"
proof -
  have "runes (replicate n (CHR ''-'') @ s) = replicate n 45 @ runes s"
    by (induction n) (simp_all add: byte_def)
  moreover have "list_all (\<lambda>x. \<not> no_hyphen x \<and> \<not> word_rune x) (replicate n 45)"
    by (simp add: list_all_length word_rune_def)
  ultimately show ?thesis
    using instructions_headed match_skip [of no_hyphen "replicate n 45" _ "runes s"]
    unfolding instruction_like_def MatchString_def list_all_iff by auto
qed

lemma prompt_runes: "runes (''system prompt'' @ ellipsis) = map byte ''system prompt'' @ [0x2026]"
proof -
  have "runes (encode_rune 0x2026 @ []) = [0x2026]" by (subst runes_encode) (simp_all add: scalar_def)
  then show ?thesis by (simp add: ellipsis_def byte_def)
qed

lemma prompt_cut: "instruction_like (''system prompt'' @ ellipsis)"
proof -
  have "MatchString (instructionPatterns ! 1) ''system prompt''" by code_simp
  then have "match_runes (instructionPatterns ! 1) ([] @ map byte ''system prompt'' @ [0x2026])"
    by (intro match_inner) (simp_all add: MatchString_def inner_def word_rune_def byte_def)
  then have "MatchString (instructionPatterns ! 1) (''system prompt'' @ ellipsis)"
    unfolding MatchString_def prompt_runes by simp
  then show ?thesis unfolding instruction_like_def
    by (intro bexI [of _ "instructionPatterns ! 1"]) (simp_all add: instructionPatterns_def)
qed

lemma prompts_quiet: "\<not> instruction_like ''system prompts''"
proof -
  have e: "instructionPatterns = [instructionPatterns ! 0, instructionPatterns ! 1, instructionPatterns ! 2,
      instructionPatterns ! 3, instructionPatterns ! 4, instructionPatterns ! 5]"
    by (simp add: instructionPatterns_def)
  have w: "lower_ascii ''system prompts''" by (simp add: lower_ascii_def byte_def)
  have no: "\<not> MatchString r ''system prompts''"
    if "has_lit ws r" "list_all (\<lambda>w. \<not> contains ''system prompts'' w) ws" for r ws
    using that mat_lit_contains [OF w] runes_ascii [of "''system prompts''"]
    unfolding has_lit_def MatchString_def match_runes_iff list_all_iff by (simp add: byte_def) metis
  have h: "has_lit [''ignore'', ''disregard'', ''forget'', ''override''] (instructionPatterns ! 0)"
    "has_lit [''mark'', ''set'', ''treat'', ''report'', ''classify''] (instructionPatterns ! 2)"
    "has_lit [''output only'', ''respond '', ''reply '', ''return '', ''print exactly''] (instructionPatterns ! 3)"
    "has_lit [''<''] (instructionPatterns ! 4)"
    unfolding instructionPatterns_def by (simp_all add: has_lit_intros)
  have "\<not> MatchString (instructionPatterns ! 1) ''system prompts''"
    "\<not> MatchString (instructionPatterns ! 5) ''system prompts''" by code_simp+
  moreover have "\<not> MatchString (instructionPatterns ! 0) ''system prompts''"
    "\<not> MatchString (instructionPatterns ! 2) ''system prompts''"
    "\<not> MatchString (instructionPatterns ! 3) ''system prompts''"
    "\<not> MatchString (instructionPatterns ! 4) ''system prompts''"
    using h [THEN no] by (simp_all add: has_prefix_def)
  ultimately show ?thesis
    unfolding instruction_like_def by (subst e) simp
qed

definition padded_prompts :: string where
  "padded_prompts = replicate 387 (CHR ''-'') @ ''system prompts''"

lemma padded_cut: "sanitize_string padded_prompts = replicate 387 (CHR ''-'') @ ''system prompt'' @ ellipsis"
proof -
  have q: "neutralizeInstructions padded_prompts = padded_prompts"
    by (simp add: neutralizeInstructions_def padded_prompts_def instruction_like_hyphens prompts_quiet)
  have a: "\<forall>c \<in> set padded_prompts. byte c < 128"
    by (simp add: padded_prompts_def byte_def)
  have r: "runes padded_prompts = map byte padded_prompts" using a by (rule runes_ascii)
  have "of_runes (map byte s) = s" if "\<forall>c \<in> set s. byte c < 128" for s
    using that by (induction s) (simp_all add: encode_rune_byte)
  moreover have "\<forall>c \<in> set (take 400 padded_prompts). byte c < 128"
    using a by (auto dest: in_set_takeD)
  ultimately have "of_runes (take 400 (map byte padded_prompts)) = take 400 padded_prompts"
    unfolding take_map by blast
  then show ?thesis
    by (simp add: sanitize_string_def q truncateRunes_def r Let_def maxEvidenceString_def)
      (simp add: padded_prompts_def)
qed

text \<open>
  The texts of evidence are cut after they were checked, and a cut can end a word: there is a
  text that does not read as an instruction and whose sanitised form does.
\<close>

theorem truncation_reopens:
  "\<not> instruction_like padded_prompts \<and> instruction_like (sanitize_string padded_prompts) \<and>
   SanitizeEvidence (Some [(''note'', GStr padded_prompts)]) =
     Some [(''note'', GStr (sanitize_string padded_prompts))]"
proof (intro conjI)
  show "\<not> instruction_like padded_prompts"
    by (simp add: padded_prompts_def instruction_like_hyphens prompts_quiet)
  show "instruction_like (sanitize_string padded_prompts)"
    unfolding padded_cut instruction_like_hyphens by (rule prompt_cut)
  have "map_runes lower_rune ''note'' = ''note''"
    by (intro map_runes_ascii_id) (simp add: lower_rune_def byte_def)
  then have "\<not> isSecretKey ''note''"
    by (simp add: isSecretKey_def Let_def secretKeyMarkers_def has_prefix_def)
  then show "SanitizeEvidence (Some [(''note'', GStr padded_prompts)]) =
      Some [(''note'', GStr (sanitize_string padded_prompts))]"
    by (simp add: SanitizeEvidence_def sanitizeMap_def kept_entries_def maxEvidenceKeys_def)
qed

subsection \<open>Packets\<close>

text \<open>\<open>NormalizeLanguage\<close> of \<open>client.go\<close>.\<close>

definition NormalizeLanguage :: "string \<Rightarrow> string" where
  "NormalizeLanguage lang =
     (let l = map (\<lambda>c. if c = CHR ''_'' then CHR ''-'' else c) (map_runes lower_rune (trim_space lang))
      in if l = ''id'' \<or> l = ''in'' \<or> l = ''ind'' \<or> has_prefix l ''id-''
            \<or> l = ''indonesian'' \<or> l = ''bahasa'' \<or> l = ''bahasa indonesia''
         then ''id'' else ''en'')"

type_synonym feature = string

definition FeatureExplainFinding :: feature where
  "FeatureExplainFinding = ''hexward.explain_finding''"

record core_finding =
  cfFingerprint :: string
  cfModule :: string
  cfCheck :: string
  cfTitle :: string
  cfTarget :: string
  cfSeverity :: string
  cfStatus :: string
  cfRemediation :: string
  cfEvidence :: evidence

record evidence_packet =
  epFeature :: feature
  epProduct :: string
  epFinding :: string
  epLanguage :: string

text \<open>A field with \<open>omitempty\<close> is left out when its text is empty.\<close>

definition omitempty :: "string \<Rightarrow> string \<Rightarrow> (string \<times> string option) list" where
  "omitempty k s = (if s = [] then [] else [(k, Some (quote s))])"

definition core_finding_json :: "core_finding \<Rightarrow> string option" where
  "core_finding_json f =
     encode_struct
       (omitempty ''fingerprint'' (cfFingerprint f) @ omitempty ''module'' (cfModule f)
        @ [(''check'', Some (quote (cfCheck f))), (''title'', Some (quote (cfTitle f)))]
        @ omitempty ''target'' (cfTarget f) @ [(''severity'', Some (quote (cfSeverity f)))]
        @ omitempty ''status'' (cfStatus f) @ omitempty ''remediation'' (cfRemediation f)
        @ (case cfEvidence f of
             None \<Rightarrow> []
           | Some kvs \<Rightarrow> if kvs = [] then [] else [(''evidence'', json_marshal (GMap kvs))]))"

definition sanitized_finding :: "core_finding \<Rightarrow> core_finding" where
  "sanitized_finding f =
     f\<lparr>cfTitle := truncateRunes (neutralizeInstructions (cfTitle f)) maxEvidenceString,
       cfTarget := truncateRunes (neutralizeInstructions (cfTarget f)) maxEvidenceString,
       cfRemediation := truncateRunes (neutralizeInstructions (cfRemediation f)) (2 * maxEvidenceString),
       cfEvidence := SanitizeEvidence (cfEvidence f)\<rparr>"

definition NewFindingPacket :: "string \<Rightarrow> string \<Rightarrow> core_finding \<Rightarrow> gerror + evidence_packet" where
  "NewFindingPacket product language f =
     (if trim_space product = [] then Inl ''aiclient: product is required''
      else if trim_space (cfCheck f) = [] \<or> trim_space (cfTitle f) = [] \<or> trim_space (cfSeverity f) = []
      then Inl ''aiclient: finding needs check, title and severity''
      else
        case core_finding_json (sanitized_finding f) of
          None \<Rightarrow> Inl (''aiclient: marshal finding: '' @ marshal_error)
        | Some raw \<Rightarrow>
            Inr \<lparr>epFeature = FeatureExplainFinding, epProduct = product, epFinding = raw,
                 epLanguage = NormalizeLanguage language\<rparr>)"

lemma encode_struct_None: "encode_struct kvs = None \<longleftrightarrow> (\<exists>k. (k, None) \<in> set kvs)"
  by (force simp: encode_struct_def all_some_None image_iff)

lemma encode_struct_nonempty: "encode_struct kvs = Some s \<Longrightarrow> s \<noteq> []"
  by (auto simp: encode_struct_def)

lemma omitempty_ok [simp]: "(k, None) \<notin> set (omitempty k' s)"
  by (simp add: omitempty_def)

lemma core_finding_json_None:
  "core_finding_json f = None \<longleftrightarrow>
     (case cfEvidence f of None \<Rightarrow> False | Some kvs \<Rightarrow> \<exists>(k, v) \<in> set kvs. unserialisable v)"
proof (cases "cfEvidence f")
  case (Some kvs)
  have "None = json_marshal (GMap kvs) \<longleftrightarrow> (\<exists>(k, v) \<in> set kvs. unserialisable v)"
    using json_marshal_None [of "GMap kvs"] by (metis unserialisable.simps(2))
  then show ?thesis
    using Some by (cases "kvs = []") (simp_all add: core_finding_json_def encode_struct_None del: json_marshal.simps)
qed (simp add: core_finding_json_def encode_struct_None)

text \<open>
  C35: NewFindingPacket fails exactly when product, check, title or severity is blank or a number in
  the cleaned evidence is not finite: such a number passes the sanitiser, which replaces other
  values that do not marshal, and fails the packet. A packet holds the JSON object with these fields of
  the finding, in this order: the identifying fields as they are, title, target and remediation as they
  may be sent (400, 400 and 800 runes), and the evidence as SanitizeEvidence promises it; an empty
  field that is optional is left out.
\<close>

theorem NewFindingPacket_exact:
  "case NewFindingPacket product language f of
     Inl e \<Rightarrow>
       trim_space product = [] \<or> trim_space (cfCheck f) = [] \<or> trim_space (cfTitle f) = [] \<or>
       trim_space (cfSeverity f) = [] \<or>
       (\<exists>kvs. cleaned_evidence (cfEvidence f) (Some kvs) \<and> list_ex (\<lambda>(k, v). unserialisable v) kvs)
   | Inr p \<Rightarrow>
       trim_space product \<noteq> [] \<and> trim_space (cfCheck f) \<noteq> [] \<and> trim_space (cfTitle f) \<noteq> [] \<and>
       trim_space (cfSeverity f) \<noteq> [] \<and>
       epFeature p = FeatureExplainFinding \<and> epProduct p = product \<and> epLanguage p = NormalizeLanguage language \<and>
       (\<exists>title target remediation evidence.
          clean_text 400 (cfTitle f) title \<and> clean_text 400 (cfTarget f) target \<and>
          clean_text 800 (cfRemediation f) remediation \<and>
          (case evidence of
             None \<Rightarrow> cleaned_evidence (cfEvidence f) None
           | Some t \<Rightarrow> \<exists>kvs. cleaned_evidence (cfEvidence f) (Some kvs) \<and> json_marshal (GMap kvs) = Some t) \<and>
          epFinding p = CHR 0x7B # join '',''
            (concat (map (\<lambda>(k, v, optional). if optional \<and> v = [] then [] else [quote k @ '':'' @ quote v])
               [(''fingerprint'', cfFingerprint f, True), (''module'', cfModule f, True),
                (''check'', cfCheck f, False), (''title'', title, False), (''target'', target, True),
                (''severity'', cfSeverity f, False), (''status'', cfStatus f, True),
                (''remediation'', remediation, True)])
             @ (case evidence of None \<Rightarrow> [] | Some t \<Rightarrow> [quote ''evidence'' @ '':'' @ t])) @ [CHR 0x7D])"
proof (cases "core_finding_json (sanitized_finding f)")
  case None
  then obtain kvs where kvs: "SanitizeEvidence (cfEvidence f) = Some kvs" "list_ex (\<lambda>(k, v). unserialisable v) kvs"
    unfolding core_finding_json_None list_ex_iff by (auto simp: sanitized_finding_def split: option.splits)
  moreover have "cleaned_evidence (cfEvidence f) (Some kvs)" unfolding kvs(1) [symmetric] by (rule SanitizeEvidence_cleaned)
  ultimately show ?thesis using None by (auto simp: NewFindingPacket_def)
next
  case (Some raw)
  define cut where "cut = (\<lambda>n s. truncateRunes (neutralizeInstructions s) n)"
  define ev where "ev = SanitizeEvidence (cfEvidence f)"
  define t where "t = (case ev of None \<Rightarrow> None | Some kvs \<Rightarrow> json_marshal (GMap kvs))"
  have safe: "cleaned_evidence (cfEvidence f) ev" unfolding ev_def by (rule SanitizeEvidence_cleaned)
  have t: "case t of None \<Rightarrow> cleaned_evidence (cfEvidence f) None
      | Some t \<Rightarrow> \<exists>kvs. cleaned_evidence (cfEvidence f) (Some kvs) \<and> json_marshal (GMap kvs) = Some t"
    and ev: "(case ev of None \<Rightarrow> [] | Some kvs \<Rightarrow> if kvs = [] then [] else [(''evidence'', json_marshal (GMap kvs))]) =
      (case t of None \<Rightarrow> [] | Some t \<Rightarrow> [(''evidence'', Some t)])"
  proof -
    have "t \<noteq> None" if "ev = Some kvs" for kvs
    proof
      assume "t = None"
      then have "unserialisable (GMap kvs)" using that by (simp add: t_def json_marshal_None del: json_marshal.simps)
      then have "core_finding_json (sanitized_finding f) = None"
        using that unfolding core_finding_json_None by (simp add: sanitized_finding_def ev_def)
      with Some show False by simp
    qed
    moreover have "kvs \<noteq> []" if "ev = Some kvs" for kvs using safe that by (simp add: cleaned_evidence_def)
    ultimately show "case t of None \<Rightarrow> cleaned_evidence (cfEvidence f) None
      | Some t \<Rightarrow> \<exists>kvs. cleaned_evidence (cfEvidence f) (Some kvs) \<and> json_marshal (GMap kvs) = Some t"
      "(case ev of None \<Rightarrow> [] | Some kvs \<Rightarrow> if kvs = [] then [] else [(''evidence'', json_marshal (GMap kvs))]) =
      (case t of None \<Rightarrow> [] | Some t \<Rightarrow> [(''evidence'', Some t)])"
      using safe by (cases ev; fastforce simp: t_def simp del: json_marshal.simps split: option.splits)+
  qed
  define kts where "kts = concat (map (\<lambda>(k, v, optional). if optional \<and> v = [] then [] else [(k, quote v)])
      [(''fingerprint'', cfFingerprint f, True), (''module'', cfModule f, True),
       (''check'', cfCheck f, False), (''title'', cut 400 (cfTitle f), False), (''target'', cut 400 (cfTarget f), True),
       (''severity'', cfSeverity f, False), (''status'', cfStatus f, True),
       (''remediation'', cut 800 (cfRemediation f), True)]) @ (case t of None \<Rightarrow> [] | Some t \<Rightarrow> [(''evidence'', t)])"
  have "core_finding_json (sanitized_finding f) = encode_struct (map (\<lambda>(k, t). (k, Some t)) kts)"
    using ev unfolding core_finding_json_def
    by (simp add: sanitized_finding_def ev_def kts_def omitempty_def cut_def maxEvidenceString_def split: option.split)
  then have raw: "raw = CHR 0x7B # join '','' (map (\<lambda>(k, t). quote k @ '':'' @ t) kts) @ [CHR 0x7D]"
    using Some encode_struct_texts [of kts] by simp
  have c: "clean_text n s (cut n s)" if "32 \<le> n" for n s unfolding cut_def by (rule clean_text_cut [OF that])
  have kts: "map (\<lambda>(k, t). quote k @ '':'' @ t) kts =
      concat (map (\<lambda>(k, v, optional). if optional \<and> v = [] then [] else [quote k @ '':'' @ quote v])
        [(''fingerprint'', cfFingerprint f, True), (''module'', cfModule f, True),
         (''check'', cfCheck f, False), (''title'', cut 400 (cfTitle f), False), (''target'', cut 400 (cfTarget f), True),
         (''severity'', cfSeverity f, False), (''status'', cfStatus f, True),
         (''remediation'', cut 800 (cfRemediation f), True)])
      @ (case t of None \<Rightarrow> [] | Some t \<Rightarrow> [quote ''evidence'' @ '':'' @ t])"
    by (simp add: kts_def split: option.split)
  show ?thesis
  proof (cases "trim_space product = [] \<or> trim_space (cfCheck f) = [] \<or> trim_space (cfTitle f) = [] \<or>
      trim_space (cfSeverity f) = []")
    case True
    then show ?thesis by (auto simp: NewFindingPacket_def)
  next
    case False
    then have p: "NewFindingPacket product language f =
        Inr \<lparr>epFeature = FeatureExplainFinding, epProduct = product, epFinding = raw,
          epLanguage = NormalizeLanguage language\<rparr>"
      using Some by (simp add: NewFindingPacket_def)
    show ?thesis
      unfolding p sum.case evidence_packet.simps
      using False t raw [unfolded kts]
      by (intro conjI exI [of _ "cut 400 (cfTitle f)"] exI [of _ "cut 400 (cfTarget f)"]
          exI [of _ "cut 800 (cfRemediation f)"] exI [of _ t] c) simp_all
  qed
qed

definition nan_finding :: core_finding where
  "nan_finding =
     \<lparr>cfFingerprint = [], cfModule = [], cfCheck = ''c'', cfTitle = ''t'', cfTarget = [], cfSeverity = ''low'',
      cfStatus = [], cfRemediation = [], cfEvidence = Some [(''x'', GFloat ''NaN'')]\<rparr>"

lemma nan_fails:
  "NewFindingPacket ''p'' ''en'' nan_finding = Inl (''aiclient: marshal finding: '' @ marshal_error)"
proof -
  have "map_runes lower_rune ''x'' = ''x''"
    by (intro map_runes_ascii_id) (simp add: lower_rune_def byte_def)
  then have "\<not> isSecretKey ''x''"
    by (simp add: isSecretKey_def Let_def secretKeyMarkers_def has_prefix_def)
  then have "core_finding_json (sanitized_finding nan_finding) = None"
    by (simp add: core_finding_json_None sanitized_finding_def nan_finding_def SanitizeEvidence_def
        sanitizeMap_def kept_entries_def maxEvidenceKeys_def finite_float_def)
  moreover have "trim_space ''p'' = ''p''" "trim_space ''c'' = ''c''" "trim_space ''t'' = ''t''"
      "trim_space ''low'' = ''low''"
    by (intro trim_space_id; simp add: printable_def byte_def)+
  ultimately show ?thesis by (simp add: NewFindingPacket_def nan_finding_def)
qed

end
