(* ===== verification/Go_Float.thy ===== *)
theory Go_Float
  imports Complex_Main "HOL-Library.Log_Nat"
begin

text \<open>
  \<open>float64\<close> arithmetic on the values the program computes with: a finite float is its rational
  value, and an operation is the exact rational operation followed by \<open>rn\<close>, rounding to 53 bits,
  ties to even. No value of the program comes near the largest float; an exponent below the
  smallest one would be rounded more coarsely, which no result here depends on. The lemmas: \<open>rn\<close>
  is monotone and leaves every number of at most 53 bits alone, which is what bounds on computed
  values need.
\<close>

definition round_half_even :: "rat \<Rightarrow> int" where
  "round_half_even x =
     (let f = \<lfloor>x\<rfloor>; r = x - of_int f
      in if r < 1/2 then f else if r > 1/2 then f + 1 else if even f then f else f + 1)"

text \<open>The exponent of a positive number: the floor of its logarithm to base 2.\<close>

definition ilog2 :: "rat \<Rightarrow> int" where
  "ilog2 x =
     (let (p, q) = quotient_of x; e = int (floorlog 2 (nat p)) - int (floorlog 2 (nat q))
      in if x \<ge> 2 powi e then e else e - 1)"

definition rn :: "rat \<Rightarrow> rat" where
  "rn x =
     (if x = 0 then 0
      else let u = 2 powi (ilog2 \<bar>x\<bar> - 52)
           in sgn x * of_int (round_half_even (\<bar>x\<bar> / u)) * u)"

text \<open>Conversion of a float to an integer drops the fraction.\<close>

definition trunc :: "rat \<Rightarrow> int" where
  "trunc x = (if x \<ge> 0 then \<lfloor>x\<rfloor> else \<lceil>x\<rceil>)"

subsection \<open>Rounding\<close>

lemma round_half_even_int [simp]: "round_half_even (of_int i) = i"
  by (simp add: round_half_even_def)

lemma round_half_even_bounds: "\<lfloor>x\<rfloor> \<le> round_half_even x" "round_half_even x \<le> \<lfloor>x\<rfloor> + 1"
  by (auto simp: round_half_even_def Let_def)

lemma round_half_even_mono:
  assumes "x \<le> y"
  shows "round_half_even x \<le> round_half_even y"
proof (cases "\<lfloor>x\<rfloor> = \<lfloor>y\<rfloor>")
  case True
  with assms show ?thesis by (auto simp: round_half_even_def Let_def)
next
  case False
  then have "\<lfloor>x\<rfloor> + 1 \<le> \<lfloor>y\<rfloor>" using floor_mono [OF assms] by linarith
  then show ?thesis
    using round_half_even_bounds(2) [of x] round_half_even_bounds(1) [of y] by linarith
qed

subsection \<open>The exponent\<close>

lemma floorlog_int:
  assumes "0 < (p :: int)"
  shows "0 < floorlog 2 (nat p)" "(2 :: rat) ^ (floorlog 2 (nat p) - 1) \<le> of_int p"
    "(of_int p :: rat) < 2 ^ floorlog 2 (nat p)"
proof -
  let ?n = "nat p"
  have n: "0 < ?n" "of_int p = (of_nat ?n :: rat)" using assms by simp_all
  note b = floorlog_bounds [of ?n 2, OF n(1)]
  show "0 < floorlog 2 ?n" using assms by (simp add: floorlog_def)
  have "of_nat (2 ^ (floorlog 2 ?n - 1)) \<le> (of_nat ?n :: rat)" using b by (intro of_nat_mono) simp
  then show "(2 :: rat) ^ (floorlog 2 (nat p) - 1) \<le> of_int p" unfolding n(2) by simp
  have "(of_nat ?n :: rat) < of_nat (2 ^ floorlog 2 ?n)" using b by (simp only: of_nat_less_iff)
  then show "(of_int p :: rat) < 2 ^ floorlog 2 (nat p)" unfolding n(2) by simp
qed

lemma powi_div: "(2 :: rat) ^ a / 2 ^ b = 2 powi (int a - int b)"
  by (simp add: power_int_diff)

lemma powi_unit:
  "(2 :: rat) powi e = 2 ^ 52 * 2 powi (e - 52)" "(2 :: rat) powi (e + 1) = 2 ^ 53 * 2 powi (e - 52)"
proof -
  have "e = 52 + (e - 52)" "e + 1 = 53 + (e - 52)" by simp_all
  then show "(2 :: rat) powi e = 2 ^ 52 * 2 powi (e - 52)"
    "(2 :: rat) powi (e + 1) = 2 ^ 53 * 2 powi (e - 52)"
    by (metis power_int_add power_int_numeral zero_neq_numeral)+
qed

lemma ilog2_bounds:
  assumes "0 < x"
  shows "2 powi ilog2 x \<le> x" "x < 2 powi (ilog2 x + 1)"
proof -
  obtain p q where pq: "quotient_of x = (p, q)" by (cases "quotient_of x")
  have q: "0 < q" using quotient_of_denom_pos [OF pq] .
  have x: "x = of_int p / of_int q" using quotient_of_div [OF pq] .
  have p: "0 < p" using assms q x by (simp add: zero_less_divide_iff)
  define a b where ab: "a = floorlog 2 (nat p)" "b = floorlog 2 (nat q)"
  note A = floorlog_int [OF p, folded ab] and B = floorlog_int [OF q, folded ab]
  let ?e = "int a - int b"
  have "x < 2 ^ a / 2 ^ (b - 1)"
    unfolding x using A B p q by (intro frac_less) simp_all
  also have "\<dots> = 2 powi (?e + 1)"
    using B(1) by (simp add: powi_div of_nat_diff algebra_simps)
  finally have up: "x < 2 powi (?e + 1)" .
  have "2 ^ (a - 1) / 2 ^ b < x"
    unfolding x using A B p q by (intro frac_less2) simp_all
  moreover have "2 ^ (a - 1) / 2 ^ b = (2 :: rat) powi (?e - 1)"
    using A(1) by (simp add: powi_div of_nat_diff algebra_simps)
  ultimately have lo: "2 powi (?e - 1) < x" by simp
  have "ilog2 x = (if x \<ge> 2 powi ?e then ?e else ?e - 1)"
    by (simp add: ilog2_def pq ab Let_def)
  with up lo show "2 powi ilog2 x \<le> x" "x < 2 powi (ilog2 x + 1)"
    by (auto split: if_splits)
qed

lemma ilog2_unique:
  assumes "2 powi e \<le> x" "x < 2 powi (e + 1)"
  shows "ilog2 x = e"
proof -
  have x: "0 < x" using assms(1) by (rule less_le_trans [rotated]) simp
  have "(2 :: rat) powi e < 2 powi (ilog2 x + 1)" "(2 :: rat) powi ilog2 x < 2 powi (e + 1)"
    using assms ilog2_bounds [OF x] by (meson le_less_trans)+
  then have "e < ilog2 x + 1" "ilog2 x < e + 1"
    using power_int_increasing [of _ _ "2 :: rat"] by (meson linorder_not_less one_le_numeral)+
  then show ?thesis by simp
qed

lemma ilog2_mono: "0 < x \<Longrightarrow> x \<le> y \<Longrightarrow> ilog2 x \<le> ilog2 y"
proof (rule ccontr)
  assume a: "0 < x" "x \<le> y" "\<not> ilog2 x \<le> ilog2 y"
  then have "(2 :: rat) powi (ilog2 y + 1) \<le> 2 powi ilog2 x"
    by (intro power_int_increasing) simp_all
  with a ilog2_bounds(1) [of x] ilog2_bounds(2) [of y] show False by linarith
qed

subsection \<open>Rounding to 53 bits\<close>

lemma rn_0 [simp]: "rn 0 = 0"
  by (simp add: rn_def)

lemma rn_minus: "rn (- x) = - rn x"
  by (simp add: rn_def Let_def)

lemma rn_pos:
  assumes "0 < x"
  shows "rn x = of_int (round_half_even (x / 2 powi (ilog2 x - 52))) * 2 powi (ilog2 x - 52)"
  using assms by (simp add: rn_def Let_def)

lemma significand_bounds:
  assumes "0 < x"
  shows "2 ^ 52 \<le> x / 2 powi (ilog2 x - 52)" "x / 2 powi (ilog2 x - 52) < 2 ^ 53"
proof -
  have "(2 :: rat) powi ilog2 x = 2 ^ 52 * 2 powi (ilog2 x - 52)"
    "(2 :: rat) powi (ilog2 x + 1) = 2 ^ 53 * 2 powi (ilog2 x - 52)"
    by (rule powi_unit)+
  with ilog2_bounds [OF assms] show "2 ^ 52 \<le> x / 2 powi (ilog2 x - 52)"
    "x / 2 powi (ilog2 x - 52) < 2 ^ 53"
    by (simp_all add: pos_le_divide_eq pos_divide_less_eq)
qed

lemma rn_bounds:
  assumes "0 < x"
  shows "2 powi ilog2 x \<le> rn x" "rn x \<le> 2 powi (ilog2 x + 1)"
proof -
  let ?u = "(2 :: rat) powi (ilog2 x - 52)" and ?r = "round_half_even (x / 2 powi (ilog2 x - 52))"
  have "2 ^ 52 \<le> \<lfloor>x / ?u\<rfloor>" "\<lfloor>x / ?u\<rfloor> < 2 ^ 53"
    using significand_bounds [OF assms] by (simp_all add: le_floor_iff floor_less_iff)
  then have "2 ^ 52 \<le> ?r" "?r \<le> 2 ^ 53" using round_half_even_bounds [of "x / ?u"] by linarith+
  then have "(of_int (2 ^ 52) :: rat) * ?u \<le> of_int ?r * ?u" "of_int ?r * ?u \<le> (of_int (2 ^ 53) :: rat) * ?u"
    by (intro mult_right_mono, simp_all only: of_int_le_iff, simp)+
  moreover have "(2 :: rat) powi ilog2 x = 2 ^ 52 * ?u" "(2 :: rat) powi (ilog2 x + 1) = 2 ^ 53 * ?u"
    by (rule powi_unit)+
  ultimately show "2 powi ilog2 x \<le> rn x" "rn x \<le> 2 powi (ilog2 x + 1)"
    unfolding rn_pos [OF assms] by simp_all
qed

lemma rn_mono_pos:
  assumes "0 < x" "x \<le> y"
  shows "rn x \<le> rn y"
proof (cases "ilog2 x = ilog2 y")
  case True
  have "round_half_even (x / 2 powi (ilog2 y - 52)) \<le> round_half_even (y / 2 powi (ilog2 y - 52))"
    using assms(2) by (intro round_half_even_mono divide_right_mono) simp_all
  then show ?thesis
    using assms True by (simp add: rn_pos mult_right_mono)
next
  case False
  then have "ilog2 x + 1 \<le> ilog2 y" using ilog2_mono [OF assms] by simp
  then have "(2 :: rat) powi (ilog2 x + 1) \<le> 2 powi ilog2 y" by (intro power_int_increasing) simp_all
  then show ?thesis using rn_bounds(2) [of x] rn_bounds(1) [of y] assms by linarith
qed

lemma rn_nonneg: "0 \<le> x \<Longrightarrow> 0 \<le> rn x"
proof (cases "x = 0")
  case False
  assume "0 \<le> x"
  with False have "0 < x" by simp
  from rn_bounds(1) [OF this] show ?thesis by (meson order_trans zero_le_numeral zero_le_power_int)
qed simp

lemma rn_mono: "x \<le> y \<Longrightarrow> rn x \<le> rn y"
proof -
  assume le: "x \<le> y"
  consider "0 < x" | "x \<le> 0" "0 \<le> y" | "y < 0" by linarith
  then show ?thesis
  proof cases
    case 1
    with le show ?thesis by (intro rn_mono_pos)
  next
    case 2
    then have "0 \<le> rn (- x)" "0 \<le> rn y" by (simp_all add: rn_nonneg)
    then show ?thesis by (simp add: rn_minus)
  next
    case 3
    then have "rn (- y) \<le> rn (- x)" using le by (intro rn_mono_pos) simp_all
    then show ?thesis by (simp add: rn_minus)
  qed
qed

text \<open>A number of at most 53 bits is a float.\<close>

lemma rn_exact_pos:
  assumes "0 < m" "m < 2 ^ 53" "x = of_int m * 2 powi e"
  shows "rn x = x"
proof -
  have x: "0 < x" using assms by simp
  have "x < 2 ^ 53 * 2 powi e"
    unfolding assms(3) using assms(2) by (intro mult_strict_right_mono) (simp_all flip: of_int_less_iff)
  also have "\<dots> = 2 powi (53 + e)" using power_int_add [of "2 :: rat" 53 e] by simp
  finally have "(2 :: rat) powi ilog2 x < 2 powi (53 + e)"
    using ilog2_bounds(1) [OF x] by linarith
  then have "ilog2 x < 53 + e"
    using power_int_increasing [of "53 + e" "ilog2 x" "2 :: rat"] by linarith
  then obtain k where k: "e = (ilog2 x - 52) + int k"
    using zle_iff_zadd [of "ilog2 x - 52" e] by auto
  have "(2 :: rat) powi e = 2 powi (ilog2 x - 52) * 2 ^ k"
    unfolding k by (subst power_int_add) simp_all
  then have "x / 2 powi (ilog2 x - 52) = of_int (m * 2 ^ k)"
    unfolding assms(3) [symmetric] using assms(3) by (simp add: field_simps)
  then show ?thesis
    unfolding rn_pos [OF x] by (metis (no_types) nonzero_eq_divide_eq power_int_not_zero
        round_half_even_int zero_neq_numeral)
qed

lemma rn_exact:
  assumes "\<bar>m\<bar> \<le> 2 ^ 53" "x = of_int m * 2 powi e"
  shows "rn x = x"
proof -
  have pos: "rn y = y" if "0 < n" "n \<le> 2 ^ 53" "y = of_int n * 2 powi e" for n y
  proof (cases "n = 2 ^ 53")
    case True
    have "y = of_int 1 * 2 powi (53 + e)"
      unfolding that(3) True using power_int_add [of "2 :: rat" 53 e] by simp
    then show ?thesis by (intro rn_exact_pos [of 1]) simp_all
  next
    case False
    with that show ?thesis by (intro rn_exact_pos [of n]) simp_all
  qed
  consider "m = 0" | "0 < m" | "m < 0" by linarith
  then show ?thesis
  proof cases
    case 3
    have "rn (- x) = - x" using assms 3 by (intro pos [of "- m"]) simp_all
    then show ?thesis by (simp add: rn_minus)
  qed (use assms pos in auto)
qed

lemma rn_of_int: "\<bar>i\<bar> \<le> 2 ^ 53 \<Longrightarrow> rn (of_int i) = of_int i"
  by (rule rn_exact [of i _ 0]) simp_all

end
