(* ===== verification/Go_Strconv.thy ===== *)
theory Go_Strconv
  imports Go_Float Go_Utf8
begin

text \<open>
  Numbers as JSON and \<open>strconv\<close> write them. \<open>lex_number\<close> is the grammar of a JSON number,
  \<open>number_value\<close> the exact value of one, \<open>parse_float\<close> the \<open>float64\<close> that \<open>strconv.ParseFloat\<close> makes
  of it (\<open>None\<close> out of range), and \<open>float_text\<close> the text of a \<open>float64\<close> in JSON: the shortest
  decimal that is read back as the same float, and of those the one closest to it.

  The lemmas: a float's text is a number of the grammar and is read back as the float, so the search
  for the shortest one never runs out; an integer below \<open>2^53\<close> is printed as its decimal digits.
\<close>

subsection \<open>Number literals\<close>

text \<open>The integer part, the fraction and the exponent of a number, each with what follows it.\<close>

definition lex_digits :: "string \<Rightarrow> (string \<times> string) option" where
  "lex_digits s =
     (if takeWhile is_digit s = [] then None else Some (takeWhile is_digit s, dropWhile is_digit s))"

definition lex_int :: "string \<Rightarrow> (string \<times> string) option" where
  "lex_int s = (if take 1 s = ''0'' then Some (''0'', drop 1 s) else lex_digits s)"

definition lex_sign :: "string \<Rightarrow> string \<Rightarrow> string \<times> string" where
  "lex_sign signs s = (case s of c # t \<Rightarrow> if c \<in> set signs then ([c], t) else ([], s) | [] \<Rightarrow> ([], s))"

definition lex_frac :: "string \<Rightarrow> (string \<times> string) option" where
  "lex_frac s =
     (if take 1 s = ''.'' then map_option (apfst (append ''.'')) (lex_digits (drop 1 s))
      else Some ([], s))"

definition lex_exp :: "string \<Rightarrow> (string \<times> string) option" where
  "lex_exp s =
     (case s of
        c # t \<Rightarrow>
          (if c = CHR ''e'' \<or> c = CHR ''E'' then
             (let (sg, u) = lex_sign ''+-'' t
              in map_option (apfst (append (c # sg))) (lex_digits u))
           else Some ([], s))
      | [] \<Rightarrow> Some ([], s))"

definition lex_number :: "string \<Rightarrow> (string \<times> string) option" where
  "lex_number s =
     (let (sg, s1) = lex_sign ''-'' s
      in case lex_int s1 of
           None \<Rightarrow> None
         | Some (i, s2) \<Rightarrow>
             (case lex_frac s2 of
                None \<Rightarrow> None
              | Some (f, s3) \<Rightarrow> map_option (apfst (\<lambda>e. sg @ i @ f @ e)) (lex_exp s3)))"

lemma lex_digits_split: "lex_digits s = Some (t, r) \<Longrightarrow> s = t @ r \<and> t \<noteq> []"
  by (auto simp: lex_digits_def split: if_splits)

lemma lex_sign_split: "lex_sign sg s = (t, r) \<Longrightarrow> s = t @ r"
  by (auto simp: lex_sign_def split: list.splits if_splits)

lemma take1_eq: "take (Suc 0) s = [c] \<Longrightarrow> drop (Suc 0) s = t \<Longrightarrow> s = c # t"
  by (cases s) auto

lemma lex_int_split: "lex_int s = Some (t, r) \<Longrightarrow> s = t @ r \<and> t \<noteq> []"
  by (auto simp: lex_int_def split: if_splits dest: take1_eq [OF _ refl] lex_digits_split)

lemma lex_frac_split: "lex_frac s = Some (t, r) \<Longrightarrow> s = t @ r"
  by (auto simp: lex_frac_def split: if_splits dest!: lex_digits_split intro: take1_eq)

lemma lex_exp_split: "lex_exp s = Some (t, r) \<Longrightarrow> s = t @ r"
  by (auto simp: lex_exp_def split: list.splits if_splits prod.splits
      dest!: lex_digits_split lex_sign_split)

lemma lex_number_split: "lex_number s = Some (t, r) \<Longrightarrow> s = t @ r \<and> t \<noteq> []"
  by (auto simp: lex_number_def split: option.splits prod.splits
      dest!: lex_sign_split lex_int_split lex_frac_split lex_exp_split)


subsection \<open>Reading\<close>

definition digits_value :: "string \<Rightarrow> nat" where
  "digits_value s = foldl (\<lambda>n c. n * 10 + (byte c - 48)) 0 s"

definition exp_value :: "string \<Rightarrow> int" where
  "exp_value s =
     (let (sg, ds) = lex_sign ''+-'' s
      in if sg = ''-'' then - int (digits_value ds) else int (digits_value ds))"

definition decimal_value :: "string \<Rightarrow> string \<Rightarrow> int \<Rightarrow> rat" where
  "decimal_value i f e = of_nat (digits_value (i @ f)) * 10 powi (e - int (length f))"

text \<open>The absolute value of a literal, and its sign.\<close>

definition number_value :: "string \<Rightarrow> rat" where
  "number_value s =
     (let s1 = snd (lex_sign ''-'' s);
          i = takeWhile is_digit s1;
          r = dropWhile is_digit s1;
          dot = (take 1 r = ''.'');
          f = (if dot then takeWhile is_digit (drop 1 r) else []);
          r2 = (if dot then dropWhile is_digit (drop 1 r) else r)
      in decimal_value i f (if r2 = [] then 0 else exp_value (drop 1 r2)))"

definition negative :: "string \<Rightarrow> bool" where
  "negative s \<longleftrightarrow> take 1 s = ''-''"

text \<open>Rounding to a \<open>float64\<close>: subnormal numbers are multiples of \<open>2^-1074\<close>.\<close>

definition float_unit :: "rat \<Rightarrow> rat" where
  "float_unit x = 2 powi (max (ilog2 x - 52) (- 1074))"

definition rn64 :: "rat \<Rightarrow> rat option" where
  "rn64 x =
     (if x = 0 then Some 0
      else let y = of_int (round_half_even (x / float_unit x)) * float_unit x
           in if y < 2 ^ 1024 then Some y else None)"

definition parse_float :: "string \<Rightarrow> rat option" where
  "parse_float s = rn64 (number_value s)"

subsection \<open>Printing\<close>

definition reads_as :: "rat \<Rightarrow> int \<Rightarrow> int \<Rightarrow> bool" where
  "reads_as x k d \<longleftrightarrow> 0 < d \<and> rn64 (of_int d * 10 powi k) = Some x"

text \<open>A multiple of \<open>10^k\<close> that is read as \<open>x\<close>, the closest if there are two.\<close>

definition shortest_at :: "int \<Rightarrow> rat \<Rightarrow> int option" where
  "shortest_at k x =
     (let q = x / 10 powi k
      in if reads_as x k (round_half_even q) then Some (round_half_even q)
         else if reads_as x k \<lfloor>q\<rfloor> then Some \<lfloor>q\<rfloor>
         else if reads_as x k \<lceil>q\<rceil> then Some \<lceil>q\<rceil>
         else None)"

primrec shortest_from :: "nat \<Rightarrow> int \<Rightarrow> rat \<Rightarrow> (int \<times> int) option" where
  "shortest_from 0 k x = None"
| "shortest_from (Suc n) k x =
     (case shortest_at k x of Some d \<Rightarrow> Some (d, k) | None \<Rightarrow> shortest_from n (k - 1) x)"

text \<open>The largest float has 309 digits, and every float is a multiple of \<open>10^-1074\<close>.\<close>

definition shortest :: "rat \<Rightarrow> (int \<times> int) option" where
  "shortest x = shortest_from 1400 (int (length (decimal (nat \<lfloor>x\<rfloor>)))) x"

text \<open>The digits \<open>ds\<close> with the decimal point before the digit number \<open>dp\<close>.\<close>

definition format_f :: "string \<Rightarrow> int \<Rightarrow> string" where
  "format_f ds dp =
     (if dp \<le> 0 then ''0.'' @ replicate (nat (- dp)) (CHR ''0'') @ ds
      else if int (length ds) \<le> dp then ds @ replicate (nat dp - length ds) (CHR ''0'')
      else take (nat dp) ds @ ''.'' @ drop (nat dp) ds)"

definition format_e :: "string \<Rightarrow> int \<Rightarrow> string" where
  "format_e ds dp =
     take 1 ds @ (if length ds = 1 then [] else ''.'' @ drop 1 ds)
     @ (if dp - 1 < 0 then ''e-'' @ decimal (nat (1 - dp)) else ''e+'' @ decimal (nat (dp - 1)))"

text \<open>The notation changes below the float \<open>1e-6\<close> and from \<open>1e21\<close>.\<close>

definition float_text :: "rat \<Rightarrow> string" where
  "float_text x =
     (if x = 0 then ''0''
      else case shortest x of
             None \<Rightarrow> []
           | Some (d, k) \<Rightarrow>
               (let ds = decimal (nat d); dp = int (length ds) + k
                in if x < rn (1 / 10 ^ 6) \<or> 10 ^ 21 \<le> x then format_e ds dp else format_f ds dp))"

text \<open>A literal as the float it is read as is printed.\<close>

definition number_text :: "string \<Rightarrow> string option" where
  "number_text s =
     map_option (\<lambda>x. (if negative s then ''-'' else []) @ float_text x) (parse_float s)"

subsection \<open>Floats\<close>

lemma rn64_0 [simp]: "rn64 0 = Some 0"
  by (simp add: rn64_def)

lemma float_unit_pos [simp]: "0 < float_unit x"
  by (simp add: float_unit_def)

lemma powi_split:
  assumes "a \<le> b"
  obtains k where "(2 :: rat) powi b = of_int (2 ^ k) * 2 powi a" "b = a + int k"
proof -
  obtain k where k: "b = a + int k" using assms zle_iff_zadd [of a b] by auto
  have "(2 :: rat) powi b = of_int (2 ^ k) * 2 powi a"
    unfolding k by (subst power_int_add) simp_all
  with k that show thesis by blast
qed

lemma unit_quotient: "a * float_unit x = y \<Longrightarrow> y / float_unit x = a"
  using float_unit_pos [of x] by (auto simp: less_le)

text \<open>The numbers that are floats: at most 53 bits above \<open>2^-1074\<close>.\<close>

lemma rn64_exact:
  assumes n: "0 < n" "n \<le> 2 ^ 53" and e: "- 1074 \<le> e" and x: "x = of_int n * 2 powi e" "x < 2 ^ 1024"
  shows "rn64 x = Some x"
proof -
  have pos: "0 < x" using n x by simp
  have "\<exists>m. x / float_unit x = of_int m"
  proof (cases "ilog2 x - 52 \<le> e")
    case True
    with e have "max (ilog2 x - 52) (- 1074) \<le> e" by simp
    from powi_split [OF this] obtain k where k: "(2 :: rat) powi e = of_int (2 ^ k) * float_unit x"
      unfolding float_unit_def by blast
    have "of_int (n * 2 ^ k) * float_unit x = of_int n * 2 powi e"
      by (simp only: k of_int_mult mult.assoc)
    then have "of_int (n * 2 ^ k) * float_unit x = x" by (simp only: x(1) [symmetric])
    then have "x / float_unit x = of_int (n * 2 ^ k)" by (rule unit_quotient)
    then show ?thesis ..
  next
    case False
    then have "(2 :: rat) powi (53 + e) \<le> 2 powi ilog2 x"
      by (intro power_int_increasing) simp_all
    also have "\<dots> \<le> x" by (rule ilog2_bounds(1) [OF pos])
    finally have "(2 :: rat) ^ 53 * 2 powi e \<le> of_int n * 2 powi e"
      using power_int_add [of "2 :: rat" 53 e] x(1) by simp
    then have "(2 :: rat) ^ 53 \<le> of_int n" by simp
    then have "of_int (2 ^ 53) \<le> (of_int n :: rat)" by simp
    then have n': "n = 2 ^ 53" using n(2) by (simp only: of_int_le_iff)
    then have x': "x = 2 powi (53 + e)" using x(1) power_int_add [of "2 :: rat" 53 e] by simp
    have "ilog2 x = 53 + e"
      by (rule ilog2_unique) (simp_all add: x' power_int_add)
    then have "float_unit x = 2 powi (1 + e)" using e by (simp add: float_unit_def)
    then have "x / float_unit x = of_int (2 ^ 52)"
      unfolding x' by (simp add: power_int_add)
    then show ?thesis ..
  qed
  then obtain m where m: "x / float_unit x = of_int m" ..
  then have "of_int m * float_unit x = x" using float_unit_pos [of x] by (simp add: field_simps)
  then show ?thesis using x(2) pos by (simp add: rn64_def m)
qed

lemma rn64_form:
  assumes "rn64 y = Some x" "0 < y"
  shows "0 \<le> x \<and> (x = 0 \<or> (\<exists>n e. 0 < n \<and> n \<le> 2 ^ 53 \<and> - 1074 \<le> e \<and> x = of_int n * 2 powi e \<and> x < 2 ^ 1024))"
proof -
  let ?u = "float_unit y" and ?n = "round_half_even (y / float_unit y)"
  have x: "x = of_int ?n * ?u" "x < 2 ^ 1024"
    using assms by (auto simp: rn64_def Let_def split: if_splits)
  have "0 \<le> y / ?u" using assms(2) float_unit_pos [of y] by (simp add: less_imp_le)
  then have n0: "0 \<le> ?n" using round_half_even_mono [of 0 "y / ?u"] round_half_even_int [of 0] by simp
  have "y / ?u \<le> y / 2 powi (ilog2 y - 52)"
    using assms(2) unfolding float_unit_def
    by (intro divide_left_mono power_int_increasing mult_pos_pos) simp_all
  also have "\<dots> < 2 ^ 53" by (rule significand_bounds(2) [OF assms(2)])
  finally have "y / ?u \<le> of_int (2 ^ 53)" by simp
  from round_half_even_mono [OF this] have n1: "?n \<le> 2 ^ 53" by (simp only: round_half_even_int)
  show ?thesis
  proof (cases "?n = 0")
    case True
    then show ?thesis using x by simp
  next
    case False
    have "x = of_int ?n * 2 powi (max (ilog2 y - 52) (- 1074))" using x(1) by (simp add: float_unit_def)
    moreover have "- 1074 \<le> max (ilog2 y - 52) (- 1074)" by simp
  moreover have "0 \<le> x" unfolding x(1) using n0 by (intro mult_nonneg_nonneg) (simp_all add: less_imp_le)
    ultimately show ?thesis using False n0 n1 x(2)
      by (metis less_le)
  qed
qed

definition is_float :: "rat \<Rightarrow> bool" where
  "is_float x \<longleftrightarrow> 0 \<le> x \<and> rn64 x = Some x"

lemma is_float_0 [simp]: "is_float 0"
  by (simp add: is_float_def)

lemma rn64_float: "rn64 y = Some x \<Longrightarrow> 0 \<le> y \<Longrightarrow> is_float x"
proof (cases "y = 0")
  case False
  assume a: "rn64 y = Some x" "0 \<le> y"
  with False have y: "0 < y" by simp
  have "x = 0 \<or> rn64 x = Some x"
    using rn64_form [OF a(1) y] rn64_exact by blast
  then show ?thesis using rn64_form [OF a(1) y] by (auto simp: is_float_def)
qed simp

lemma float_form:
  assumes "is_float x" "x \<noteq> 0"
  obtains n e where "0 < n" "n \<le> 2 ^ 53" "- 1074 \<le> e" "x = of_int n * 2 powi e" "x < 2 ^ 1024"
  using assms rn64_form [of x x] by (auto simp: is_float_def)

subsection \<open>The shortest decimal exists\<close>

lemma shortest_at_exact:
  assumes "is_float x" "x \<noteq> 0" "x = of_int d * 10 powi k"
  shows "shortest_at k x = Some d"
proof -
  have "x / 10 powi k = of_int d" using assms(3) by simp
  moreover have "0 < x" using assms(1,2) by (simp add: is_float_def)
  then have "0 < d" unfolding assms(3) using zero_less_mult_pos2 [of "of_int d :: rat" "10 powi k"] by simp
  then have "reads_as x k d" using assms(1,3) by (simp add: reads_as_def is_float_def)
  ultimately show ?thesis by (simp add: shortest_at_def)
qed

lemma two_powi_minus: "(2 :: rat) powi (- int m) = 5 ^ m * 10 powi (- int m)"
proof -
  have "(10 :: rat) ^ m = 2 ^ m * 5 ^ m" by (subst power_mult_distrib [symmetric]) simp
  then show ?thesis by (simp add: power_int_minus inverse_eq_divide)
qed

lemma floor_less_power: "x < 10 ^ m \<Longrightarrow> nat \<lfloor>x :: rat\<rfloor> < 10 ^ m"
proof -
  assume "x < 10 ^ m"
  then have "x < of_int (10 ^ m)" by simp
  then have "\<lfloor>x\<rfloor> < 10 ^ m" by (simp only: floor_less_iff)
  then have "nat \<lfloor>x\<rfloor> < nat (10 ^ m)" by (intro nat_mono_iff [THEN iffD2]) simp_all
  then show ?thesis by (simp add: nat_power_eq)
qed

lemma float_decimal:
  assumes "is_float x"
  shows "\<exists>d. x = of_int d * 10 powi (- 1074)"
proof (cases "x = 0")
  case False
  from float_form [OF assms False] obtain n e where x: "- 1074 \<le> e" "x = of_int n * 2 powi e" by metis
  from powi_split [OF x(1)] obtain k where k: "(2 :: rat) powi e = of_int (2 ^ k) * 2 powi (- 1074)"
    by metis
  have "(2 :: rat) powi (- 1074) = 5 ^ 1074 * 10 powi (- 1074)"
    using two_powi_minus [of 1074] by (simp only: of_nat_numeral)
  then have "x = of_int (n * 2 ^ k * 5 ^ 1074) * 10 powi (- 1074)"
    unfolding x(2) k by (simp only: of_int_mult of_int_power of_int_numeral mult.assoc)
  then show ?thesis ..
next
  case True
  then show ?thesis by (intro exI [of _ 0]) (simp only: of_int_0 mult_zero_left)
qed

lemma shortest_from_reads:
  "shortest_from n k x = Some (d, j) \<Longrightarrow> reads_as x j d \<and> j \<le> k"
  by (induction n arbitrary: k)
    (force simp: shortest_at_def Let_def split: option.splits if_splits)+

lemma shortest_from_finds:
  "shortest_at j x = Some d \<Longrightarrow> j \<le> k \<Longrightarrow> k < j + int n \<Longrightarrow> \<exists>r. shortest_from n k x = Some r"
proof (induction n arbitrary: k)
  case (Suc n)
  show ?case
  proof (cases "shortest_at k x")
    case None
    with Suc.prems have "j \<noteq> k" by auto
    with Suc.prems have "j \<le> k - 1" "k - 1 < j + int n" by auto
    from Suc.IH [OF Suc.prems(1) this] show ?thesis using None by simp
  qed simp
qed simp

lemma decimal_length: "n < 10 ^ m \<Longrightarrow> 0 < m \<Longrightarrow> length (decimal n) \<le> m"
proof (induction n arbitrary: m rule: decimal.induct)
  case (1 n)
  show ?case
  proof (cases "n < 10")
    case True
    then show ?thesis using 1 by (simp add: decimal.simps)
  next
    case False
    with "1.prems" have "m \<noteq> 1" by (metis power_one_right)
    with "1.prems" obtain m' where m: "m = Suc m'" "0 < m'" by (cases m) auto
    with "1.prems" have "n div 10 < 10 ^ m'" by (simp add: less_mult_imp_div_less mult.commute)
    from "1.IH" [OF False this m(2)] show ?thesis
      using False m by (subst decimal.simps) simp
  qed
qed

lemma shortest_some:
  assumes "is_float x" "x \<noteq> 0"
  shows "\<exists>d k. shortest x = Some (d, k) \<and> reads_as x k d"
proof -
  from float_decimal [OF assms(1)] obtain d where "x = of_int d * 10 powi (- 1074)" by blast
  from shortest_at_exact [OF assms this] have at: "shortest_at (- 1074) x = Some d" .
  from float_form [OF assms] have x: "x < 2 ^ 1024" by metis
  have "(2 :: rat) ^ 1024 < 10 ^ 309" by (simp only: power_numeral) simp
  with x have "x < 10 ^ 309" by (rule less_trans)
  from floor_less_power [OF this] have "nat \<lfloor>x\<rfloor> < 10 ^ 309" .
  from decimal_length [OF this] have "length (decimal (nat \<lfloor>x\<rfloor>)) \<le> 309" by simp
  then have "\<exists>r. shortest x = Some r"
    unfolding shortest_def by (intro shortest_from_finds [OF at]) simp_all
  then show ?thesis unfolding shortest_def using shortest_from_reads by fast
qed

subsection \<open>The text is read back\<close>

lemma digits_value_Nil [simp]: "digits_value [] = 0"
  by (simp add: digits_value_def)

lemma digits_value_snoc [simp]: "digits_value (s @ [c]) = digits_value s * 10 + (byte c - 48)"
  by (simp add: digits_value_def)

lemma digits_value_append: "digits_value (a @ b) = digits_value a * 10 ^ length b + digits_value b"
proof (induction b rule: rev_induct)
  case (snoc c b)
  have "digits_value (a @ b @ [c]) = digits_value (a @ b) * 10 + (byte c - 48)"
    using digits_value_snoc [of "a @ b" c] by simp
  then show ?case using snoc by (simp add: algebra_simps)
qed simp

lemma digits_value_zeros [simp]: "digits_value (replicate m (CHR ''0'')) = 0"
proof (induction m)
  case (Suc m)
  have "replicate (Suc m) (CHR ''0'') = replicate m (CHR ''0'') @ [CHR ''0'']"
    by (simp add: replicate_append_same)
  then show ?case using Suc by (simp only: digits_value_snoc) (simp add: byte_def)
qed simp

lemma byte_digit: "d < 10 \<Longrightarrow> byte (digit d) = 48 + d"
  by (simp add: digit_def)

lemma digits_value_decimal [simp]: "digits_value (decimal n) = n"
proof (induction n rule: decimal.induct)
  case (1 n)
  then show ?case
    by (subst decimal.simps) (simp add: byte_digit digits_value_def)
qed

definition all_digits :: "string \<Rightarrow> bool" where
  "all_digits s \<longleftrightarrow> (\<forall>c \<in> set s. is_digit c)"

lemma all_digits_append [simp]: "all_digits (a @ b) \<longleftrightarrow> all_digits a \<and> all_digits b"
  by (auto simp: all_digits_def)

lemma all_digits_decimal [simp]: "all_digits (decimal n)"
proof (induction n rule: decimal.induct)
  case (1 n)
  then show ?case
    by (subst decimal.simps) (auto simp: all_digits_def is_digit_def byte_digit less_Suc_eq_le [symmetric])
qed

lemma all_digits_zeros [simp]: "all_digits (replicate m (CHR ''0''))"
  by (simp add: all_digits_def is_digit_def byte_def)

lemma hd_decimal: "0 < n \<Longrightarrow> hd (decimal n) \<noteq> CHR ''0''"
proof (induction n rule: decimal.induct)
  case (1 n)
  show ?case
  proof (cases "n < 10")
    case True
    with 1 have "byte (digit n) \<noteq> byte (CHR ''0'')"
      by (simp only: byte_digit) (simp add: byte_def)
    with True show ?thesis by (subst decimal.simps) auto
  next
    case False
    with "1.IH" have "hd (decimal (n div 10)) \<noteq> CHR ''0''" by simp
    then show ?thesis using False by (subst decimal.simps) simp
  qed
qed

text \<open>What may follow a number without becoming a part of it.\<close>

definition ends_number :: "string \<Rightarrow> bool" where
  "ends_number s \<longleftrightarrow> (case s of [] \<Rightarrow> True | c # _ \<Rightarrow> \<not> is_digit c \<and> c \<notin> set ''.eE'')"

lemma ends_number_Nil [simp]: "ends_number []"
  by (simp add: ends_number_def)

lemma lex_digits_append:
  "lex_digits s = Some (t, r) \<Longrightarrow> ends_number u \<Longrightarrow> lex_digits (s @ u) = Some (t, r @ u)"
proof (cases "\<exists>c \<in> set s. \<not> is_digit c")
  case True
  then show "lex_digits s = Some (t, r) \<Longrightarrow> ends_number u \<Longrightarrow> lex_digits (s @ u) = Some (t, r @ u)"
    by (auto simp: lex_digits_def split: if_splits)
next
  case False
  assume a: "lex_digits s = Some (t, r)" "ends_number u"
  have "takeWhile is_digit u = []" "dropWhile is_digit u = u"
    using a(2) by (auto simp: ends_number_def split: list.splits)
  with False a(1) show "lex_digits (s @ u) = Some (t, r @ u)"
    by (auto simp: lex_digits_def takeWhile_append dropWhile_append takeWhile_eq_all_conv [THEN iffD2]
        split: if_splits)
qed

lemma lex_digits_all: "all_digits s \<Longrightarrow> s \<noteq> [] \<Longrightarrow> ends_number u \<Longrightarrow> lex_digits (s @ u) = Some (s, u)"
  using lex_digits_append [of s s "[]" u]
  by (simp add: lex_digits_def all_digits_def takeWhile_eq_all_conv [THEN iffD2])

lemma lex_int_append:
  "lex_int s = Some (t, r) \<Longrightarrow> ends_number u \<Longrightarrow> lex_int (s @ u) = Some (t, r @ u)"
proof (cases s)
  case (Cons c s')
  then show "lex_int s = Some (t, r) \<Longrightarrow> ends_number u \<Longrightarrow> lex_int (s @ u) = Some (t, r @ u)"
    using lex_digits_append [of s t r u] by (auto simp: lex_int_def split: if_splits)
qed (simp add: lex_int_def lex_digits_def)

lemma lex_frac_append:
  "lex_frac s = Some (t, r) \<Longrightarrow> ends_number u \<Longrightarrow> lex_frac (s @ u) = Some (t, r @ u)"
proof (cases s)
  case Nil
  assume "lex_frac s = Some (t, r)" "ends_number u"
  then show "lex_frac (s @ u) = Some (t, r @ u)"
    using Nil by (cases u) (auto simp: lex_frac_def ends_number_def)
next
  case (Cons c s')
  then show "lex_frac s = Some (t, r) \<Longrightarrow> ends_number u \<Longrightarrow> lex_frac (s @ u) = Some (t, r @ u)"
    using lex_digits_append [of s' _ r u] by (auto simp: lex_frac_def split: if_splits)
qed

lemma lex_sign_append: "s \<noteq> [] \<Longrightarrow> lex_sign sg (s @ u) = apsnd (\<lambda>r. r @ u) (lex_sign sg s)"
  by (cases s) (auto simp: lex_sign_def)

lemma lex_exp_append:
  "lex_exp s = Some (t, r) \<Longrightarrow> ends_number u \<Longrightarrow> lex_exp (s @ u) = Some (t, r @ u)"
proof (cases s)
  case Nil
  assume "lex_exp s = Some (t, r)" "ends_number u"
  then show "lex_exp (s @ u) = Some (t, r @ u)"
    using Nil by (cases u) (auto simp: lex_exp_def ends_number_def)
next
  case (Cons c s')
  assume a: "lex_exp s = Some (t, r)" "ends_number u"
  show "lex_exp (s @ u) = Some (t, r @ u)"
  proof (cases "c = CHR ''e'' \<or> c = CHR ''E''")
    case True
    obtain sg v where sv: "lex_sign ''+-'' s' = (sg, v)" by (cases "lex_sign ''+-'' s'")
    with a True Cons obtain ds where ds: "lex_digits v = Some (ds, r)" "t = c # sg @ ds"
      by (auto simp: lex_exp_def)
    have "s' \<noteq> []" using sv ds(1) by (auto simp: lex_sign_def lex_digits_def)
    with sv have "lex_sign ''+-'' (s' @ u) = (sg, v @ u)" by (simp add: lex_sign_append)
    with True Cons ds lex_digits_append [OF ds(1) a(2)] show ?thesis by (auto simp: lex_exp_def)
  qed (use a Cons in \<open>auto simp: lex_exp_def\<close>)
qed

lemma lex_number_append:
  assumes "lex_number s = Some (t, r)" "ends_number u"
  shows "lex_number (s @ u) = Some (t, r @ u)"
proof -
  obtain sg s1 where s1: "lex_sign ''-'' s = (sg, s1)" by (cases "lex_sign ''-'' s")
  obtain i s2 where s2: "lex_int s1 = Some (i, s2)"
    using assms s1 by (auto simp: lex_number_def split: option.splits)
  obtain f s3 where s3: "lex_frac s2 = Some (f, s3)"
    using assms s1 s2 by (auto simp: lex_number_def split: option.splits)
  obtain e where e: "lex_exp s3 = Some (e, r)" "t = sg @ i @ f @ e"
    using assms s1 s2 s3 by (auto simp: lex_number_def)
  have "s \<noteq> []" using s1 s2 by (auto simp: lex_sign_def lex_int_def lex_digits_def)
  with s1 have "lex_sign ''-'' (s @ u) = (sg, s1 @ u)" by (simp add: lex_sign_append)
  with lex_int_append [OF s2 assms(2)] lex_frac_append [OF s3 assms(2)] lex_exp_append [OF e(1) assms(2)]
  show ?thesis by (simp add: lex_number_def e(2))
qed

text \<open>A number put together from its parts: integer digits, fraction digits and exponent.\<close>

definition dotted :: "string \<Rightarrow> string" where
  "dotted f = (if f = [] then [] else CHR ''.'' # f)"

definition exponent_text :: "string \<Rightarrow> bool" where
  "exponent_text e \<longleftrightarrow> e = [] \<or> (\<exists>c ds. e = [CHR ''e'', c] @ ds \<and> c \<in> set ''+-'' \<and> all_digits ds \<and> ds \<noteq> [])"

definition int_text :: "string \<Rightarrow> bool" where
  "int_text i \<longleftrightarrow> i = ''0'' \<or> (all_digits i \<and> i \<noteq> [] \<and> hd i \<noteq> CHR ''0'')"

lemma is_digit_chars [simp]:
  "is_digit (CHR ''0'')" "\<not> is_digit (CHR ''.'')" "\<not> is_digit (CHR ''e'')" "\<not> is_digit (CHR ''-'')"
  "\<not> is_digit (CHR ''+'')"
  by (simp_all add: is_digit_def byte_def)

lemma all_digits_simps [simp]: "all_digits []" "all_digits (c # s) \<longleftrightarrow> is_digit c \<and> all_digits s"
  by (auto simp: all_digits_def)

lemma int_text_digits: "int_text i \<Longrightarrow> all_digits i \<and> i \<noteq> []"
  by (auto simp: int_text_def)

lemma exponent_tail: "exponent_text e \<Longrightarrow> e = [] \<or> (\<exists>e'. e = CHR ''e'' # e')"
  by (auto simp: exponent_text_def)

lemma span_digits:
  assumes "all_digits s" "r = [] \<or> (\<exists>c r'. r = c # r' \<and> \<not> is_digit c)"
  shows "takeWhile is_digit (s @ r) = s" "dropWhile is_digit (s @ r) = r"
  using assms by (auto simp: all_digits_def takeWhile_append dropWhile_append takeWhile_eq_all_conv [THEN iffD2])

lemma digit_not_minus: "all_digits s \<Longrightarrow> s \<noteq> [] \<Longrightarrow> lex_sign ''-'' (s @ r) = ([], s @ r)"
  by (cases s) (auto simp: lex_sign_def is_digit_def byte_def)

lemma lex_parts:
  assumes i: "int_text i" and f: "all_digits f" and e: "exponent_text e"
  shows "lex_number (i @ dotted f @ e) = Some (i @ dotted f @ e, [])"
    and "number_value (i @ dotted f @ e) = decimal_value i f (if e = [] then 0 else exp_value (drop 1 e))"
    and "lex_sign ''-'' (i @ dotted f @ e) = ([], i @ dotted f @ e)"
proof -
  let ?r = "dotted f @ e"
  show sign: "lex_sign ''-'' (i @ ?r) = ([], i @ ?r)"
    by (rule digit_not_minus) (use int_text_digits [OF i] in simp_all)
  have erest: "e = [] \<or> (\<exists>c r'. e = c # r' \<and> \<not> is_digit c)"
    using exponent_tail [OF e] is_digit_chars(3) by metis
  then have rest: "?r = [] \<or> (\<exists>c r'. ?r = c # r' \<and> \<not> is_digit c)"
    by (cases "f = []") (simp_all add: dotted_def)
  note span = span_digits [OF conjunct1 [OF int_text_digits [OF i]] rest]
  have int: "lex_int (i @ ?r) = Some (i, ?r)"
    using i span int_text_digits [OF i]
    by (cases i) (auto simp: int_text_def lex_int_def lex_digits_def simp del: append_assoc)
  note fspan = span_digits [OF f erest]
  have edot: "take 1 e \<noteq> ''.''" using exponent_tail [OF e] by (elim disjE exE) simp_all
  then have frac: "lex_frac ?r = Some (dotted f, e)"
    using fspan by (cases "f = []") (simp_all add: dotted_def lex_frac_def lex_digits_def)
  have ex: "lex_exp e = Some (e, [])"
    using e by (auto simp: exponent_text_def lex_exp_def lex_sign_def
        dest: lex_digits_all [of _ "[]", simplified])
  show "lex_number (i @ ?r) = Some (i @ ?r, [])"
    by (simp add: lex_number_def sign int frac ex)
  have dot: "take 1 ?r = ''.'' \<longleftrightarrow> f \<noteq> []"
    using edot by (cases "f = []") (simp_all add: dotted_def)
  show "number_value (i @ ?r) = decimal_value i f (if e = [] then 0 else exp_value (drop 1 e))"
    unfolding number_value_def Let_def sign snd_conv span dot
    by (cases "f = []") (simp_all add: dotted_def fspan)
qed

lemma int_text_decimal: "int_text (decimal n)"
proof (cases "n = 0")
  case True
  have "digit 0 = CHR ''0''" by (rule byte_inj) (simp only: byte_digit, simp add: byte_def)
  with True show ?thesis by (simp add: decimal.simps int_text_def)
next
  case False
  then show ?thesis using hd_decimal [of n] by (simp add: int_text_def)
qed

lemma all_digits_take: "all_digits s \<Longrightarrow> all_digits (take n s) \<and> all_digits (drop n s)"
  by (metis append_take_drop_id all_digits_append)

lemma int_text_prefix: "int_text (decimal n) \<Longrightarrow> 0 < n \<Longrightarrow> 0 < m \<Longrightarrow> int_text (take m (decimal n))"
  using hd_decimal [of n] all_digits_take [of "decimal n" m] by (simp add: int_text_def)

lemma format_f_read:
  assumes d: "0 < d" and ds: "ds = decimal d" and dp: "dp = int (length ds) + k"
  shows "lex_number (format_f ds dp) = Some (format_f ds dp, [])"
    and "number_value (format_f ds dp) = of_nat d * 10 powi k"
    and "lex_sign ''-'' (format_f ds dp) = ([], format_f ds dp)"
proof -
  note it = int_text_decimal [of d, folded ds]
  have "\<exists>i f. format_f ds dp = i @ dotted f \<and> int_text i \<and> all_digits f
      \<and> decimal_value i f 0 = of_nat d * 10 powi k"
  proof -
    consider "dp \<le> 0" | "0 < dp" "int (length ds) \<le> dp" | "0 < dp" "dp < int (length ds)" by linarith
    then show ?thesis
    proof cases
      case 1
      let ?f = "replicate (nat (- dp)) (CHR ''0'') @ ds"
      have "length ?f = nat (- k)" using 1 dp by simp
      moreover have "digits_value (''0'' @ ?f) = d"
        using digits_value_zeros [of "Suc (nat (- dp))"] ds
          digits_value_append [of "CHR ''0'' # replicate (nat (- dp)) (CHR ''0'')" ds] by simp
      moreover have "- int (nat (- k)) = k" using 1 dp by simp
      ultimately have "decimal_value ''0'' ?f 0 = of_nat d * 10 powi k" by (simp add: decimal_value_def)
      moreover have "format_f ds dp = ''0'' @ dotted ?f" using 1 ds by (simp add: format_f_def dotted_def)
      moreover have "all_digits ?f" using ds by simp
      moreover have "int_text ''0''" by (simp add: int_text_def)
      ultimately show ?thesis by blast
    next
      case 2
      let ?i = "ds @ replicate (nat k) (CHR ''0'')"
      have "digits_value ?i = d * 10 ^ nat k" by (simp add: digits_value_append ds)
      then have "decimal_value ?i [] 0 = of_nat d * 10 powi k"
        using 2 dp by (simp add: decimal_value_def power_int_def)
      moreover have "nat dp - length ds = nat k" using 2 dp by simp
      then have "format_f ds dp = ?i @ dotted []" using 2 by (simp add: format_f_def dotted_def)
      moreover have "int_text ?i" using d ds hd_decimal [of d] by (simp add: int_text_def)
      ultimately show ?thesis by (metis all_digits_simps(1))
    next
      case 3
      let ?i = "take (nat dp) ds" and ?f = "drop (nat dp) ds"
      have "decimal_value ?i ?f 0 = of_nat d * 10 powi k"
        using 3 dp by (simp add: decimal_value_def ds)
      moreover have "format_f ds dp = ?i @ dotted ?f"
        using 3 by (simp add: format_f_def dotted_def)
      moreover have "int_text ?i" using it d 3 int_text_prefix [of d "nat dp"] ds by simp
      moreover have "all_digits ?f" using all_digits_take [of ds] ds by simp
      ultimately show ?thesis by blast
    qed
  qed
  then obtain i f where "format_f ds dp = i @ dotted f @ []" "int_text i" "all_digits f"
    "decimal_value i f 0 = of_nat d * 10 powi k" by (metis append_Nil2)
  with lex_parts [of i f "[]"] show "lex_number (format_f ds dp) = Some (format_f ds dp, [])"
    "number_value (format_f ds dp) = of_nat d * 10 powi k"
    "lex_sign ''-'' (format_f ds dp) = ([], format_f ds dp)"
    by (simp_all add: exponent_text_def)
qed

lemma exp_value_text: "exp_value (CHR ''-'' # decimal n) = - int n" "exp_value (CHR ''+'' # decimal n) = int n"
  by (simp_all add: exp_value_def lex_sign_def)

lemma format_e_read:
  assumes d: "0 < d" and ds: "ds = decimal d" and dp: "dp = int (length ds) + k"
  shows "lex_number (format_e ds dp) = Some (format_e ds dp, [])"
    and "number_value (format_e ds dp) = of_nat d * 10 powi k"
    and "lex_sign ''-'' (format_e ds dp) = ([], format_e ds dp)"
proof -
  let ?e = "if dp - 1 < 0 then ''e-'' @ decimal (nat (1 - dp)) else ''e+'' @ decimal (nat (dp - 1))"
  have n: "0 < length ds" using ds by simp
  have e: "exponent_text ?e" by (auto simp: exponent_text_def)
  have ev: "exp_value (drop 1 ?e) = dp - 1" by (simp add: exp_value_text)
  have i: "int_text (take 1 ds)" using int_text_prefix [OF int_text_decimal d, of 1] ds by simp
  have f: "all_digits (drop 1 ds)" using all_digits_take [of ds 1] ds by simp
  have "length ds = 1 \<longleftrightarrow> drop 1 ds = []" using n by (cases ds) auto
  then have whole: "format_e ds dp = take 1 ds @ dotted (drop 1 ds) @ ?e"
    by (simp add: format_e_def dotted_def)
  have "int (length (drop 1 ds)) = int (length ds) - 1" using n by (cases ds) simp_all
  then have "decimal_value (take 1 ds) (drop 1 ds) (dp - 1) = of_nat d * 10 powi k"
    using dp by (simp add: decimal_value_def ds del: One_nat_def)
  with lex_parts [OF i f e] ev show "lex_number (format_e ds dp) = Some (format_e ds dp, [])"
    "number_value (format_e ds dp) = of_nat d * 10 powi k"
    "lex_sign ''-'' (format_e ds dp) = ([], format_e ds dp)"
    unfolding whole by (simp_all split: if_splits)
qed

text \<open>What a float is printed as is a number, and is read back as the float.\<close>

lemma float_text_read:
  assumes "is_float x"
  shows "lex_number (float_text x) = Some (float_text x, [])" "parse_float (float_text x) = Some x"
    "lex_sign ''-'' (float_text x) = ([], float_text x)"
proof -
  have "lex_number (float_text x) = Some (float_text x, []) \<and> parse_float (float_text x) = Some x
      \<and> lex_sign ''-'' (float_text x) = ([], float_text x)"
  proof (cases "x = 0")
    case True
    have "lex_number (''0'' @ dotted [] @ []) = Some (''0'' @ dotted [] @ [], [])"
      "number_value (''0'' @ dotted [] @ []) = decimal_value ''0'' [] 0"
      using lex_parts [of "''0''" "[]" "[]"] by (simp_all add: int_text_def exponent_text_def)
    then show ?thesis
      using True by (simp add: float_text_def parse_float_def dotted_def decimal_value_def
          digits_value_def byte_def lex_sign_def)
  next
    case False
    from shortest_some [OF assms this] obtain d k
      where dk: "shortest x = Some (d, k)" "reads_as x k d" by blast
    then have d: "0 < nat d" by (simp add: reads_as_def)
    have "lex_number (float_text x) = Some (float_text x, []) \<and>
        number_value (float_text x) = of_nat (nat d) * 10 powi k \<and>
        lex_sign ''-'' (float_text x) = ([], float_text x)"
      using format_f_read [OF d refl refl, of k] format_e_read [OF d refl refl, of k] False dk(1)
      by (simp add: float_text_def Let_def)
    then show ?thesis using d dk(2) by (simp add: parse_float_def reads_as_def)
  qed
  then show "lex_number (float_text x) = Some (float_text x, [])" "parse_float (float_text x) = Some x"
    "lex_sign ''-'' (float_text x) = ([], float_text x)" by blast+
qed

lemma number_value_nonneg: "0 \<le> number_value s"
  by (simp add: number_value_def decimal_value_def Let_def)

lemma parse_float_is_float: "parse_float s = Some x \<Longrightarrow> is_float x"
  unfolding parse_float_def using number_value_nonneg [of s] by (rule rn64_float [rotated])

lemma negative_number:
  assumes "lex_number s = Some (s, [])" "lex_sign ''-'' s = ([], s)"
  shows "lex_number (CHR ''-'' # s) = Some (CHR ''-'' # s, [])"
    and "number_value (CHR ''-'' # s) = number_value s"
proof -
  have "lex_sign ''-'' (CHR ''-'' # s) = (''-'', s)" by (simp add: lex_sign_def)
  with assms show "lex_number (CHR ''-'' # s) = Some (CHR ''-'' # s, [])"
    "number_value (CHR ''-'' # s) = number_value s"
    by (auto simp: lex_number_def number_value_def split: option.splits)
qed

lemma unsigned: "lex_sign ''-'' s = ([], s) \<Longrightarrow> \<not> negative s"
  by (cases s) (auto simp: lex_sign_def negative_def split: if_splits)

text \<open>Printing a number literal gives a literal that is printed as it is.\<close>

lemma number_text_stable:
  assumes "number_text s = Some t"
  shows "lex_number t = Some (t, []) \<and> number_text t = Some t"
proof -
  obtain x where x: "parse_float s = Some x" "t = (if negative s then ''-'' else []) @ float_text x"
    using assms by (auto simp: number_text_def)
  note f = parse_float_is_float [OF x(1)]
  note r = float_text_read [OF f]
  show ?thesis
  proof (cases "negative s")
    case True
    then have t: "t = CHR ''-'' # float_text x" using x(2) by simp
    have "negative t" by (simp add: t negative_def)
    moreover have "parse_float t = Some x"
      using negative_number(2) [of "float_text x"] r by (simp add: parse_float_def t)
    ultimately have "number_text t = Some t" by (simp add: number_text_def t)
    then show ?thesis using negative_number(1) [of "float_text x"] r t by simp
  next
    case False
    then have t: "t = float_text x" using x(2) by simp
    then show ?thesis using r unsigned by (simp add: number_text_def)
  qed
qed

subsection \<open>Integers\<close>

lemma rn64_int: "0 < i \<Longrightarrow> i \<le> 2 ^ 53 \<Longrightarrow> rn64 (of_int i) = Some (of_int i)"
proof -
  assume i: "0 < i" "i \<le> 2 ^ 53"
  then have "(of_int i :: rat) \<le> of_int (2 ^ 53)" by (simp only: of_int_le_iff)
  also have "\<dots> < 2 ^ 1024" by simp
  finally show ?thesis using rn64_exact [of i 0 "of_int i"] i by simp
qed

lemma rn64_large:
  assumes "2 ^ 53 < y" "rn64 y = Some x"
  shows "2 ^ 53 \<le> x"
proof -
  have y: "0 < y" using assms(1) by (rule less_trans [rotated]) simp
  have "(2 :: rat) powi 53 < 2 powi (ilog2 y + 1)"
    using assms(1) ilog2_bounds(2) [OF y] by simp
  then have l: "53 \<le> ilog2 y"
    using power_int_increasing [of "ilog2 y + 1" 53 "2 :: rat"] by (cases "53 \<le> ilog2 y") simp_all
  have "float_unit y = 2 powi (ilog2 y - 52)" using l by (simp add: float_unit_def)
  with assms(2) y have "x = rn y" by (simp add: rn64_def rn_pos Let_def split: if_splits)
  moreover have "2 powi 53 \<le> (2 :: rat) powi ilog2 y" using l by (intro power_int_increasing) simp_all
  ultimately show ?thesis using rn_bounds(1) [OF y] by simp
qed

lemma reads_as_int:
  assumes i: "0 < i" "i < 2 ^ 53" and k: "0 \<le> k" and r: "reads_as (of_int i) k d"
  shows "i = d * 10 ^ nat k"
proof -
  let ?c = "d * 10 ^ nat k"
  have c: "of_int d * 10 powi k = (of_int ?c :: rat)" using k by (simp add: power_int_def)
  then have rn: "rn64 (of_int ?c) = Some (of_int i)" "0 < ?c" using r by (simp_all add: reads_as_def)
  show ?thesis
  proof (cases "?c \<le> 2 ^ 53")
    case True
    from rn64_int [OF rn(2) this] rn(1) show ?thesis by (metis of_int_eq_iff option.inject)
  next
    case False
    then have "(of_int (2 ^ 53) :: rat) < of_int ?c" by (simp only: of_int_less_iff)
    then have "(2 :: rat) ^ 53 \<le> of_int i" using rn64_large [of "of_int ?c"] rn(1) by simp
    then have "of_int (2 ^ 53) \<le> (of_int i :: rat)" by simp
    then show ?thesis using i(2) by (simp only: of_int_le_iff)
  qed
qed

lemma decimal_times_ten: "0 < d \<Longrightarrow> decimal (d * 10 ^ m) = decimal d @ replicate m (CHR ''0'')"
proof (induction m)
  case (Suc m)
  have "digit 0 = CHR ''0''" by (rule byte_inj) (simp only: byte_digit, simp add: byte_def)
  then have "decimal (d * 10 ^ m * 10) = decimal (d * 10 ^ m) @ [CHR ''0'']"
    using Suc.prems by (subst decimal.simps) simp
  also have "\<dots> = decimal d @ replicate (Suc m) (CHR ''0'')"
    using Suc by (simp add: replicate_append_same)
  finally show ?case by (simp add: mult.commute mult.left_commute)
qed simp

lemma int_is_float: "0 \<le> i \<Longrightarrow> i \<le> 2 ^ 53 \<Longrightarrow> is_float (of_int i)"
  using rn64_int [of i] by (cases "i = 0") (simp_all add: is_float_def)

lemma float_text_int:
  assumes i: "0 < i" "i < 2 ^ 53"
  shows "float_text (of_int i) = decimal (nat i)"
proof -
  let ?x = "of_int i :: rat"
  have x: "is_float ?x" "?x \<noteq> 0" using int_is_float i by simp_all
  obtain d k where dk: "shortest ?x = Some (d, k)" "reads_as ?x k d" using shortest_some [OF x] by blast
  have d: "0 < d" using dk(2) by (simp add: reads_as_def)
  have "0 \<le> k"
  proof (rule ccontr)
    assume "\<not> 0 \<le> k"
    have at: "shortest_at 0 ?x = Some i" by (rule shortest_at_exact [OF x]) simp
    have stop: "0 \<le> j" if "shortest_from n m ?x = Some (e, j)" "0 \<le> m" for n m e j
      using that
    proof (induction n arbitrary: m)
      case (Suc n)
      show ?case
      proof (cases "shortest_at m ?x")
        case None
        with at have "m \<noteq> 0" by auto
        with Suc None show ?thesis by simp
      qed (use Suc in simp)
    qed simp
    have "0 \<le> k" using stop [of 1400 _ d k] dk(1) by (simp add: shortest_def)
    with \<open>\<not> 0 \<le> k\<close> show False ..
  qed
  from reads_as_int [OF i this dk(2)] have id: "i = d * 10 ^ nat k" .
  let ?ds = "decimal (nat d)"
  have "nat i = nat d * 10 ^ nat k" using id d by (simp add: nat_mult_distrib nat_power_eq)
  then have dec: "decimal (nat i) = ?ds @ replicate (nat k) (CHR ''0'')"
    using d by (simp add: decimal_times_ten)
  have "rn (1 / 10 ^ 6) \<le> rn (of_int 1)" by (rule rn_mono) simp
  then have "rn (1 / 10 ^ 6) \<le> 1" using rn_of_int [of 1] by simp
  moreover have "1 \<le> ?x" using i by simp
  ultimately have small: "\<not> ?x < rn (1 / 10 ^ 6)" by linarith
  have "?x < of_int (2 ^ 53)" using i(2) by (simp only: of_int_less_iff)
  then have "\<not> 10 ^ 21 \<le> ?x" by simp
  with small have "float_text ?x = format_f ?ds (int (length ?ds) + k)"
    using dk(1) x(2) by (simp add: float_text_def Let_def)
  also have "\<dots> = ?ds @ replicate (nat k) (CHR ''0'')"
  proof -
    have "0 < length ?ds" by simp
    then have "\<not> int (length ?ds) + k \<le> 0" using \<open>0 \<le> k\<close> by linarith
    then show ?thesis using \<open>0 \<le> k\<close> by (simp add: format_f_def nat_add_distrib)
  qed
  finally show ?thesis using dec by simp
qed

lemma number_text_itoa:
  assumes "\<bar>i\<bar> < 2 ^ 53"
  shows "number_text (itoa i) = Some (itoa i)"
proof -
  have lex: "lex_number (decimal n) = Some (decimal n, [])" "number_value (decimal n) = of_nat n" for n
    using lex_parts [OF int_text_decimal, of "[]" "[]" n]
    by (simp_all add: dotted_def exponent_text_def decimal_value_def)
  have uns: "lex_sign ''-'' (decimal n) = ([], decimal n)" "\<not> negative (decimal n)" for n
    using digit_not_minus [of "decimal n" "[]"] unsigned by simp_all
  have "digit 0 = CHR ''0''" by (rule byte_inj) (simp only: byte_digit, simp add: byte_def)
  then have "decimal 0 = ''0''" by (simp add: decimal.simps)
  then have pos: "rn64 (of_nat n) = Some (of_nat n) \<and> float_text (of_nat n) = decimal n"
    if "int n < 2 ^ 53" for n
    using that rn64_int [of "int n"] float_text_int [of "int n"]
    by (cases "n = 0") (simp_all add: float_text_def)
  show ?thesis
  proof (cases "i < 0")
    case True
    then have "int (nat (- i)) < 2 ^ 53" using assms by simp
    from pos [OF this] show ?thesis
      using True negative_number(2) [OF lex(1) uns(1), of "nat (- i)"] lex(2) [of "nat (- i)"]
      by (simp add: itoa_def number_text_def parse_float_def negative_def)
  next
    case False
    then have "int (nat i) < 2 ^ 53" using assms by simp
    from pos [OF this] show ?thesis
      using False lex(2) [of "nat i"] uns(2) [of "nat i"]
      by (simp add: itoa_def number_text_def parse_float_def)
  qed
qed

end
