(* ===== verification/Go_Json_Decode.thy ===== *)
theory Go_Json_Decode
  imports Go_Json Go_Strings Go_Strconv
begin

text \<open>
  \<open>json.Unmarshal\<close> and \<open>json.Decoder.Decode\<close>. Go's decoder scans the text with a machine that keeps
  the open brackets on a stack (at most \<open>max_nesting\<close> of them); \<open>json_read\<close> is that machine over
  tokens, and what it gives is the document \<open>json\<close>: the members of an object in the order of the
  text, duplicates included, a number as its text and a string with the literal it was written as.
  \<open>any_of\<close> is the value a document has when it is decoded into an \<open>any\<close>.

  The lemmas say that every token is taken off the front of the text, so reading ends.
\<close>

datatype json =
    JNull
  | JBool bool
  | JNum string
  | JStr string string
  | JArr "json list"
  | JObj "(string \<times> json) list"

subsection \<open>String literals\<close>

definition hex_value :: "char \<Rightarrow> nat option" where
  "hex_value c =
     (let b = byte c in
      if 48 \<le> b \<and> b \<le> 57 then Some (b - 48)
      else if 97 \<le> b \<and> b \<le> 102 then Some (b - 87)
      else if 65 \<le> b \<and> b \<le> 70 then Some (b - 55)
      else None)"

fun hex4 :: "string \<Rightarrow> (rune \<times> string) option" where
  "hex4 (a # b # c # d # s) =
     (case (hex_value a, hex_value b, hex_value c, hex_value d) of
        (Some w, Some x, Some y, Some z) \<Rightarrow> Some (((w * 16 + x) * 16 + y) * 16 + z, s)
      | _ \<Rightarrow> None)"
| "hex4 s = None"

definition surrogate :: "rune \<Rightarrow> bool" where
  "surrogate r \<longleftrightarrow> 55296 \<le> r \<and> r < 57344"

text \<open>\<open>utf16.DecodeRune\<close>, \<open>None\<close> for what is not a pair.\<close>

definition utf16_pair :: "rune \<Rightarrow> rune \<Rightarrow> rune option" where
  "utf16_pair r1 r2 =
     (if 55296 \<le> r1 \<and> r1 < 56320 \<and> 56320 \<le> r2 \<and> r2 < 57344
      then Some ((r1 - 55296) * 1024 + (r2 - 56320) + 65536) else None)"

definition low_half :: "string \<Rightarrow> (rune \<times> string) option" where
  "low_half s = (if take 2 s = [backslash, CHR ''u''] then hex4 (drop 2 s) else None)"

text \<open>What follows a backslash and a \<open>u\<close>: half a surrogate pair stands for \<open>RuneError\<close>.\<close>

definition unescape_u :: "string \<Rightarrow> (rune \<times> string) option" where
  "unescape_u s =
     (case hex4 s of
        None \<Rightarrow> None
      | Some (r, t) \<Rightarrow>
          (if \<not> surrogate r then Some (r, t)
           else case low_half t of
                  None \<Rightarrow> Some (RuneError, t)
                | Some (r2, t2) \<Rightarrow>
                    (case utf16_pair r r2 of None \<Rightarrow> Some (RuneError, t) | Some r' \<Rightarrow> Some (r', t2))))"

fun unescape :: "string \<Rightarrow> (rune \<times> string) option" where
  "unescape [] = None"
| "unescape (c # s) =
     (if c = CHR 0x22 \<or> c = backslash \<or> c = CHR ''/'' then Some (byte c, s)
      else if c = CHR ''b'' then Some (8, s)
      else if c = CHR ''f'' then Some (12, s)
      else if c = CHR ''n'' then Some (10, s)
      else if c = CHR ''r'' then Some (13, s)
      else if c = CHR ''t'' then Some (9, s)
      else if c = CHR ''u'' then unescape_u s
      else None)"

lemma hex4_length: "hex4 s = Some (r, t) \<Longrightarrow> length t < length s"
  by (induction s rule: hex4.induct) (auto split: option.splits)

lemma unescape_length: "unescape s = Some (r, t) \<Longrightarrow> length t < length s"
proof (cases s)
  case (Cons c s')
  have "length t \<le> length s'" if "unescape_u s' = Some (r, t)"
    using that
    by (auto simp: unescape_u_def low_half_def split: option.splits if_splits dest!: hex4_length)
  then show "unescape s = Some (r, t) \<Longrightarrow> length t < length s"
    using Cons by (auto split: if_splits)
qed simp

text \<open>A string literal after its opening quote: its value and what follows the closing one.\<close>

function string_lit :: "string \<Rightarrow> (string \<times> string) option" where
  "string_lit s =
     (case s of
        [] \<Rightarrow> None
      | c # s' \<Rightarrow>
          (if c = CHR 0x22 then Some ([], s')
           else if c = backslash then
             (case unescape s' of
                None \<Rightarrow> None
              | Some (r, t) \<Rightarrow> map_option (apfst (append (encode_rune r))) (string_lit t))
           else if byte c < 32 then None
           else let (r, w) = decode_rune s
                in map_option (apfst (append (encode_rune r))) (string_lit (drop w s))))"
  by pat_completeness auto
termination
proof (relation "measure length")
  fix s :: string and c s' x r t
  assume "s = c # s'" "unescape s' = Some x" "(r, t) = x"
  then show "(t, s) \<in> measure length" using unescape_length [of s' r t] by simp
next
  fix s :: string and c s' x r w
  assume "s = c # s'" "x = decode_rune s" "(r, w) = x"
  with decode_rune_width [of s] show "(drop w s, s) \<in> measure length"
    by (metis diff_less in_measure length_drop length_greater_0_conv less_eq_Suc_le list.discI
        One_nat_def snd_conv)
qed simp

declare string_lit.simps [simp del]

lemma string_lit_length: "string_lit s = Some (t, r) \<Longrightarrow> length r < length s"
proof (induction s arbitrary: t rule: string_lit.induct)
  case (1 s)
  show ?case
  proof (cases s)
    case Nil
    with 1 show ?thesis by (simp add: string_lit.simps)
  next
    case (Cons c s')
    consider "c = CHR 0x22" | "c \<noteq> CHR 0x22" "c = backslash"
      | "c \<noteq> CHR 0x22" "c \<noteq> backslash" by blast
    then show ?thesis
    proof cases
      case 1
      with "1.prems" Cons show ?thesis by (subst (asm) string_lit.simps) simp
    next
      case 2
      with "1.prems" Cons obtain ru u where u: "unescape s' = Some (ru, u)"
        "\<exists>t'. string_lit u = Some (t', r)"
        by (subst (asm) string_lit.simps) (auto split: option.splits)
      then show ?thesis using "1.IH"(1) [OF Cons 2 u(1) refl] unescape_length [OF u(1)] Cons by fastforce
    next
      case 3
      obtain ru w where d: "decode_rune s = (ru, w)" by (cases "decode_rune s")
      with 3 "1.prems" Cons have "\<not> byte c < 32" "\<exists>t'. string_lit (drop w s) = Some (t', r)"
        by (simp_all add: string_lit.simps [of "c # s'"] split: if_splits) auto
      then show ?thesis using "1.IH"(2) [OF Cons 3 _ d [symmetric] refl] by fastforce
    qed
  qed
qed

subsection \<open>Tokens\<close>

datatype token = Punct char | Scalar json

definition json_space :: "char \<Rightarrow> bool" where
  "json_space c \<longleftrightarrow> byte c \<in> {32, 9, 13, 10}"

definition skip_space :: "string \<Rightarrow> string" where
  "skip_space s = dropWhile json_space s"

definition next_token :: "string \<Rightarrow> (token \<times> string) option" where
  "next_token s =
     (case s of
        [] \<Rightarrow> None
      | c # s' \<Rightarrow>
          (if c \<in> set ''{}[]:,'' then Some (Punct c, s')
           else if c = CHR 0x22 then 
             map_option (\<lambda>(t, r). (Scalar (JStr t (take (length s' - length r - 1) s')), r)) (string_lit s')
           else if has_prefix s ''true'' then Some (Scalar (JBool True), drop 4 s)
           else if has_prefix s ''false'' then Some (Scalar (JBool False), drop 5 s)
           else if has_prefix s ''null'' then Some (Scalar JNull, drop 4 s)
           else map_option (apfst (Scalar \<circ> JNum)) (lex_number s)))"

lemma skip_space_length: "length (skip_space s) \<le> length s"
  by (simp add: skip_space_def length_dropWhile_le)

lemma lex_number_length: "lex_number s = Some (t, r) \<Longrightarrow> length r < length s"
  using lex_number_split [of s t r] by auto

lemma next_token_length: "next_token s = Some (k, r) \<Longrightarrow> length r < length s"
  by (auto simp: next_token_def split: list.splits if_splits
      dest!: string_lit_length lex_number_length)

subsection \<open>The scanner\<close>

text \<open>
  What is open, innermost first: an array with its elements so far, an object between two members,
  and an object whose next member has this key. The mode is what may come next.
\<close>

datatype frame = InArr "json list" | InObj "(string \<times> json) list" | InField "(string \<times> json) list" string

datatype mode = WantValue | WantElem | WantKey | WantFirstKey | WantColon | After json

definition max_nesting :: nat where
  "max_nesting = 10000"

definition open_frame :: "mode \<Rightarrow> frame \<Rightarrow> frame list \<Rightarrow> (mode \<times> frame list) option" where
  "open_frame m f stk = (if length stk < max_nesting then Some (m, f # stk) else None)"

fun begin_value :: "token \<Rightarrow> frame list \<Rightarrow> (mode \<times> frame list) option" where
  "begin_value (Scalar v) stk = Some (After v, stk)"
| "begin_value (Punct c) stk =
     (if c = CHR ''['' then open_frame WantElem (InArr []) stk
      else if c = CHR ''{'' then open_frame WantFirstKey (InObj []) stk
      else None)"

fun scan_step :: "mode \<Rightarrow> token \<Rightarrow> frame list \<Rightarrow> (mode \<times> frame list) option" where
  "scan_step WantValue k stk = begin_value k stk"
| "scan_step WantElem k stk =
     (case stk of
        InArr vs # stk' \<Rightarrow>
          (if k = Punct (CHR '']'') then Some (After (JArr vs), stk') else begin_value k stk)
      | _ \<Rightarrow> None)"
| "scan_step WantKey k stk =
     (case (k, stk) of
        (Scalar (JStr name _), InObj kvs # stk') \<Rightarrow> Some (WantColon, InField kvs name # stk')
      | _ \<Rightarrow> None)"
| "scan_step WantFirstKey k stk =
     (case (k, stk) of
        (Scalar (JStr name _), InObj kvs # stk') \<Rightarrow> Some (WantColon, InField kvs name # stk')
      | (Punct c, InObj kvs # stk') \<Rightarrow>
          (if c = CHR ''}'' then Some (After (JObj kvs), stk') else None)
      | _ \<Rightarrow> None)"
| "scan_step WantColon k stk = (if k = Punct (CHR '':'') then Some (WantValue, stk) else None)"
| "scan_step (After v) k stk =
     (case (k, stk) of
        (Punct c, InArr vs # stk') \<Rightarrow>
          (if c = CHR '','' then Some (WantValue, InArr (vs @ [v]) # stk')
           else if c = CHR '']'' then Some (After (JArr (vs @ [v])), stk') else None)
      | (Punct c, InField kvs name # stk') \<Rightarrow>
          (if c = CHR '','' then Some (WantKey, InObj (kvs @ [(name, v)]) # stk')
           else if c = CHR ''}'' then Some (After (JObj (kvs @ [(name, v)])), stk') else None)
      | _ \<Rightarrow> None)"

text \<open>It stops at the end of the outermost value, and leaves what follows.\<close>

definition final_value :: "mode \<Rightarrow> frame list \<Rightarrow> json option" where
  "final_value m stk = (case (m, stk) of (After v, []) \<Rightarrow> Some v | _ \<Rightarrow> None)"

function scan :: "mode \<Rightarrow> frame list \<Rightarrow> string \<Rightarrow> (json \<times> string) option" where
  "scan m stk s =
     (case final_value m stk of
        Some v \<Rightarrow> Some (v, s)
      | None \<Rightarrow>
          (case next_token (skip_space s) of
             None \<Rightarrow> None
           | Some (k, r) \<Rightarrow>
               (case scan_step m k stk of None \<Rightarrow> None | Some (m', stk') \<Rightarrow> scan m' stk' r)))"
  by pat_completeness auto
termination
proof (relation "measure (\<lambda>(m, stk, s). length s)")
  fix m :: mode and stk s x k r y m' stk'
  assume "next_token (skip_space s) = Some x" "(k, r) = x"
  then have "length r < length s"
    using next_token_length [of "skip_space s" k r] skip_space_length [of s] by simp
  then show "((m', stk', r), (m, stk, s)) \<in> measure (\<lambda>(m, stk, s). length s)" by simp
qed simp

declare scan.simps [simp del]

text \<open>
  \<open>Decode\<close> takes the next value off a stream; \<open>Unmarshal\<close> accepts nothing but white space after it.
\<close>

definition json_read :: "string \<Rightarrow> (json \<times> string) option" where
  "json_read s = scan WantValue [] s"

definition json_parse :: "string \<Rightarrow> json option" where
  "json_parse s =
     (case json_read s of
        None \<Rightarrow> None
      | Some (v, r) \<Rightarrow> if skip_space r = [] then Some v else None)"

subsection \<open>Decoding into an \<open>any\<close>\<close>

text \<open>
  The last of several members with one key stands. The order of a map, which Go leaves open, is that
  of its keys.
\<close>

definition members :: "(string \<times> 'a) list \<Rightarrow> (string \<times> 'a) list" where
  "members kvs = sort_key fst (fold (\<lambda>(k, v). AList.update k v) kvs [])"

primrec any_of :: "json \<Rightarrow> goval option" where
  "any_of JNull = Some GNil"
| "any_of (JBool b) = Some (GBool b)"
| "any_of (JNum s) = map_option GFloat (number_text s)"
| "any_of (JStr s _) = Some (GStr s)"
| "any_of (JArr vs) = map_option GList (all_some (map any_of vs))"
| "any_of (JObj kvs) =
     map_option (GMap \<circ> members)
       (all_some (map (\<lambda>(k, v). map_option (Pair k) v) (map (map_prod id any_of) kvs)))"

definition unmarshal_any :: "string \<Rightarrow> goval option" where
  "unmarshal_any s = Option.bind (json_parse s) any_of"

text \<open>Into a nil \<open>map[string]any\<close>: \<open>null\<close> leaves it as it is, another value is an error.\<close>

definition unmarshal_map :: "string \<Rightarrow> evidence option" where
  "unmarshal_map s =
     (case json_parse s of
        Some JNull \<Rightarrow> Some None
      | Some (JObj kvs) \<Rightarrow>
          (case any_of (JObj kvs) of Some (GMap m) \<Rightarrow> Some (Some m) | _ \<Rightarrow> None)
      | _ \<Rightarrow> None)"

subsection \<open>Decoding into a struct\<close>

text \<open>
  Which field a key names: the one with that name, or else the first whose name is equal under
  simple case folding. A field name is ASCII; besides its other case, an ASCII letter folds with
  U+017F (a long s) and U+212A (the Kelvin sign).
\<close>

definition fold_rune :: "rune \<Rightarrow> rune" where
  "fold_rune r =
     (if 97 \<le> r \<and> r \<le> 122 then r - 32 else if r = 0x17F then 83 else if r = 0x212A then 75 else r)"

definition fold_name :: "string \<Rightarrow> rune list" where
  "fold_name s = map fold_rune (runes s)"

definition field_of :: "string list \<Rightarrow> string \<Rightarrow> string option" where
  "field_of names k =
     (if k \<in> set names then Some k else find (\<lambda>n. fold_name n = fold_name k) names)"

text \<open>
  The members are stored one after the other, unknown ones skipped; \<open>None\<close> if one has the wrong
  type. What \<open>Unmarshal\<close> leaves behind with such an error is not used anywhere.
\<close>

fun decode_fields ::
    "string list \<Rightarrow> (string \<Rightarrow> json \<Rightarrow> 'a \<Rightarrow> 'a option) \<Rightarrow> (string \<times> json) list \<Rightarrow> 'a \<Rightarrow> 'a option" where
  "decode_fields names put [] r = Some r"
| "decode_fields names put ((k, v) # kvs) r =
     (case field_of names k of
        None \<Rightarrow> decode_fields names put kvs r
      | Some n \<Rightarrow>
          (case put n v r of None \<Rightarrow> None | Some r' \<Rightarrow> decode_fields names put kvs r'))"

definition decode_struct ::
    "string list \<Rightarrow> (string \<Rightarrow> json \<Rightarrow> 'a \<Rightarrow> 'a option) \<Rightarrow> json \<Rightarrow> 'a \<Rightarrow> 'a option" where
  "decode_struct names put v r =
     (case v of JNull \<Rightarrow> Some r | JObj kvs \<Rightarrow> decode_fields names put kvs r | _ \<Rightarrow> None)"

definition decode_string :: "json \<Rightarrow> string \<Rightarrow> string option" where
  "decode_string v old = (case v of JNull \<Rightarrow> Some old | JStr s _ \<Rightarrow> Some s | _ \<Rightarrow> None)"

text \<open>
  A slice is its array and its length. An element is decoded over what the array still holds at its
  place, which is the zero value unless an earlier member with the same key was longer.
\<close>

definition decode_slice ::
    "(json \<Rightarrow> 'a \<Rightarrow> 'a option) \<Rightarrow> 'a \<Rightarrow> json \<Rightarrow> 'a list \<times> nat \<Rightarrow> ('a list \<times> nat) option" where
  "decode_slice dec zero v old =
     (case v of
        JNull \<Rightarrow> Some ([], 0)
      | JArr vs \<Rightarrow>
          (if vs = [] then Some ([], 0)
           else map_option (\<lambda>xs. (xs @ drop (length vs) (fst old), length vs))
                  (all_some (map2 dec vs (take (length vs) (fst old) @ replicate (length vs) zero))))
      | _ \<Rightarrow> None)"

definition slice_elems :: "'a list \<times> nat \<Rightarrow> 'a list" where
  "slice_elems s = take (snd s) (fst s)"

definition unmarshal_struct ::
    "string list \<Rightarrow> (string \<Rightarrow> json \<Rightarrow> 'a \<Rightarrow> 'a option) \<Rightarrow> 'a \<Rightarrow> string \<Rightarrow> 'a option" where
  "unmarshal_struct names put zero s =
     (case json_parse s of None \<Rightarrow> None | Some v \<Rightarrow> decode_struct names put v zero)"

text \<open>\<open>json.NewDecoder(r).Decode(&v)\<close> on a body that can be read to its end.\<close>

definition decode_body ::
    "string list \<Rightarrow> (string \<Rightarrow> json \<Rightarrow> 'a \<Rightarrow> 'a option) \<Rightarrow> 'a \<Rightarrow> string \<Rightarrow> 'a option" where
  "decode_body names put zero s =
     (case json_read s of None \<Rightarrow> None | Some (v, _) \<Rightarrow> decode_struct names put v zero)"

end
