(* ===== verification/Go_Json_Roundtrip.thy ===== *)
theory Go_Json_Roundtrip
  imports Go_Json_Decode
begin

text \<open>
  What \<open>json.Unmarshal\<close> makes of a text that \<open>json.Marshal\<close> wrote: the value itself, with every
  string made well-formed UTF-8, every integer a float and every container one of \<open>any\<close>
  (\<open>unmarshal_marshal\<close>, \<open>unmarshal_map_marshal\<close>); a second trip changes nothing more
  (\<open>generic_idem\<close>).
\<close>

subsection \<open>Reading what was written\<close>

lemma decode_rune_take:
  assumes "decode_rune s = (r, w)" "2 \<le> w"
  shows "decode_rune (take w s @ x) = (r, w)"
proof -
  have "s \<noteq> []" using assms by (auto simp: decode_rune.simps)
  then obtain c s' where s: "s = c # s'" by (cases s) auto
  have w: "w \<le> 4" "w \<le> length s"
    using assms(1) decode_rune_width [OF \<open>s \<noteq> []\<close>]
    by (simp_all add: s decode_rune.simps Let_def split: if_splits list.splits)
  have "w = 2 \<or> w = 3 \<or> w = 4" using assms(2) w(1) by linarith
  moreover have "w = 2 \<Longrightarrow> \<exists>c1 u. s' = c1 # u" "w = 3 \<Longrightarrow> \<exists>c1 c2 u. s' = c1 # c2 # u"
    "w = 4 \<Longrightarrow> \<exists>c1 c2 c3 u. s' = c1 # c2 # c3 # u"
    using w(2) by (auto simp: s eval_nat_numeral Suc_le_length_iff)
  ultimately consider (two) c1 u where "w = 2" "s' = c1 # u"
    | (three) c1 c2 u where "w = 3" "s' = c1 # c2 # u"
    | (four) c1 c2 c3 u where "w = 4" "s' = c1 # c2 # c3 # u" by blast
  then show ?thesis
    using assms(1)
    by cases (simp_all add: s take_Cons' decode_rune.simps Let_def split: if_splits list.splits)
qed

lemma decode_rune_wide:
  assumes "s \<noteq> []" "decode_rune s = (r, w)" "128 \<le> r" "\<not> (r = RuneError \<and> w = 1)"
  shows "2 \<le> w" "128 \<le> byte (hd s)"
proof -
  obtain c s' where s: "s = c # s'" using assms(1) by (cases s) auto
  have c: "\<not> byte c < 128" using assms(2,3) by (auto simp: s)
  then show "128 \<le> byte (hd s)" by (simp add: s)
  have "w = 2 \<or> w = 3 \<or> w = 4 \<or> r = RuneError \<and> w = 1"
    using assms(2) c unfolding s decode_rune.simps Let_def
    by (simp split: if_splits list.splits)
  with assms(4) show "2 \<le> w" by auto
qed

text \<open>A text as it is once it has been through JSON: every byte that is in no encoding is replaced.\<close>

definition repair :: "string \<Rightarrow> string" where
  "repair s = of_runes (runes s)"

lemma string_lit_Cons:
  "c \<noteq> CHR 0x22 \<Longrightarrow> c \<noteq> backslash \<Longrightarrow> 32 \<le> byte c \<Longrightarrow> decode_rune (c # s) = (r, w) \<Longrightarrow>
     string_lit (c # s) = map_option (apfst (append (encode_rune r))) (string_lit (drop w (c # s)))"
  by (subst string_lit.simps) simp

lemma string_lit_escape_char:
  "unescape s = Some (r, t) \<Longrightarrow>
     string_lit (backslash # s) = map_option (apfst (append (encode_rune r))) (string_lit t)"
  by (subst string_lit.simps) (simp add: backslash_def)

lemma string_lit_quote [simp]: "string_lit (CHR 0x22 # s) = Some ([], s)"
  by (subst string_lit.simps) simp

lemma hex_value_digit: "n < 16 \<Longrightarrow> hex_value (hex_digit n) = Some n"
  by (auto simp: hex_value_def hex_digit_def Let_def)

lemma hex_value_chars [simp]:
  "hex_value (CHR ''0'') = Some 0" "hex_value (CHR ''2'') = Some 2" "hex_value (CHR ''d'') = Some 13"
  "hex_value (CHR ''f'') = Some 15"
  by (simp_all add: hex_value_def byte_def)

lemma unescape_hex:
  "a < 16 \<Longrightarrow> b < 16 \<Longrightarrow> unescape (''u00'' @ hex_digit a # hex_digit b # s) = Some (a * 16 + b, s)"
  by (simp add: backslash_def unescape_u_def hex_value_digit surrogate_def)

lemma string_lit_escape_ascii:
  assumes "byte c < 128"
  shows "string_lit (escape_ascii c @ s) = map_option (apfst (Cons c)) (string_lit s)"
proof -
  let ?b = "byte c"
  have enc: "encode_rune ?b = [c]" using assms by (rule encode_rune_byte)
  have cons: "append [c] = Cons c" by (simp add: fun_eq_iff)
  have lit: "string_lit (backslash # t) = map_option (apfst (Cons c)) (string_lit s)"
    if "unescape t = Some (?b, s)" for t
    using string_lit_escape_char [OF that] enc cons by simp
  have ctl: "c = char_of ?b" by simp
  consider "?b = 92 \<or> ?b = 34" | "?b = 8" | "?b = 12" | "?b = 10" | "?b = 13" | "?b = 9"
    | "?b \<notin> {92, 34, 8, 12, 10, 13, 9}" "?b < 32 \<or> ?b = 60 \<or> ?b = 62 \<or> ?b = 38"
    | "?b \<notin> {92, 34, 8, 12, 10, 13, 9}" "32 \<le> ?b" "?b \<noteq> 60" "?b \<noteq> 62" "?b \<noteq> 38"
    by (metis insert_iff linorder_not_less empty_iff)
  then show ?thesis
  proof cases
    case 1
    then have "byte c = byte backslash \<or> byte c = byte (CHR 0x22)" by (simp add: byte_def backslash_def)
    then have "c = CHR 0x22 \<or> c = backslash" using byte_inj by blast
    then have "unescape (c # s) = Some (?b, s)" by auto
    with 1 lit show ?thesis by (simp add: escape_ascii_def)
  next
    case 7
    have "?b div 16 < 16" using assms by simp
    then have "unescape (''u00'' @ hex_digit (?b div 16) # hex_digit (?b mod 16) # s) = Some (?b, s)"
      using unescape_hex [of "?b div 16" "?b mod 16" s] by simp
    with lit show ?thesis using 7 by (simp add: escape_ascii_def Let_def)
  next
    case 8
    have n: "c \<noteq> CHR 0x22" "c \<noteq> backslash" using 8(1) by (auto simp: byte_def backslash_def)
    have "decode_rune (c # s) = (?b, 1)" using assms by simp
    from string_lit_Cons [OF n 8(2) this] have "string_lit (c # s) = map_option (apfst (Cons c)) (string_lit s)"
      using enc cons by simp
    then show ?thesis using 8 by (simp add: escape_ascii_def)
  qed (use lit in \<open>simp add: escape_ascii_def backslash_def\<close>)+
qed

lemma string_lit_escape: "string_lit (escape s @ CHR 0x22 # rest) = Some (repair s, rest)"
proof (induction s rule: escape.induct)
  case (1 s)
  show ?case
  proof (cases "s = []")
    case True
    then show ?thesis by (simp add: repair_def)
  next
    case False
    obtain r w where rw: "decode_rune s = (r, w)" by fastforce
    have ih: "string_lit (escape (drop w s) @ CHR 0x22 # rest) = Some (repair (drop w s), rest)"
      using "1.IH" [OF False rw [symmetric] refl] .
    have rep: "repair s = encode_rune r @ repair (drop w s)"
      using False rw unfolding repair_def by (subst runes.simps) simp
    let ?tail = "escape (drop w s) @ CHR 0x22 # rest"
    have esc: "escape s @ CHR 0x22 # rest =
        (if r < 128 then escape_ascii (hd s)
         else if r = RuneError \<and> w = 1 then backslash # ''ufffd''
         else if r = 8232 \<or> r = 8233 then backslash # ''u202'' @ [hex_digit (r mod 16)]
         else take w s) @ ?tail"
      using False rw by (subst escape.simps) simp
    consider (ascii) "r < 128" | (bad) "128 \<le> r" "r = RuneError" "w = 1"
      | (sep) "r = 8232 \<or> r = 8233" "\<not> (r = RuneError \<and> w = 1)"
      | (raw) "128 \<le> r" "r \<noteq> 8232" "r \<noteq> 8233" "\<not> (r = RuneError \<and> w = 1)"
      by linarith
    then show ?thesis
    proof cases
      case ascii
      obtain c s' where s: "s = c # s'" using False by (cases s) auto
      have "byte c < 128" using rw ascii decode_rune_high [of c s'] by (auto simp: s not_less [symmetric])
      moreover from this have "r = byte c" "w = 1" using rw by (simp_all add: s)
      ultimately show ?thesis
        using ascii ih rep esc by (simp add: s string_lit_escape_ascii encode_rune_byte)
    next
      case bad
      have "unescape (''ufffd'' @ ?tail) = Some (RuneError, ?tail)"
        by (simp add: backslash_def unescape_u_def surrogate_def RuneError_def)
      from string_lit_escape_char [OF this] show ?thesis using bad ih rep esc by simp
    next
      case sep
      then have "unescape (''u202'' @ hex_digit (r mod 16) # ?tail) = Some (r, ?tail)"
        by (auto simp: backslash_def unescape_u_def surrogate_def hex_value_digit)
      from string_lit_escape_char [OF this] show ?thesis using sep ih rep esc by (auto simp: RuneError_def)
    next
      case raw
      note h = decode_rune_wide [OF False rw raw(1) raw(4)]
      have d: "decode_rune (take w s @ ?tail) = (r, w)" by (rule decode_rune_take [OF rw h(1)])
      obtain c s' where s: "s = c # s'" using False by (cases s) auto
      then have c: "c \<noteq> CHR 0x22" "c \<noteq> backslash" "32 \<le> byte c"
        using h(2) by (auto simp: byte_def backslash_def)
      have "take w s @ ?tail = c # take (w - 1) s' @ ?tail" using h(1) by (cases w) (simp_all add: s)
      from string_lit_Cons [OF c, of "take (w - 1) s' @ ?tail" r w, folded this, OF d]
      have "string_lit (take w s @ ?tail) = map_option (apfst (append (encode_rune r))) (string_lit (drop w (take w s @ ?tail)))" .
      moreover have "w \<le> length s" using decode_rune_width [OF False] rw by simp
      then have "drop w (take w s @ ?tail) = ?tail" by simp
      moreover have "escape s @ CHR 0x22 # rest = take w s @ ?tail" using raw esc by auto
      ultimately show ?thesis using ih rep by simp
    qed
  qed
qed

lemma lex_itoa: "lex_number (itoa i) = Some (itoa i, [])"
proof -
  have "lex_number (decimal n) = Some (decimal n, [])" "lex_sign ''-'' (decimal n) = ([], decimal n)" for n
    using lex_parts [OF int_text_decimal, of "[]" "[]" n] by (simp_all add: dotted_def exponent_text_def)
  then show ?thesis using negative_number(1) by (simp add: itoa_def)
qed

text \<open>The document that \<open>json.Marshal\<close> writes for a value.\<close>

primrec json_of :: "goval \<Rightarrow> json" where
  "json_of GNil = JNull"
| "json_of (GBool b) = JBool b"
| "json_of (GInt i) = JNum (itoa i)"
| "json_of (GFloat t) = JNum t"
| "json_of (GStr s) = JStr (repair s) (escape s)"
| "json_of (GMap kvs) =
     JObj (map (\<lambda>(k, v). (repair k, v)) (sort_key fst (map (map_prod id json_of) kvs)))"
| "json_of GNilMap = JNull"
| "json_of (GList vs) = JArr (map json_of vs)"
| "json_of GNilList = JNull"
| "json_of (GStrs ss) = JArr (map (\<lambda>s. JStr (repair s) (escape s)) ss)"
| "json_of GNilStrs = JNull"
| "json_of (GOther v) = (case map_option json_of v of None \<Rightarrow> JNull | Some j \<Rightarrow> j)"

text \<open>
  What a value of the program is: an integer has at most 64 bits, a float is held as the text it is
  printed as, and a map has each key once.
\<close>

fun go_value :: "goval \<Rightarrow> bool" where
  "go_value (GInt i) \<longleftrightarrow> \<bar>i\<bar> < 2 ^ 64"
| "go_value (GFloat t) \<longleftrightarrow> \<not> finite_float t \<or> number_text t = Some t"
| "go_value (GMap kvs) \<longleftrightarrow> distinct (map fst kvs) \<and> (\<forall>(k, v) \<in> set kvs. go_value v)"
| "go_value (GList vs) \<longleftrightarrow> (\<forall>v \<in> set vs. go_value v)"
| "go_value (GOther v) \<longleftrightarrow> (case v of None \<Rightarrow> True | Some g \<Rightarrow> go_value g)"
| "go_value _ \<longleftrightarrow> True"

text \<open>At most so many containers inside each other.\<close>

fun shallow :: "nat \<Rightarrow> goval \<Rightarrow> bool" where
  "shallow n (GMap kvs) \<longleftrightarrow> 0 < n \<and> (\<forall>(k, v) \<in> set kvs. shallow (n - 1) v)"
| "shallow n (GList vs) \<longleftrightarrow> 0 < n \<and> (\<forall>v \<in> set vs. shallow (n - 1) v)"
| "shallow n (GStrs ss) \<longleftrightarrow> 0 < n"
| "shallow n (GOther v) \<longleftrightarrow> (case v of None \<Rightarrow> True | Some g \<Rightarrow> shallow n g)"
| "shallow n _ \<longleftrightarrow> True"

lemma scan_token:
  "final_value m stk = None \<Longrightarrow> next_token (skip_space s) = Some (k, r) \<Longrightarrow>
     scan_step m k stk = Some (m', stk') \<Longrightarrow> scan m stk s = scan m' stk' r"
  by (subst scan.simps) simp

lemma final_value_simps [simp]:
  "final_value WantValue stk = None" "final_value WantElem stk = None" "final_value WantKey stk = None"
  "final_value WantFirstKey stk = None" "final_value WantColon stk = None"
  "final_value (After v) (f # stk) = None" "final_value (After v) [] = Some v"
  by (simp_all add: final_value_def)

lemma json_space_chars [simp]:
  "\<not> json_space (CHR ''{'')" "\<not> json_space (CHR ''}'')" "\<not> json_space (CHR ''['')"
  "\<not> json_space (CHR '']'')" "\<not> json_space (CHR '':'')" "\<not> json_space (CHR '','')"
  "\<not> json_space (CHR 0x22)" "\<not> json_space (CHR ''t'')" "\<not> json_space (CHR ''f'')"
  "\<not> json_space (CHR ''n'')" "\<not> json_space (CHR ''-'')"
  by (simp_all add: json_space_def byte_def)

lemma skip_space_id: "\<not> json_space c \<Longrightarrow> skip_space (c # s) = c # s"
  by (simp add: skip_space_def)

lemma token_punct: "c \<in> set ''{}[]:,'' \<Longrightarrow> next_token (skip_space (c # s)) = Some (Punct c, s)"
  by (auto simp: next_token_def skip_space_def)

lemma token_string: "next_token (skip_space (quote s @ r)) = Some (Scalar (JStr (repair s) (escape s)), r)"
  by (simp add: quote_def skip_space_def next_token_def string_lit_escape)

text \<open>A text that can begin a value, and no closing bracket.\<close>

definition starts_value :: "string \<Rightarrow> bool" where
  "starts_value t \<longleftrightarrow> t \<noteq> [] \<and> \<not> json_space (hd t) \<and> hd t \<noteq> CHR '']''"

lemma next_token_Punct: "next_token s = Some (Punct c, r) \<Longrightarrow> s \<noteq> [] \<and> c = hd s"
  by (auto simp: next_token_def split: list.splits if_splits)

lemma scan_first_elem:
  assumes "starts_value t"
  shows "scan WantElem (InArr vs # stk) (t @ r) = scan WantValue (InArr vs # stk) (t @ r)"
proof -
  obtain c t' where t: "t = c # t'" "\<not> json_space c" "c \<noteq> CHR '']''"
    using assms by (cases t) (auto simp: starts_value_def)
  then have sk: "skip_space (t @ r) = t @ r" by (simp add: skip_space_def)
  have "scan_step WantElem k (InArr vs # stk) = scan_step WantValue k (InArr vs # stk)"
    if "next_token (t @ r) = Some (k, u)" for k u
    using next_token_Punct [of "t @ r" "CHR '']''" u] that t by auto
  then show ?thesis
    by (subst (1 2) scan.simps) (simp add: sk split: option.split)
qed

definition reads :: "nat \<Rightarrow> string \<Rightarrow> json \<Rightarrow> bool" where
  "reads n t j \<longleftrightarrow> starts_value t \<and>
     (\<forall>stk r. n + length stk \<le> max_nesting \<longrightarrow> ends_number r \<longrightarrow>
        scan WantValue stk (t @ r) = scan (After j) stk r)"

lemma ends_number_punct [simp]:
  "ends_number (CHR '','' # s)" "ends_number (CHR '']'' # s)" "ends_number (CHR ''}'' # s)"
  by (simp_all add: ends_number_def is_digit_def byte_def)

lemma scan_elems:
  assumes "list_all2 (reads n) ts js" "ts \<noteq> []" "n + length (f # stk) \<le> max_nesting" "f = InArr vs"
  shows "scan WantValue (f # stk) (join '','' ts @ CHR '']'' # r) = scan (After (JArr (vs @ js))) stk r"
  using assms
proof (induction ts js arbitrary: f vs rule: list_all2_induct)
  case (Cons t ts j js)
  show ?case
  proof (cases ts)
    case Nil
    then have js: "js = []" using Cons.hyps(2) by simp
    have "scan WantValue (f # stk) (t @ CHR '']'' # r) = scan (After j) (f # stk) (CHR '']'' # r)"
      using Cons.hyps(1) Cons.prems(2) unfolding reads_def by (simp del: append_Cons)
    also have "\<dots> = scan (After (JArr (vs @ [j]))) stk r"
      using Cons.prems(3) by (intro scan_token [OF _ token_punct]) simp_all
    finally show ?thesis using Nil js by simp
  next
    case (Cons t2 ts')
    let ?rest = "join '','' ts @ CHR '']'' # r"
    have "scan WantValue (f # stk) (t @ CHR '','' # ?rest) = scan (After j) (f # stk) (CHR '','' # ?rest)"
      using Cons.hyps(1) Cons.prems(2) unfolding reads_def by simp
    also have "\<dots> = scan WantValue (InArr (vs @ [j]) # stk) ?rest"
      using Cons.prems(3) by (intro scan_token [OF _ token_punct]) simp_all
    also have "\<dots> = scan (After (JArr ((vs @ [j]) @ js))) stk r"
      using Cons.prems(2) local.Cons by (intro Cons.IH) simp_all
    finally show ?thesis using local.Cons by simp
  qed
qed simp

lemma reads_array:
  assumes "list_all2 (reads n) ts js"
  shows "reads (Suc n) (CHR ''['' # join '','' ts @ [CHR '']'']) (JArr js)"
  unfolding reads_def
proof (intro conjI allI impI)
  fix stk :: "frame list" and r
  assume n: "Suc n + length stk \<le> max_nesting"
  let ?in = "join '','' ts @ CHR '']'' # r"
  have "scan WantValue stk (CHR ''['' # ?in) = scan WantElem (InArr [] # stk) ?in"
    using n by (intro scan_token [OF _ token_punct]) (simp_all add: open_frame_def)
  also have "\<dots> = scan (After (JArr js)) stk r"
  proof (cases ts)
    case Nil
    have "scan WantElem (InArr [] # stk) (CHR '']'' # r) = scan (After (JArr [])) stk r"
      by (intro scan_token [OF _ token_punct]) simp_all
    with Nil assms show ?thesis by simp
  next
    case (Cons t ts')
    then have t: "starts_value t" using assms by (auto simp: list_all2_Cons1 reads_def)
    have "\<exists>u. ?in = t @ u" using Cons by (cases ts') auto
    then have "scan WantElem (InArr [] # stk) ?in = scan WantValue (InArr [] # stk) ?in"
      using scan_first_elem [OF t] by metis
    also have "\<dots> = scan (After (JArr ([] @ js))) stk r"
      using n Cons by (intro scan_elems [OF assms _ _ refl]) simp_all
    finally show ?thesis by simp
  qed
  finally show "scan WantValue stk ((CHR ''['' # join '','' ts @ [CHR '']'']) @ r) = scan (After (JArr js)) stk r"
    by simp
qed (simp add: starts_value_def)

definition member_text :: "string \<times> string \<times> json \<Rightarrow> string" where
  "member_text m = (case m of (k, t, j) \<Rightarrow> quote k @ '':'' @ t)"

definition member_of :: "string \<times> string \<times> json \<Rightarrow> string \<times> json" where
  "member_of m = (case m of (k, t, j) \<Rightarrow> (repair k, j))"

lemma scan_member:
  assumes "reads n t j" "Suc n + length stk \<le> max_nesting" "ends_number r" "m = WantKey \<or> m = WantFirstKey"
  shows "scan m (InObj kvs # stk) (quote k @ CHR '':'' # t @ r) =
    scan (After j) (InField kvs (repair k) # stk) r"
proof -
  have "scan m (InObj kvs # stk) (quote k @ CHR '':'' # t @ r) =
      scan WantColon (InField kvs (repair k) # stk) (CHR '':'' # t @ r)"
    using assms(4) by (intro scan_token [OF _ token_string]) auto
  also have "\<dots> = scan WantValue (InField kvs (repair k) # stk) (t @ r)"
    by (intro scan_token [OF _ token_punct]) simp_all
  also have "\<dots> = scan (After j) (InField kvs (repair k) # stk) r"
    using assms(1-3) by (simp add: reads_def)
  finally show ?thesis .
qed

lemma scan_members:
  assumes "\<forall>(k, t, j) \<in> set ms. reads n t j" "ms \<noteq> []" "Suc n + length stk \<le> max_nesting"
    "m = WantKey \<or> m = WantFirstKey"
  shows "scan m (InObj kvs # stk) (join '','' (map member_text ms) @ CHR ''}'' # r) =
    scan (After (JObj (kvs @ map member_of ms))) stk r"
  using assms
proof (induction ms arbitrary: kvs m)
  case (Cons a ms)
  obtain k t j where a: "a = (k, t, j)" by (cases a)
  then have rd: "reads n t j" using Cons.prems(1) by simp
  note step = scan_member [OF rd Cons.prems(3) _ Cons.prems(4)]
  show ?case
  proof (cases ms)
    case Nil
    have "scan m (InObj kvs # stk) (quote k @ CHR '':'' # t @ CHR ''}'' # r) =
        scan (After j) (InField kvs (repair k) # stk) (CHR ''}'' # r)" by (rule step) simp
    also have "\<dots> = scan (After (JObj (kvs @ [(repair k, j)]))) stk r"
      by (intro scan_token [OF _ token_punct]) simp_all
    finally show ?thesis by (simp add: Nil a member_text_def member_of_def)
  next
    case (Cons b ms')
    let ?rest = "join '','' (map member_text ms) @ CHR ''}'' # r"
    have "scan m (InObj kvs # stk) (quote k @ CHR '':'' # t @ CHR '','' # ?rest) =
        scan (After j) (InField kvs (repair k) # stk) (CHR '','' # ?rest)" by (rule step) simp
    also have "\<dots> = scan WantKey (InObj (kvs @ [(repair k, j)]) # stk) ?rest"
      by (intro scan_token [OF _ token_punct]) simp_all
    also have "\<dots> = scan (After (JObj ((kvs @ [(repair k, j)]) @ map member_of ms))) stk r"
      using Cons.prems(1,3) local.Cons by (intro Cons.IH) simp_all
    finally show ?thesis
      using local.Cons by (simp add: a member_text_def [of "(k, t, j)"] member_of_def [of "(k, t, j)"])
  qed
qed simp

lemma reads_object:
  assumes "\<forall>(k, t, j) \<in> set ms. reads n t j"
  shows "reads (Suc n) (CHR ''{'' # join '','' (map member_text ms) @ [CHR ''}'']) (JObj (map member_of ms))"
  unfolding reads_def
proof (intro conjI allI impI)
  fix stk :: "frame list" and r
  assume n: "Suc n + length stk \<le> max_nesting"
  let ?in = "join '','' (map member_text ms) @ CHR ''}'' # r"
  have "scan WantValue stk (CHR ''{'' # ?in) = scan WantFirstKey (InObj [] # stk) ?in"
    using n by (intro scan_token [OF _ token_punct]) (simp_all add: open_frame_def)
  also have "\<dots> = scan (After (JObj (map member_of ms))) stk r"
  proof (cases "ms = []")
    case True
    have "scan WantFirstKey (InObj [] # stk) (CHR ''}'' # r) = scan (After (JObj [])) stk r"
      by (intro scan_token [OF _ token_punct]) simp_all
    with True show ?thesis by simp
  next
    case False
    have "scan WantFirstKey (InObj [] # stk) ?in = scan (After (JObj ([] @ map member_of ms))) stk r"
      using n by (intro scan_members [OF assms False]) simp_all
    then show ?thesis by simp
  qed
  finally show "scan WantValue stk ((CHR ''{'' # join '','' (map member_text ms) @ [CHR ''}'']) @ r) =
      scan (After (JObj (map member_of ms))) stk r" by simp
qed (simp add: starts_value_def)

lemma reads_scalar:
  assumes "next_token (t @ r) = Some (Scalar j, r)" "starts_value t"
  shows "scan WantValue stk (t @ r) = scan (After j) stk r"
proof -
  obtain c t' where "t = c # t'" "\<not> json_space c" using assms(2) by (cases t) (auto simp: starts_value_def)
  then have "skip_space (t @ r) = t @ r" by (simp add: skip_space_def)
  then have "next_token (skip_space (t @ r)) = Some (Scalar j, r)" using assms(1) by simp
  from scan_token [OF _ this] show ?thesis by simp
qed

lemma reads_string: "reads n (quote s) (JStr (repair s) (escape s))"
proof -
  have "starts_value (quote s)" by (simp add: quote_def starts_value_def)
  moreover have "scan WantValue stk (quote s @ r) = scan (After (JStr (repair s) (escape s))) stk r" for stk r
    by (intro scan_token [OF _ token_string]) simp_all
  ultimately show ?thesis by (simp add: reads_def)
qed

lemma lex_number_head:
  assumes "lex_number t = Some (u, r)"
  shows "\<exists>c t'. t = c # t' \<and> (is_digit c \<or> c = CHR ''-'')"
proof (cases t)
  case Nil
  then show ?thesis using assms by (simp add: lex_number_def lex_sign_def lex_int_def lex_digits_def)
next
  case (Cons c t')
  have "is_digit c" if "c \<noteq> CHR ''-''"
  proof (rule ccontr)
    assume "\<not> is_digit c"
    moreover from this have "c \<noteq> CHR ''0''" by auto
    ultimately show False
      using assms that by (simp add: Cons lex_number_def lex_sign_def lex_int_def lex_digits_def)
  qed
  with Cons show ?thesis by blast
qed

lemma reads_number:
  assumes "lex_number t = Some (t, [])"
  shows "reads n t (JNum t)"
proof -
  obtain c t' where t: "t = c # t'" "is_digit c \<or> c = CHR ''-''" using lex_number_head [OF assms] by blast
  have b: "byte c = 45 \<or> 48 \<le> byte c \<and> byte c \<le> 57" using t(2) by (auto simp: is_digit_def byte_def)
  then have ne: "c \<notin> set ''{}[]:,tfn'' \<and> c \<noteq> CHR 0x22" by (auto simp: byte_def)
  have "starts_value t" using b by (auto simp: t(1) starts_value_def json_space_def byte_def)
  moreover have "next_token (t @ r) = Some (Scalar (JNum t), r)" if "ends_number r" for r
    using lex_number_append [OF assms that] ne by (simp add: t(1) next_token_def has_prefix_def)
  ultimately show ?thesis using reads_scalar by (simp add: reads_def)
qed

lemma reads_word:
  "reads n ''null'' JNull" "reads n ''true'' (JBool True)" "reads n ''false'' (JBool False)"
proof -
  have n: "next_token (''null'' @ r) = Some (Scalar JNull, r)"
    "next_token (''true'' @ r) = Some (Scalar (JBool True), r)"
    "next_token (''false'' @ r) = Some (Scalar (JBool False), r)" for r
    by (simp_all add: next_token_def has_prefix_def)
  have s: "starts_value ''null''" "starts_value ''true''" "starts_value ''false''"
    by (simp_all add: starts_value_def)
  show "reads n ''null'' JNull" "reads n ''true'' (JBool True)" "reads n ''false'' (JBool False)"
    unfolding reads_def using s reads_scalar [OF n(1) s(1)] reads_scalar [OF n(2) s(2)]
      reads_scalar [OF n(3) s(3)] by simp_all
qed

lemma map_prod_id: "map_prod id f = (\<lambda>p. (fst p, f (snd p)))"
  by (auto simp: fun_eq_iff)

lemma insort_map_snd:
  "insort_key fst (fst x, f (snd x)) (map (\<lambda>p. (fst p, f (snd p))) xs) =
     map (\<lambda>p. (fst p, f (snd p))) (insort_key fst x xs)"
  by (induction xs) simp_all

lemma sort_map_snd:
  "sort_key fst (map (\<lambda>p. (fst p, f (snd p))) xs) = map (\<lambda>p. (fst p, f (snd p))) (sort_key fst xs)"
  by (induction xs) (simp_all add: insort_map_snd)

lemma all_some_eq: "all_some (map f xs) = Some ys \<Longrightarrow> (\<forall>x \<in> set xs. f x \<noteq> None) \<and> ys = map (the \<circ> f) xs"
proof (induction xs arbitrary: ys)
  case (Cons x xs)
  then obtain y where "f x = Some y" by (cases "f x") auto
  with Cons.prems obtain zs where "all_some (map f xs) = Some zs" "ys = y # zs" by auto
  with Cons.IH [of zs] \<open>f x = Some y\<close> show ?case by simp
qed simp

lemma reads_marshal:
  "json_marshal v = Some t \<Longrightarrow> go_value v \<Longrightarrow> shallow n v \<Longrightarrow> reads n t (json_of v)"
proof (induction v arbitrary: t n)
  case (GFloat s)
  then have "finite_float s" "t = s" by (auto split: if_splits)
  then show ?case using GFloat.prems(2) number_text_stable reads_number by auto
next
  case (GMap kvs)
  from GMap.prems(3) obtain m where n: "n = Suc m" by (cases n) auto
  let ?skvs = "sort_key fst kvs" and ?f = "\<lambda>(k, v). map_option (\<lambda>t. quote k @ '':'' @ t) (json_marshal v)"
  have "encode_object (map (map_prod id json_marshal) kvs) =
      map_option (\<lambda>es. CHR ''{'' # join '','' es @ [CHR ''}'']) (all_some (map ?f ?skvs))"
    by (simp add: encode_object_def map_prod_id sort_map_snd comp_def split_def)
  then obtain es where es: "all_some (map ?f ?skvs) = Some es"
    "t = CHR ''{'' # join '','' es @ [CHR ''}'']" using GMap.prems(1) by auto
  from all_some_eq [OF es(1)] have some: "\<forall>(k, v) \<in> set kvs. json_marshal v \<noteq> None"
    and es2: "es = map (the \<circ> ?f) ?skvs" by auto
  let ?ms = "map (\<lambda>(k, v). (k, the (json_marshal v), json_of v)) ?skvs"
  have "es = map member_text ?ms"
    unfolding es2 map_map using some by (intro map_cong) (auto simp: member_text_def)
  moreover have "json_of (GMap kvs) = JObj (map member_of ?ms)"
    by (simp add: map_prod_id sort_map_snd member_of_def comp_def split_def)
  moreover have "\<forall>(k, t, j) \<in> set ?ms. reads m t j"
  proof clarsimp
    fix k v
    assume kv: "(k, v) \<in> set kvs"
    then obtain u where "json_marshal v = Some u" using some by auto
    moreover have "go_value v" "shallow m v" using GMap.prems(2,3) kv n by auto
    ultimately show "reads m (the (json_marshal v)) (json_of v)"
      using GMap.IH [OF kv, of v] by simp
  qed
  ultimately show ?case using reads_object [of ?ms m] es(2) n by simp
next
  case (GList vs)
  from GList.prems(3) obtain m where n: "n = Suc m" by (cases n) auto
  from GList.prems(1) obtain ts where ts: "all_some (map json_marshal vs) = Some ts"
    "t = CHR ''['' # join '','' ts @ [CHR '']'']" by (auto simp: encode_array_def)
  note all = all_some_eq [OF ts(1)]
  have "list_all2 (reads m) ts (map json_of vs)"
    unfolding conjunct2 [OF all] list_all2_map1 list_all2_map2
  proof (rule list.rel_refl_strong)
    fix v
    assume v: "v \<in> set vs"
    then obtain u where "json_marshal v = Some u" using all by auto
    then show "reads m ((the \<circ> json_marshal) v) (json_of v)"
      using GList.IH [OF v, of u m] GList.prems(2,3) v n by simp
  qed
  from reads_array [OF this] show ?case using ts(2) n by simp
next
  case (GStrs ss)
  from GStrs.prems(3) obtain m where n: "n = Suc m" by (cases n) auto
  have "all_some (map (\<lambda>s. Some (quote s)) ss) = Some (map quote ss)"
    using all_some_map [of "map quote ss"] by (simp add: comp_def)
  then have t: "t = CHR ''['' # join '','' (map quote ss) @ [CHR '']'']"
    using GStrs.prems(1) by (simp add: encode_array_def)
  have "list_all2 (reads m) (map quote ss) (map (\<lambda>s. JStr (repair s) (escape s)) ss)"
    by (induction ss) (simp_all add: reads_string)
  from reads_array [OF this] show ?case using t n by simp
next
  case (GOther v)
  show ?case
  proof (cases v)
    case (Some g)
    with GOther.IH [of g t n] GOther.prems show ?thesis by simp
  qed (use GOther.prems in simp)
qed (auto simp: reads_word reads_string reads_number lex_itoa)

text \<open>The texts of structs.\<close>

lemma reads_mono: "reads n t j \<Longrightarrow> n \<le> m \<Longrightarrow> reads m t j"
  by (simp add: reads_def)

lemma reads_struct:
  assumes "\<forall>(k, t, j) \<in> set ms. reads n t j"
  shows "\<exists>s. encode_struct (map (\<lambda>(k, t, j). (k, Some t)) ms) = Some s \<and> reads (Suc n) s (JObj (map member_of ms))"
proof -
  have e: "map (\<lambda>(k, t, j). (k, Some t)) ms = map (\<lambda>(k, t). (k, Some t)) (map (\<lambda>(k, t, j). (k, t)) ms)"
    "map (\<lambda>(k, t). quote k @ '':'' @ t) (map (\<lambda>(k, t, j). (k, t)) ms) = map member_text ms"
    by (simp_all add: comp_def split_def member_text_def)
  have "encode_struct (map (\<lambda>(k, t, j). (k, Some t)) ms) =
      Some (CHR ''{'' # join '','' (map member_text ms) @ [CHR ''}''])"
    unfolding e(1) encode_struct_texts e(2) ..
  with reads_object [OF assms] show ?thesis by blast
qed

lemma reads_texts:
  assumes "list_all2 (\<lambda>e j. \<exists>t. e = Some t \<and> reads n t j) es js"
  shows "\<exists>s. encode_array es = Some s \<and> reads (Suc n) s (JArr js)"
proof -
  have "\<exists>ts. es = map Some ts \<and> list_all2 (reads n) ts js"
    using assms
  proof (induction rule: list_all2_induct)
    case (Cons e es j js)
    then obtain t ts where "e = Some t" "reads n t j" "es = map Some ts" "list_all2 (reads n) ts js" by blast
    then show ?case by (intro exI [of _ "t # ts"]) simp
  qed simp
  then obtain ts where "es = map Some ts" "list_all2 (reads n) ts js" by blast
  then show ?thesis using reads_array by (simp add: encode_array_def)
qed

lemma json_read_reads:
  assumes "reads n t j" "n \<le> max_nesting"
  shows "json_read t = Some (j, [])"
proof -
  have "scan WantValue [] (t @ []) = scan (After j) [] []"
    using assms unfolding reads_def by (metis add_0_right ends_number_Nil list.size(3))
  then show ?thesis unfolding json_read_def by (simp add: scan.simps [of "After _"])
qed

lemma json_parse_reads: "reads n t j \<Longrightarrow> n \<le> max_nesting \<Longrightarrow> json_parse t = Some j"
  using json_read_reads [of n t j] by (simp add: json_parse_def skip_space_def)

lemma json_read_marshal:
  assumes "json_marshal v = Some t" "go_value v" "shallow max_nesting v"
  shows "json_read t = Some (json_of v, [])"
  using json_read_reads [OF reads_marshal [OF assms] order_refl] .

theorem json_parse_marshal:
  assumes "json_marshal v = Some t" "go_value v" "shallow max_nesting v"
  shows "json_parse t = Some (json_of v)"
  using json_read_marshal [OF assms] by (simp add: json_parse_def skip_space_def)

subsection \<open>A value after one trip through its text\<close>

primrec generic :: "goval \<Rightarrow> goval" where
  "generic GNil = GNil"
| "generic (GBool b) = GBool b"
| "generic (GInt i) = GFloat (the (number_text (itoa i)))"
| "generic (GFloat t) = GFloat t"
| "generic (GStr s) = GStr (repair s)"
| "generic (GMap kvs) =
     GMap (members (map (\<lambda>(k, v). (repair k, v)) (sort_key fst (map (map_prod id generic) kvs))))"
| "generic GNilMap = GNil"
| "generic (GList vs) = GList (map generic vs)"
| "generic GNilList = GNil"
| "generic (GStrs ss) = GList (map (GStr \<circ> repair) ss)"
| "generic GNilStrs = GNil"
| "generic (GOther v) = (case map_option generic v of None \<Rightarrow> GNil | Some g \<Rightarrow> g)"

definition generic_map :: "gomap \<Rightarrow> gomap" where
  "generic_map kvs =
     members (map (\<lambda>(k, v). (repair k, v)) (sort_key fst (map (map_prod id generic) kvs)))"

lemma number_text_int:
  assumes "\<bar>i\<bar> < 2 ^ 64"
  shows "\<exists>t. number_text (itoa i) = Some t"
proof -
  have v: "number_value (decimal n) = of_nat n" "lex_sign ''-'' (decimal n) = ([], decimal n)"
    "lex_number (decimal n) = Some (decimal n, [])" for n
    using lex_parts [OF int_text_decimal, of "[]" "[]" n]
    by (simp_all add: dotted_def exponent_text_def decimal_value_def)
  have "number_value (itoa i) = of_int \<bar>i\<bar>"
    using v negative_number(2) [OF v(3) v(2)] by (simp add: itoa_def)
  moreover have fits: "\<exists>x. rn64 (of_int j) = Some x" if "0 \<le> j" "j < 2 ^ 64" for j
  proof (cases "j = 0")
    case False
    let ?y = "of_int j :: rat"
    have y: "0 < ?y" using that(1) False by simp
    have "of_int 1 \<le> ?y" using that(1) False by (simp only: of_int_le_iff)
    then have "(2 :: rat) powi 0 < 2 powi (ilog2 ?y + 1)"
      using ilog2_bounds(2) [OF y] by simp
    then have l0: "0 \<le> ilog2 ?y"
      using power_int_increasing [of "ilog2 ?y + 1" 0 "2 :: rat"] by (cases "0 \<le> ilog2 ?y") simp_all
    have "?y < of_int (2 ^ 64)" using that(2) by (simp only: of_int_less_iff)
    then have "(2 :: rat) powi ilog2 ?y < 2 powi 64" using ilog2_bounds(1) [OF y] by simp
    then have l1: "ilog2 ?y < 64"
      using power_int_increasing [of 64 "ilog2 ?y" "2 :: rat"] by (cases "ilog2 ?y < 64") simp_all
    have "float_unit ?y = 2 powi (ilog2 ?y - 52)" using l0 by (simp add: float_unit_def)
    then have r: "of_int (round_half_even (?y / float_unit ?y)) * float_unit ?y = rn ?y"
      by (simp add: rn_pos [OF y])
    have "rn ?y \<le> 2 powi (ilog2 ?y + 1)" by (rule rn_bounds(2) [OF y])
    also have "\<dots> \<le> 2 powi 64" using l1 by (intro power_int_increasing) simp_all
    also have "\<dots> < (2 :: rat) powi 1024" by (rule power_int_strict_increasing) simp_all
    finally show ?thesis using y by (simp add: rn64_def Let_def r)
  qed simp
  ultimately obtain x where "parse_float (itoa i) = Some x"
    using fits [of "\<bar>i\<bar>"] assms by (auto simp: parse_float_def)
  then show ?thesis by (simp add: number_text_def)
qed

lemma all_some_mapI: "(\<And>x. x \<in> set xs \<Longrightarrow> f x = Some (g x)) \<Longrightarrow> all_some (map f xs) = Some (map g xs)"
  by (induction xs) auto

lemma any_of_json:
  "json_marshal v \<noteq> None \<Longrightarrow> go_value v \<Longrightarrow> any_of (json_of v) = Some (generic v)"
proof (induction v)
  case (GInt i)
  then show ?case using number_text_int [of i] by auto
next
  case (GFloat t)
  then show ?case by (auto split: if_splits)
next
  case (GMap kvs)
  have ok: "any_of (json_of v) = Some (generic v)" if kv: "(k, v) \<in> set kvs" for k v
  proof -
    have "json_marshal v \<noteq> None" using GMap.prems(1) kv unfolding json_marshal_None by auto
    moreover have "go_value v" using GMap.prems(2) kv by auto
    ultimately show ?thesis using GMap.IH [OF kv, of v] by simp
  qed
  let ?skvs = "sort_key fst kvs"
  have "all_some (map (\<lambda>p. map_option (Pair (repair (fst p))) (any_of (json_of (snd p)))) ?skvs) =
      Some (map (\<lambda>p. (repair (fst p), generic (snd p))) ?skvs)"
    using ok by (intro all_some_mapI) auto
  then show ?case by (simp add: map_prod_id sort_map_snd comp_def split_def)
next
  case (GList vs)
  have "all_some (map (\<lambda>v. any_of (json_of v)) vs) = Some (map generic vs)"
  proof (rule all_some_mapI)
    fix v
    assume v: "v \<in> set vs"
    have "json_marshal v \<noteq> None" using GList.prems(1) v unfolding json_marshal_None by auto
    then show "any_of (json_of v) = Some (generic v)" using GList.IH [OF v] GList.prems(2) v by simp
  qed
  then show ?case by (simp add: comp_def)
next
  case (GStrs ss)
  have "all_some (map (\<lambda>s. Some (GStr (repair s))) ss) = Some (map (\<lambda>s. GStr (repair s)) ss)"
    by (rule all_some_mapI) simp
  then show ?case by (simp add: comp_def)
next
  case (GOther v)
  show ?case
  proof (cases v)
    case (Some g)
    with GOther.IH [of g] GOther.prems show ?thesis by simp
  qed (use GOther.prems in simp)
qed simp_all

theorem unmarshal_marshal:
  assumes "json_marshal v = Some t" "go_value v" "shallow max_nesting v"
  shows "unmarshal_any t = Some (generic v)"
  using json_parse_marshal [OF assms] any_of_json [of v] assms by (simp add: unmarshal_any_def)

theorem unmarshal_map_marshal:
  assumes "json_marshal (GMap kvs) = Some t" "go_value (GMap kvs)" "shallow max_nesting (GMap kvs)"
  shows "unmarshal_map t = Some (Some (generic_map kvs))"
proof -
  have "any_of (json_of (GMap kvs)) = Some (GMap (generic_map kvs))"
    using any_of_json [of "GMap kvs"] assms(1,2) by (simp add: generic_map_def)
  moreover obtain js where "json_of (GMap kvs) = JObj js" by simp
  ultimately show ?thesis
    using json_parse_marshal [OF assms] by (simp add: unmarshal_map_def del: json_of.simps any_of.simps)
qed

lemma repair_ascii: "\<forall>c \<in> set s. byte c < 128 \<Longrightarrow> repair s = s"
  by (induction s) (simp_all add: repair_def encode_rune_byte)

lemma repair_idem [simp]: "repair (repair s) = repair s"
  by (simp add: repair_def runes_of_runes scalar_runes)

lemma fold_update_distinct:
  "distinct (map fst (xs @ kvs)) \<Longrightarrow> fold (\<lambda>(k, v). AList.update k v) kvs xs = xs @ kvs"
proof (induction kvs arbitrary: xs)
  case (Cons kv kvs)
  obtain k v where kv: "kv = (k, v)" by (cases kv)
  then have "k \<notin> fst ` set xs" using Cons.prems by auto
  then have "AList.update k v xs = xs @ [(k, v)]" by (induction xs) auto
  then show ?case using Cons.IH [of "xs @ [(k, v)]"] Cons.prems kv by simp
qed simp

lemma members_id: "distinct (map fst kvs) \<Longrightarrow> sorted (map fst kvs) \<Longrightarrow> members kvs = kvs"
  using fold_update_distinct [of "[]" kvs] by (simp add: members_def sort_key_id_if_sorted)

lemma fold_update_keeps:
  "distinct (map fst xs) \<Longrightarrow> distinct (map fst (fold (\<lambda>(k, v). AList.update k v) kvs xs))
     \<and> set (fold (\<lambda>(k, v). AList.update k v) kvs xs) \<subseteq> set xs \<union> set kvs"
proof (induction kvs arbitrary: xs)
  case (Cons kv kvs)
  obtain k v where kv: "kv = (k, v)" by (cases kv)
  have "distinct (map fst (AList.update k v xs))" using Cons.prems by (rule distinct_update)
  from Cons.IH [OF this] show ?case using kv set_updateD [of _ k v xs] by auto
qed simp

lemma members_props:
  "distinct (map fst (members kvs))" "sorted (map fst (members kvs))" "set (members kvs) \<subseteq> set kvs"
proof -
  note f = fold_update_keeps [of "[]" kvs]
  show "set (members kvs) \<subseteq> set kvs" using f by (simp add: members_def)
  show "sorted (map fst (members kvs))" by (simp add: members_def)
  have "mset (map fst (members kvs)) = mset (map fst (fold (\<lambda>(k, v). AList.update k v) kvs []))"
    by (simp add: members_def)
  then show "distinct (map fst (members kvs))" using f mset_eq_imp_distinct_iff by fastforce
qed

lemma number_finite: "lex_number t = Some (t, []) \<Longrightarrow> finite_float t"
proof -
  assume t: "lex_number t = Some (t, [])"
  have "lex_number ''-Inf'' = None"
    by (simp add: lex_number_def lex_sign_def lex_int_def lex_digits_def is_digit_def byte_def)
  moreover have "\<not> is_digit (CHR ''N'')" by (simp add: is_digit_def byte_def)
  ultimately show ?thesis using t lex_number_head [OF t] by (auto simp: finite_float_def)
qed

lemma map_pairs_id:
  "\<forall>p \<in> set m. h (fst p) = fst p \<and> f (snd p) = snd p \<Longrightarrow>
     map (\<lambda>p. (fst p, f (snd p))) m = m \<and> map (\<lambda>p. (h (fst p), snd p)) m = m"
  by (induction m) auto

text \<open>A second trip changes nothing.\<close>

lemma generic_idem: "json_marshal v \<noteq> None \<Longrightarrow> go_value v \<Longrightarrow>
    generic (generic v) = generic v \<and> go_value (generic v) \<and> json_marshal (generic v) \<noteq> None"
proof (induction v)
  case (GInt i)
  then obtain t where "number_text (itoa i) = Some t" using number_text_int [of i] by auto
  with number_text_stable [OF this] number_finite [of t] show ?case by simp
next
  case (GMap kvs)
  let ?m = "members (map (\<lambda>p. (repair (fst p), generic (snd p))) (sort_key fst kvs))"
  have el: "repair k = k \<and> generic g = g \<and> go_value g \<and> json_marshal g \<noteq> None" if kg: "(k, g) \<in> set ?m" for k g
  proof -
    have "(k, g) \<in> set (map (\<lambda>p. (repair (fst p), generic (snd p))) (sort_key fst kvs))"
      using members_props(3) kg by blast
    then obtain k0 v where kv: "(k0, v) \<in> set kvs" "k = repair k0" "g = generic v" by auto
    have "json_marshal v \<noteq> None" using GMap.prems(1) kv(1) unfolding json_marshal_None by auto
    moreover have "go_value v" using GMap.prems(2) kv(1) by auto
    ultimately show ?thesis using GMap.IH [OF kv(1), of v] kv by simp
  qed
  have g: "generic (GMap kvs) = GMap ?m"
    by (simp add: map_prod_id sort_map_snd comp_def split_def)
  have "\<forall>p \<in> set ?m. repair (fst p) = fst p \<and> generic (snd p) = snd p"
  proof
    fix p
    assume "p \<in> set ?m"
    then have "(fst p, snd p) \<in> set ?m" by (simp only: prod.collapse)
    from el [OF this] show "repair (fst p) = fst p \<and> generic (snd p) = snd p" by blast
  qed
  note ids = map_pairs_id [OF this]
  have "sort_key fst ?m = ?m" using members_props(2) by (rule sort_key_id_if_sorted)
  moreover have "members ?m = ?m" using members_props by (intro members_id)
  ultimately have "generic (GMap ?m) = GMap ?m"
    unfolding generic.simps map_prod_id split_def conjunct1 [OF ids] by (simp only: conjunct2 [OF ids])
  moreover have "\<forall>(k, g) \<in> set ?m. go_value g" using el by blast
  then have "go_value (GMap ?m)" by (intro go_value.simps(3) [THEN iffD2] conjI members_props(1))
  moreover have "\<not> (\<exists>(k, g) \<in> set ?m. unserialisable g)" using el unfolding json_marshal_None by blast
  then have "json_marshal (GMap ?m) \<noteq> None" unfolding json_marshal_None by (simp only: unserialisable.simps not_False_eq_True)
  ultimately show ?case unfolding g by blast
next
  case (GList vs)
  then show ?case unfolding json_marshal_None by auto
next
  case (GOther v)
  show ?case
  proof (cases v)
    case (Some g)
    with GOther.IH [of g] GOther.prems show ?thesis by simp
  qed (use GOther.prems in simp)
qed (auto simp: encode_array_None split: if_splits)

lemma shallow_generic: "shallow n v \<Longrightarrow> shallow n (generic v)"
proof (induction v arbitrary: n)
  case (GMap kvs)
  let ?m = "members (map (\<lambda>p. (repair (fst p), generic (snd p))) (sort_key fst kvs))"
  have "shallow (n - 1) g" if kg: "(k, g) \<in> set ?m" for k g
  proof -
    have "(k, g) \<in> set (map (\<lambda>p. (repair (fst p), generic (snd p))) (sort_key fst kvs))"
      using members_props(3) kg by blast
    then obtain k0 v where kv: "(k0, v) \<in> set kvs" "g = generic v" by auto
    then show ?thesis using GMap.IH [OF kv(1), of v "n - 1"] GMap.prems by auto
  qed
  moreover have "generic (GMap kvs) = GMap ?m"
    by (simp add: map_prod_id sort_map_snd comp_def split_def)
  ultimately show ?case using GMap.prems by auto
next
  case (GOther v)
  show ?case
  proof (cases v)
    case (Some g)
    with GOther.IH [of g] GOther.prems show ?thesis by simp
  qed simp
qed auto

text \<open>The same of a whole map.\<close>

definition go_map :: "gomap \<Rightarrow> bool" where
  "go_map kvs \<longleftrightarrow> go_value (GMap kvs) \<and> shallow max_nesting (GMap kvs) \<and> json_marshal (GMap kvs) \<noteq> None"

lemma generic_GMap: "generic (GMap kvs) = GMap (generic_map kvs)"
  by (simp add: generic_map_def)

lemma generic_map_idem:
  assumes "go_map kvs"
  shows "go_map (generic_map kvs)" "generic_map (generic_map kvs) = generic_map kvs"
proof -
  have "generic (generic (GMap kvs)) = generic (GMap kvs) \<and> go_value (generic (GMap kvs))
      \<and> json_marshal (generic (GMap kvs)) \<noteq> None"
    using assms unfolding go_map_def by (intro generic_idem) blast+
  moreover have "shallow max_nesting (generic (GMap kvs))"
    using assms unfolding go_map_def by (intro shallow_generic) blast
  ultimately show "go_map (generic_map kvs)" "generic_map (generic_map kvs) = generic_map kvs"
    unfolding generic_GMap go_map_def by blast+
qed

lemma go_map_text:
  assumes "go_map kvs"
  obtains t where "json_marshal (GMap kvs) = Some t" "t \<noteq> []" "unmarshal_map t = Some (Some (generic_map kvs))"
proof -
  obtain t where t: "json_marshal (GMap kvs) = Some t" using assms by (auto simp: go_map_def)
  moreover have "t \<noteq> []" using t by (auto simp: encode_object_def)
  moreover have "unmarshal_map t = Some (Some (generic_map kvs))"
    using assms by (intro unmarshal_map_marshal [OF t]) (simp_all only: go_map_def)
  ultimately show thesis using that by blast
qed

end
