(* ===== verification/Go_Quote.thy ===== *)
theory Go_Quote
  imports Go_Json
begin

text \<open>
  \<open>strconv.Quote\<close>, which is what \<open>%q\<close> prints. Which runes beyond ASCII are printable
  (\<open>strconv.IsPrint\<close>, a table of Unicode) is an argument.
\<close>

definition print_rune :: "(rune \<Rightarrow> bool) \<Rightarrow> rune \<Rightarrow> bool" where
  "print_rune isPrint r = (if r < 128 then 32 \<le> r \<and> r < 127 else isPrint r)"

definition hex2 :: "nat \<Rightarrow> string" where
  "hex2 n = [hex_digit (n div 16 mod 16), hex_digit (n mod 16)]"

definition quote_rune :: "(rune \<Rightarrow> bool) \<Rightarrow> rune \<Rightarrow> string" where
  "quote_rune isPrint r =
     (if r = 34 \<or> r = 92 then [backslash, char_of r]
      else if print_rune isPrint r then encode_rune r
      else if r = 7 then [backslash, CHR ''a'']
      else if r = 8 then [backslash, CHR ''b'']
      else if r = 12 then [backslash, CHR ''f'']
      else if r = 10 then [backslash, CHR ''n'']
      else if r = 13 then [backslash, CHR ''r'']
      else if r = 9 then [backslash, CHR ''t'']
      else if r = 11 then [backslash, CHR ''v'']
      else if r < 32 \<or> r = 127 then [backslash, CHR ''x''] @ hex2 r
      else if r < 65536 then [backslash, CHR ''u''] @ hex2 (r div 256) @ hex2 r
      else [backslash, CHR ''U''] @ hex2 (r div 16777216) @ hex2 (r div 65536) @ hex2 (r div 256) @ hex2 r)"

function quote_body :: "(rune \<Rightarrow> bool) \<Rightarrow> string \<Rightarrow> string" where
  "quote_body isPrint s =
     (if s = [] then []
      else let (r, w) = decode_rune s in
        (if r = RuneError \<and> w = 1 then [backslash, CHR ''x''] @ hex2 (byte (hd s))
         else quote_rune isPrint r) @ quote_body isPrint (drop w s))"
  by pat_completeness auto
termination
proof (relation "measure (length \<circ> snd)")
  fix isPrint :: "rune \<Rightarrow> bool" and s :: string and x r w
  assume "s \<noteq> []" "x = decode_rune s" "(r, w) = x"
  with decode_rune_width [of s] show "((isPrint, drop w s), isPrint, s) \<in> measure (length \<circ> snd)"
    by (metis comp_apply diff_less in_measure length_drop length_greater_0_conv less_eq_Suc_le
        One_nat_def snd_conv)
qed simp

declare quote_body.simps [simp del]

definition go_quote :: "(rune \<Rightarrow> bool) \<Rightarrow> string \<Rightarrow> string" where
  "go_quote isPrint s = CHR 0x22 # quote_body isPrint s @ [CHR 0x22]"

end
