(* ===== verification/Ai_Codec.thy ===== *)
theory Ai_Codec
  imports Ai_Guard Go_Json_Roundtrip Go_Quote
begin

text \<open>
  The texts that \<open>internal/aiclient/client.go\<close> reads and writes: the finding as it is copied into
  the packet (a \<open>json.RawMessage\<close>, which \<open>json.Marshal\<close> compacts), and the structs that the sidecar's
  answer is decoded into.
\<close>

subsection \<open>A raw message\<close>

text \<open>
  Outside a string literal white space is dropped; inside one the characters that matter to HTML and
  the two line separators are escaped. The first argument is whether a literal is open, the second
  whether the last byte was a backslash in it.
\<close>

fun compact_text :: "bool \<Rightarrow> bool \<Rightarrow> string \<Rightarrow> string" where
  "compact_text inq esc [] = []"
| "compact_text inq esc (c # s) =
     (if \<not> inq then
        (if json_space c then compact_text False False s
         else c # compact_text (c = CHR 0x22) False s)
      else
        (let inq' = (esc \<or> c \<noteq> CHR 0x22); esc' = (\<not> esc \<and> c = backslash)
         in if c \<in> set ''<>&'' then
              backslash # ''u00'' @ hex2 (byte c) @ compact_text inq' esc' s
            else
              (case s of
                 d # e # t \<Rightarrow>
                   (if byte c = 226 \<and> byte d = 128 \<and> (byte e = 168 \<or> byte e = 169)
                    then backslash # ''u202'' @ hex_digit (byte e mod 16) # compact_text inq' False t
                    else c # compact_text inq' esc' s)
               | _ \<Rightarrow> c # compact_text inq' esc' s)))"

text \<open>What \<open>json.Marshal\<close> writes for a \<open>json.RawMessage\<close> that is not empty.\<close>

definition compact :: "string \<Rightarrow> string option" where
  "compact s = (if json_parse s = None then None else Some (compact_text False False s))"

subsection \<open>The answer\<close>

record chat_message =
  cmRole :: string
  cmContent :: string

definition zero_message :: chat_message where
  "zero_message = \<lparr>cmRole = [], cmContent = []\<rparr>"

definition put_message :: "string \<Rightarrow> json \<Rightarrow> chat_message \<Rightarrow> chat_message option" where
  "put_message n v m =
     (if n = ''role'' then map_option (\<lambda>s. m\<lparr>cmRole := s\<rparr>) (decode_string v (cmRole m))
      else map_option (\<lambda>s. m\<lparr>cmContent := s\<rparr>) (decode_string v (cmContent m)))"

text \<open>A choice has one field, its message.\<close>

definition decode_choice :: "json \<Rightarrow> chat_message \<Rightarrow> chat_message option" where
  "decode_choice v m =
     decode_struct [''message''] (\<lambda>n. decode_struct [''role'', ''content''] put_message) v m"

record api_error =
  apMessage :: string
  apType :: string

definition put_error :: "string \<Rightarrow> json \<Rightarrow> api_error \<Rightarrow> api_error option" where
  "put_error n v e =
     (if n = ''message'' then map_option (\<lambda>s. e\<lparr>apMessage := s\<rparr>) (decode_string v (apMessage e))
      else map_option (\<lambda>s. e\<lparr>apType := s\<rparr>) (decode_string v (apType e)))"

record chat_response =
  crpChoices :: "chat_message list \<times> nat"
  crpError :: "api_error option"

text \<open>A pointer is set to nil by \<open>null\<close>, and to a new struct if it is nil.\<close>

definition put_response :: "string \<Rightarrow> json \<Rightarrow> chat_response \<Rightarrow> chat_response option" where
  "put_response n v r =
     (if n = ''choices''
      then map_option (\<lambda>x. r\<lparr>crpChoices := x\<rparr>) (decode_slice decode_choice zero_message v (crpChoices r))
      else if v = JNull then Some (r\<lparr>crpError := None\<rparr>)
      else map_option (\<lambda>e. r\<lparr>crpError := Some e\<rparr>)
             (decode_struct [''message'', ''type''] put_error v
               (case crpError r of None \<Rightarrow> \<lparr>apMessage = [], apType = []\<rparr> | Some e \<Rightarrow> e)))"

definition decode_response :: "string \<Rightarrow> chat_response option" where
  "decode_response =
     unmarshal_struct [''choices'', ''error''] put_response \<lparr>crpChoices = ([], 0), crpError = None\<rparr>"

record explanation_slots =
  esText :: string
  esVerify :: "string list \<times> nat"
  esDisclaimer :: string

definition put_explanation :: "string \<Rightarrow> json \<Rightarrow> explanation_slots \<Rightarrow> explanation_slots option" where
  "put_explanation n v e =
     (if n = ''explanation'' then map_option (\<lambda>s. e\<lparr>esText := s\<rparr>) (decode_string v (esText e))
      else if n = ''what_to_verify''
      then map_option (\<lambda>x. e\<lparr>esVerify := x\<rparr>) (decode_slice decode_string [] v (esVerify e))
      else map_option (\<lambda>s. e\<lparr>esDisclaimer := s\<rparr>) (decode_string v (esDisclaimer e)))"

definition decode_explanation :: "string \<Rightarrow> explanation option" where
  "decode_explanation content =
     map_option
       (\<lambda>e. \<lparr>exExplanationText = esText e, exWhatToVerify = slice_elems (esVerify e),
              exDisclaimer = esDisclaimer e\<rparr>)
       (unmarshal_struct [''explanation'', ''what_to_verify'', ''disclaimer''] put_explanation
         \<lparr>esText = [], esVerify = ([], 0), esDisclaimer = []\<rparr> content)"

text \<open>The \<open>severity\<close> of a finding.\<close>

definition decode_severity :: "string \<Rightarrow> string option" where
  "decode_severity = unmarshal_struct [''severity''] (\<lambda>n. decode_string) []"

lemma compact_some: "json_marshal v = Some t \<Longrightarrow> go_value v \<Longrightarrow> shallow max_nesting v \<Longrightarrow> compact t \<noteq> None"
  by (simp add: compact_def json_parse_marshal)

end
