(* ===== verification/Go_Http.thy ===== *)
theory Go_Http
  imports Go_Prelude
begin

text \<open>
  What the program uses of a \<open>net/http\<close> request: its method, URL, headers and body. The keys that
  the program passes to \<open>Header.Set\<close> are in canonical form already.
\<close>

record http_request =
  rqMethod :: string
  rqURL :: string
  rqHeader :: "(string \<times> string) list"
  rqBody :: string

definition set_header :: "string \<Rightarrow> string \<Rightarrow> http_request \<Rightarrow> http_request" where
  "set_header k v req = req\<lparr>rqHeader := AList.update k v (rqHeader req)\<rparr>"

lemma set_header_simps [simp]:
  "rqMethod (set_header k v req) = rqMethod req" "rqURL (set_header k v req) = rqURL req"
  "rqBody (set_header k v req) = rqBody req"
  "map_of (rqHeader (set_header k v req)) = (map_of (rqHeader req))(k \<mapsto> v)"
  by (simp_all add: set_header_def update_conv')

end
