(* ===== verification/Ai_Client.thy ===== *)
theory Ai_Client
  imports Ai_Evidence Ai_Codec Go_Http
begin

text \<open>
  \<open>internal/aiclient/client.go\<close>: the request for one explanation, its attempts and what each answer
  counts as. The network is an argument: per attempt the answer to the request and whether the context
  is done before it; so is which runes beyond ASCII are printable. The lemmas: which attempt decides
  and how, and what every explanation that is returned satisfies, the check on its severity included.
\<close>

subsection \<open>The client\<close>

definition Millisecond :: duration where "Millisecond = 1000000"

definition defaultTimeout :: duration where "defaultTimeout = 20 * Second"
definition defaultMaxRetries :: int where "defaultMaxRetries = 2"
definition defaultRetryBackoff :: duration where "defaultRetryBackoff = 400 * Millisecond"
definition defaultModel :: string where "defaultModel = ''hexward-ai''"
definition defaultMaxTokens :: int where "defaultMaxTokens = 512"
definition DefaultBaseURL :: string where "DefaultBaseURL = ''http://127.0.0.1:8435''"

record ai_client =
  acBaseURL :: string
  acModel :: string
  acTimeout :: duration
  acMaxRetries :: int
  acRetryBackoff :: duration
  acGrammar :: string
  acMaxTokens :: int
  acAPIKey :: string
  acNoThinking :: bool

datatype ai_option =
    WithModel string
  | WithTimeout duration
  | WithMaxRetries int
  | WithRetryBackoff duration
  | WithGrammar string
  | WithMaxTokens int
  | WithAPIKey string
  | WithDisableThinking

fun apply_option :: "ai_option \<Rightarrow> ai_client \<Rightarrow> ai_client" where
  "apply_option (WithModel m) c = (if m \<noteq> [] then c\<lparr>acModel := m\<rparr> else c)"
| "apply_option (WithTimeout d) c = (if d > 0 then c\<lparr>acTimeout := d\<rparr> else c)"
| "apply_option (WithMaxRetries n) c = (if n \<ge> 0 then c\<lparr>acMaxRetries := n\<rparr> else c)"
| "apply_option (WithRetryBackoff d) c = (if d > 0 then c\<lparr>acRetryBackoff := d\<rparr> else c)"
| "apply_option (WithGrammar g) c = c\<lparr>acGrammar := g\<rparr>"
| "apply_option (WithMaxTokens n) c = (if n > 0 then c\<lparr>acMaxTokens := n\<rparr> else c)"
| "apply_option (WithAPIKey k) c = c\<lparr>acAPIKey := trim_space k\<rparr>"
| "apply_option WithDisableThinking c = c\<lparr>acNoThinking := True\<rparr>"

text \<open>\<open>strings.TrimRight(s, "/")\<close>.\<close>

definition trim_slashes :: "string \<Rightarrow> string" where
  "trim_slashes s = rev (dropWhile (\<lambda>c. c = CHR ''/'') (rev s))"

definition New_client :: "string \<Rightarrow> ai_option list \<Rightarrow> ai_client" where
  "New_client baseURL opts =
     (let baseURL = (if baseURL = [] then DefaultBaseURL else baseURL);
          c = \<lparr>acBaseURL = trim_slashes baseURL, acModel = defaultModel, acTimeout = defaultTimeout,
               acMaxRetries = defaultMaxRetries, acRetryBackoff = defaultRetryBackoff, acGrammar = [],
               acMaxTokens = defaultMaxTokens, acAPIKey = [], acNoThinking = False\<rparr>
      in fold apply_option opts c)"

subsection \<open>Errors\<close>

text \<open>Every error \<open>Explain\<close> can return. \<open>Exhausted\<close> holds the number of attempts and the last error.\<close>

datatype ai_error =
    Required string
  | MarshalPacket
  | MarshalRequest
  | BuildRequest gerror
  | TransportFailed string gerror
  | ReadFailed gerror
  | ServerError int string
  | RequestRejected int string
  | NotJSON string
  | SidecarError string
  | NoChoices
  | NotSchema string
  | EmptyExplanation
  | Rejected
  | ContextDone gerror
  | Exhausted int "ai_error option"

fun isRetryable :: "ai_error \<Rightarrow> bool" where
  "isRetryable (TransportFailed _ _) = True"
| "isRetryable (ReadFailed _) = True"
| "isRetryable (ServerError _ _) = True"
| "isRetryable (SidecarError _) = True"
| "isRetryable _ = False"

text \<open>\<open>errors.Is\<close> with \<open>ErrUnavailable\<close>: the last error is only part of the text of \<open>Exhausted\<close>.\<close>

fun IsUnavailable :: "ai_error \<Rightarrow> bool" where
  "IsUnavailable (ServerError _ _) = True"
| "IsUnavailable (SidecarError _) = True"
| "IsUnavailable (Exhausted _ _) = True"
| "IsUnavailable _ = False"

definition IsRejected :: "ai_error \<Rightarrow> bool" where
  "IsRejected e \<longleftrightarrow> e = Rejected"

text \<open>\<open>truncate\<close>.\<close>

definition truncate_bytes :: "string \<Rightarrow> nat \<Rightarrow> string" where
  "truncate_bytes b n = (if length b \<le> n then b else take n b @ ellipsis)"

subsection \<open>What the model is told\<close>

definition systemPrompt :: string where
  "systemPrompt =
      ''You are the Hexward AI Assist narrator. You will receive one JSON evidence packet ''
      @ ''describing a single security finding that a Hexward product's own deterministic engine ''
      @ ''already produced.''
      @ [newline]
      @ [newline]
      @ ''Rules you must follow exactly:''
      @ [newline]
      @ ''1. Use ONLY the fields inside the evidence packet. Do not state any fact (an ID, a rule ''
      @ ''number, an IP address, a hostname, a CVE identifier, a date, or any other specific ''
      @ ''value) that is not present in the packet. Do not calculate, convert, round or ''
      @ ''re-express numbers and dates (no \"that is about 11 years\"); quote them exactly as the ''
      @ ''packet gives them. If something relevant is not in the packet, say plainly that the ''
      @ ''evidence does not contain it.''
      @ [newline]
      @ ''2. You narrate; you do not decide. Never invent a new finding, never change or imply a ''
      @ ''different severity, never claim something is fixed, safe, or dangerous beyond what the ''
      @ ''packet already states.''
      @ [newline]
      @ ''3. If the feature is hexward.explain_finding: explain in plain language what the ''
      @ ''finding means, using only its check, title, target, severity, status, remediation and ''
      @ ''evidence fields, and why it matters to the owner of that target. Keep the explanation ''
      @ ''to at most four sentences. In what_to_verify give two to four concrete checks a person ''
      @ ''can actually perform before acting (for example: confirm who owns the target, confirm ''
      @ ''the change window, re-run the check after the fix) ''
      @ em_dash
      @ '' do not simply restate evidence values as list items. You may restate the packet's own ''
      @ ''remediation text; never invent a different fix, command, or configuration.''
      @ [newline]
      @ ''4. If the feature is rulehawk.explain_finding: explain in plain language why the rule ''
      @ ''relationship in the packet matters, and list what a human should verify before touching ''
      @ ''the rule. Never draft a replacement rule or CLI command.''
      @ [newline]
      @ ''5. If the feature is auditlight.why_disappeared: explain, using only the packet's ''
      @ ''\"status\" field and its plain meaning (fixed / no_longer_detected / check_failed / ''
      @ ''target_skipped), which of those happened and what that means for how much the report ''
      @ ''can be trusted. Never claim \"fixed\" for any other status value.''
      @ [newline]
      @ ''6. Respond with a single JSON object matching the required schema exactly: ''
      @ ''{\"explanation\": string, \"what_to_verify\": [string, ...], \"disclaimer\": string}. ''
      @ ''No prose outside the JSON object.''"

definition languageInstruction :: "string \<Rightarrow> string" where
  "languageInstruction lang =
     (if lang = ''id'' then
      ''Write the \"explanation\" and every \"what_to_verify\" item in Bahasa Indonesia. Keep ''
      @ ''rule text, hostnames, IP addresses, identifiers and other field values exactly as they ''
      @ ''appear in the packet ''
      @ em_dash
      @ '' do not translate them.''
      else
      ''Write the \"explanation\" and every \"what_to_verify\" item in English.'')"

definition findingSeverity :: "evidence_packet \<Rightarrow> string" where
  "findingSeverity p =
     (if epFeature p \<noteq> FeatureExplainFinding then []
      else case decode_severity (epFinding p) of None \<Rightarrow> [] | Some s \<Rightarrow> trim_space s)"

definition severityInstruction :: "(rune \<Rightarrow> bool) \<Rightarrow> evidence_packet \<Rightarrow> string" where
  "severityInstruction isPrint p =
     (let sev = findingSeverity p
      in if sev = [] then []
         else ''The engine rated this finding '' @ go_quote isPrint sev
           @ ''. If you mention severity, use exactly that word; never call it higher or lower. '')"

subsection \<open>The request\<close>

record chat_request =
  crqModel :: string
  crqMessages :: "chat_message list"
  crqTemperature :: string
  crqGrammar :: string
  crqMaxTokens :: int
  crqNoThinking :: bool

definition evidence_packet_json :: "evidence_packet \<Rightarrow> string option" where
  "evidence_packet_json p =
     encode_struct
       ([(''feature'', Some (quote (epFeature p))), (''product'', Some (quote (epProduct p))),
         (''finding'', compact (epFinding p))]
        @ omitempty ''language'' (epLanguage p))"

definition chat_message_json :: "chat_message \<Rightarrow> string option" where
  "chat_message_json m =
     encode_struct [(''role'', Some (quote (cmRole m))), (''content'', Some (quote (cmContent m)))]"

definition chat_request_json :: "chat_request \<Rightarrow> string option" where
  "chat_request_json r =
     encode_struct
       ([(''model'', Some (quote (crqModel r))),
         (''messages'', encode_array (map chat_message_json (crqMessages r))),
         (''temperature'', Some (crqTemperature r))]
        @ omitempty ''grammar'' (crqGrammar r)
        @ (if crqMaxTokens r = 0 then [] else [(''max_tokens'', Some (itoa (crqMaxTokens r)))])
        @ (if crqNoThinking r
           then [(''chat_template_kwargs'', json_marshal (GMap [(''enable_thinking'', GBool False)]))]
           else []))"

definition chat_request_of :: "(rune \<Rightarrow> bool) \<Rightarrow> ai_client \<Rightarrow> evidence_packet \<Rightarrow> string \<Rightarrow> chat_request" where
  "chat_request_of isPrint c p payload =
     \<lparr>crqModel = acModel c,
      crqMessages =
        [\<lparr>cmRole = ''system'',
          cmContent = systemPrompt @ [newline] @ ''7. '' @ languageInstruction (epLanguage p)\<rparr>,
         \<lparr>cmRole = ''user'',
          cmContent = payload @ [newline, newline] @ severityInstruction isPrint p
            @ languageInstruction (epLanguage p)\<rparr>],
      crqTemperature = ''0.2'', crqGrammar = acGrammar c, crqMaxTokens = acMaxTokens c,
      crqNoThinking = acNoThinking c\<rparr>"

subsection \<open>One attempt\<close>

text \<open>
  The network: whether the URL makes a request, what the transport answers to a request (a status,
  the bytes of the body and the error that ended it, if one did), and whether the context is done
  before an attempt.
\<close>

record ai_env =
  aeNewRequest :: "string \<Rightarrow> gerror option"
  aeDo :: "nat \<Rightarrow> http_request \<Rightarrow> gerror + int \<times> string \<times> gerror option"
  aeDone :: "nat \<Rightarrow> gerror option"

text \<open>\<open>io.ReadAll(io.LimitReader(body, n))\<close>.\<close>

definition read_limited :: "nat \<Rightarrow> string \<times> gerror option \<Rightarrow> gerror + string" where
  "read_limited n r =
     (case r of (bytes, err) \<Rightarrow>
        if length bytes \<ge> n then Inr (take n bytes)
        else case err of None \<Rightarrow> Inr bytes | Some e \<Rightarrow> Inl e)"

definition ai_request :: "ai_client \<Rightarrow> string \<Rightarrow> http_request" where
  "ai_request c body =
     (let req = set_header ''Content-Type'' ''application/json''
            \<lparr>rqMethod = ''POST'', rqURL = acBaseURL c @ ''/v1/chat/completions'', rqHeader = [],
             rqBody = body\<rparr>
      in if acAPIKey c \<noteq> [] then set_header ''Authorization'' (''Bearer '' @ acAPIKey c) req
         else req)"

definition grade_content :: "string \<Rightarrow> ai_error + explanation" where
  "grade_content content =
     (case decode_explanation content of
        None \<Rightarrow> Inl (NotSchema (truncate_bytes content 300))
      | Some expl \<Rightarrow>
          if trim_space (exExplanationText expl) = [] then Inl EmptyExplanation else Inr expl)"

definition grade_answer :: "int \<Rightarrow> string \<Rightarrow> ai_error + explanation" where
  "grade_answer status body =
     (if status \<ge> 500 then Inl (ServerError status (truncate_bytes body 300))
      else if status \<ge> 400 then Inl (RequestRejected status (truncate_bytes body 300))
      else
        case decode_response body of
          None \<Rightarrow> Inl (NotJSON (truncate_bytes body 300))
        | Some parsed \<Rightarrow>
            (case crpError parsed of
               Some e \<Rightarrow> Inl (SidecarError (apMessage e))
             | None \<Rightarrow>
                 (case slice_elems (crpChoices parsed) of
                    [] \<Rightarrow> Inl NoChoices
                  | choice # _ \<Rightarrow> grade_content (cmContent choice))))"

text \<open>\<open>doRequest\<close>: the request that was sent, if one was, and the result.\<close>

definition doRequest ::
    "ai_env \<Rightarrow> ai_client \<Rightarrow> chat_request \<Rightarrow> nat
     \<Rightarrow> http_request option \<times> (ai_error + explanation)" where
  "doRequest env c r attempt =
     (case chat_request_json r of
        None \<Rightarrow> (None, Inl MarshalRequest)
      | Some body \<Rightarrow>
          (case aeNewRequest env (acBaseURL c @ ''/v1/chat/completions'') of
             Some e \<Rightarrow> (None, Inl (BuildRequest e))
           | None \<Rightarrow>
               (let req = ai_request c body
                in (Some req,
                    case aeDo env attempt req of
                      Inl e \<Rightarrow> Inl (TransportFailed (acBaseURL c) e)
                    | Inr (status, answer) \<Rightarrow>
                        (case read_limited (2 ^ 20) answer of
                           Inl e \<Rightarrow> Inl (ReadFailed e)
                         | Inr bytes \<Rightarrow> grade_answer status bytes)))))"

subsection \<open>Explain\<close>

definition CanonicalDisclaimer :: string where
  "CanonicalDisclaimer = ''AI-generated summary '' @ em_dash @ '' verify against raw findings''"

definition accept :: "string \<Rightarrow> explanation \<Rightarrow> ai_error + explanation" where
  "accept sev expl =
     (case applyOutputGuards expl sev of (expl, rejected) \<Rightarrow>
        if rejected then Inl Rejected else Inr (expl\<lparr>exDisclaimer := CanonicalDisclaimer\<rparr>))"

text \<open>
  The loop over the attempts with \<open>n\<close> of them left: the requests that were sent and the result.
\<close>

fun explain_loop ::
    "(nat \<Rightarrow> gerror option) \<Rightarrow> (nat \<Rightarrow> http_request option \<times> (ai_error + explanation)) \<Rightarrow> string \<Rightarrow> int
     \<Rightarrow> nat \<Rightarrow> nat \<Rightarrow> ai_error option \<Rightarrow> http_request list \<times> (ai_error + explanation)" where
  "explain_loop finished request sev tries 0 attempt lastErr = ([], Inl (Exhausted tries lastErr))"
| "explain_loop finished request sev tries (Suc n) attempt lastErr =
     (case (if attempt > 0 then finished attempt else None) of
        Some e \<Rightarrow> ([], Inl (ContextDone e))
      | None \<Rightarrow>
          (case request attempt of (sent, result) \<Rightarrow>
             let sent = (case sent of None \<Rightarrow> [] | Some req \<Rightarrow> [req])
             in case result of
                  Inr expl \<Rightarrow> (sent, accept sev expl)
                | Inl e \<Rightarrow>
                    if \<not> isRetryable e then (sent, Inl e)
                    else case explain_loop finished request sev tries n (Suc attempt) (Some e) of
                           (rest, result) \<Rightarrow> (sent @ rest, result)))"

definition Explain ::
    "(rune \<Rightarrow> bool) \<Rightarrow> ai_env \<Rightarrow> ai_client \<Rightarrow> evidence_packet \<Rightarrow> http_request list \<times> (ai_error + explanation)" where
  "Explain isPrint env c p =
     (if epFeature p = [] then ([], Inl (Required ''Feature''))
      else if epProduct p = [] then ([], Inl (Required ''Product''))
      else if epFinding p = [] then ([], Inl (Required ''Finding''))
      else
        let p = p\<lparr>epLanguage := NormalizeLanguage (epLanguage p)\<rparr>
        in case evidence_packet_json p of
             None \<Rightarrow> ([], Inl MarshalPacket)
           | Some payload \<Rightarrow>
               explain_loop (aeDone env) (doRequest env c (chat_request_of isPrint c p payload))
                 (findingSeverity p) (acMaxRetries c + 1) (nat (acMaxRetries c + 1)) 0 None)"

subsection \<open>Lemmas\<close>

lemma New_client_retries: "0 \<le> acMaxRetries (New_client baseURL opts)"
proof -
  have "0 \<le> acMaxRetries c \<Longrightarrow> 0 \<le> acMaxRetries (fold apply_option os c)" for os c
  proof (induction os arbitrary: c)
    case (Cons opt os)
    have "0 \<le> acMaxRetries (apply_option opt c)" using Cons.prems by (cases opt) simp_all
    then show ?case using Cons.IH by simp
  qed simp
  then show ?thesis by (simp add: New_client_def Let_def defaultMaxRetries_def)
qed

lemma chat_request_json_ok: "\<exists>body. chat_request_json r = Some body"
proof -
  have m: "chat_message_json x \<noteq> None" for x by (simp add: chat_message_json_def encode_struct_None)
  then have "encode_array (map chat_message_json (crqMessages r)) \<noteq> None"
    unfolding encode_array_None by (auto simp: image_iff eq_commute)
  moreover have "json_marshal (GMap [(''enable_thinking'', GBool False)]) \<noteq> None"
    unfolding json_marshal_None by simp
  ultimately have "chat_request_json r \<noteq> None"
    unfolding chat_request_json_def encode_struct_None by (auto simp del: json_marshal.simps)
  then show ?thesis by simp
qed

text \<open>A result after which another attempt follows.\<close>

fun to_retry :: "ai_error + 'a \<Rightarrow> bool" where
  "to_retry (Inl e) = isRetryable e"
| "to_retry (Inr _) = False"

text \<open>What the result of the deciding attempt becomes.\<close>

fun decided :: "string \<Rightarrow> ai_error + explanation \<Rightarrow> ai_error + explanation" where
  "decided sev (Inl e) = Inl e"
| "decided sev (Inr expl) = accept sev expl"

definition sent_list :: "http_request option \<Rightarrow> http_request list" where
  "sent_list s = (case s of None \<Rightarrow> [] | Some req \<Rightarrow> [req])"

text \<open>One round of the loop, with the answer of its attempt known.\<close>

lemma loop_step:
  assumes "request k = (s, r)"
  shows "explain_loop finished request sev tries (Suc n) k lastErr =
    (case (if k > 0 then finished k else None) of
       Some e \<Rightarrow> ([], Inl (ContextDone e))
     | None \<Rightarrow>
         (if to_retry r
          then map_prod (\<lambda>rest. sent_list s @ rest) id
            (explain_loop finished request sev tries n (Suc k) (Some (projl r)))
          else (sent_list s, decided sev r)))"
  unfolding explain_loop.simps(2) assms prod.case Let_def sent_list_def [symmetric]
  by (cases r) (auto simp: map_prod_def split: option.split prod.split)

declare explain_loop.simps(2) [simp del]

text \<open>
  The first attempt before which the context is done, or whose result is not to be retried, decides.
  The context is not asked before the first attempt.
\<close>

lemma loop_decided:
  "snd (explain_loop finished request sev tries n k lastErr) =
    (case find (\<lambda>i. (0 < i \<and> finished i \<noteq> None) \<or> \<not> to_retry (snd (request i))) [k..<k + n] of
       None \<Rightarrow> Inl (Exhausted tries (if n = 0 then lastErr else Some (projl (snd (request (k + n - 1))))))
     | Some i \<Rightarrow>
         (if 0 < i \<and> finished i \<noteq> None then Inl (ContextDone (the (finished i)))
          else decided sev (snd (request i))))"
proof (induction n arbitrary: k lastErr)
  case (Suc n)
  obtain s r where req: "request k = (s, r)" by fastforce
  have up: "[k..<k + Suc n] = k # [Suc k..<Suc k + n]" by (simp add: upt_conv_Cons)
  note step = loop_step [where request = request and k = k and finished = finished, OF req]
  show ?case
  proof (cases "0 < k \<and> finished k \<noteq> None")
    case True
    then show ?thesis unfolding step up by auto
  next
    case go: False
    then have f: "(if k > 0 then finished k else None) = None" by auto
    show ?thesis
    proof (cases "to_retry r")
      case True
      have "snd (explain_loop finished request sev tries (Suc n) k lastErr) =
          snd (explain_loop finished request sev tries n (Suc k) (Some (projl r)))"
        unfolding step f using True by simp
      also have "\<dots> = (case find (\<lambda>i. (0 < i \<and> finished i \<noteq> None) \<or> \<not> to_retry (snd (request i))) [Suc k..<Suc k + n] of
          None \<Rightarrow> Inl (Exhausted tries (if n = 0 then Some (projl r)
            else Some (projl (snd (request (Suc k + n - 1))))))
        | Some i \<Rightarrow> (if 0 < i \<and> finished i \<noteq> None then Inl (ContextDone (the (finished i)))
            else decided sev (snd (request i))))"
        by (rule Suc.IH)
      also have "(if n = 0 then Some (projl r) else Some (projl (snd (request (Suc k + n - 1))))) =
          Some (projl (snd (request (k + Suc n - 1))))"
        by (simp add: req)
      finally show ?thesis unfolding up using True go
        by (simp only: find.simps req snd_conv simp_thms if_False nat.distinct)
    next
      case False
      then show ?thesis unfolding step up f using go by (auto simp: req simp del: upt_Suc)
    qed
  qed
qed simp

lemma loop_result:
  assumes "\<forall>k. finished k = None"
  shows "snd (explain_loop finished request sev tries n k lastErr) =
    (case find (\<lambda>i. \<not> to_retry (snd (request i))) [k..<k + n] of
       None \<Rightarrow> Inl (Exhausted tries (if n = 0 then lastErr else Some (projl (snd (request (k + n - 1))))))
     | Some i \<Rightarrow> decided sev (snd (request i)))"
  unfolding loop_decided using assms by (simp split: option.split)

lemma loop_sent:
  "length (fst (explain_loop finished request sev tries n k lastErr)) \<le> n \<and>
   set (fst (explain_loop finished request sev tries n k lastErr)) \<subseteq> {req. \<exists>i. fst (request i) = Some req}"
proof (induction n arbitrary: k lastErr)
  case (Suc n)
  obtain s r where req: "request k = (s, r)" by fastforce
  have "set (sent_list s) \<subseteq> {req. \<exists>i. fst (request i) = Some req}" "length (sent_list s) \<le> 1"
    using req by (auto simp: sent_list_def split: option.splits intro: exI [of _ k])
  then show ?case
    unfolding loop_step [where request = request and k = k, OF req] using Suc.IH [of "Suc k" "Some (projl r)"]
    by (auto split: option.split)
qed simp

lemma loop_success:
  "snd (explain_loop finished request sev tries n k lastErr) = Inr expl \<Longrightarrow>
   \<exists>i e. k \<le> i \<and> i < k + n \<and> snd (request i) = Inr e \<and> accept sev e = Inr expl"
proof (induction n arbitrary: k lastErr)
  case (Suc n)
  obtain s r where req: "request k = (s, r)" by fastforce
  note loop = Suc.prems [unfolded loop_step [where request = request and k = k, OF req]]
  show ?case
  proof (cases "to_retry r")
    case True
    then have "snd (explain_loop finished request sev tries n (Suc k) (Some (projl r))) = Inr expl"
      using loop by (simp split: option.splits if_splits)
    from Suc.IH [OF this] show ?thesis by (metis Suc_leD add_Suc_shift)
  next
    case False
    then have "decided sev r = Inr expl" using loop by (simp split: option.splits if_splits)
    then obtain e where "r = Inr e" "accept sev e = Inr expl" by (cases r) auto
    with req show ?thesis by (intro exI [of _ k] exI [of _ e]) simp
  qed
qed simp

lemma doRequest_sent: "fst (doRequest env c r k) = Some req \<Longrightarrow>
    \<exists>body. chat_request_json r = Some body \<and> req = ai_request c body"
  by (auto simp: doRequest_def Let_def split: option.splits)

lemma accept_guarded:
  assumes "accept sev e = Inr expl"
  shows "exDisclaimer expl = CanonicalDisclaimer \<and> \<not> MatchString statusClaim (exExplanationText expl) \<and>
    minGroundedExplanation \<le> length (runes (trim_space (exExplanationText expl))) \<and>
    list_all (\<lambda>v. \<not> MatchString statusClaim v \<and> trim_space v \<noteq> []) (exWhatToVerify expl)"
  using assms dropStatusClaims_clean
  by (auto simp: accept_def applyOutputGuards_def Let_def list_all_iff split: if_splits)

lemma accept_severity:
  assumes "accept sev e = Inr expl"
  defines "engine \<equiv> map_runes lower_rune (trim_space sev)"
  shows "engine = [] \<or> \<not> MatchString (conflict_re engine) (exExplanationText expl) \<or>
    trim_space (concat (filter (\<lambda>s. \<not> MatchString (conflict_re engine) s) (sentences (exExplanationText e)))) = []"
proof (cases "engine = []")
  case False
  have "trim_space [] = []" by simp
  then have "sev \<noteq> []" using False by (auto simp: engine_def map_runes_def)
  then have "exExplanationText expl = dropStatusClaims (dropConflictingSeverity (exExplanationText e) sev)"
    using assms(1) by (auto simp: accept_def applyOutputGuards_def Let_def split: if_splits)
  with guarded_severity [of sev "exExplanationText e"] False show ?thesis unfolding engine_def by argo
qed simp

text \<open>
  C12: Explain is decided by one attempt: the first one before which the context is done (it is asked
  before every attempt but the first), which gives the context's error, or whose result is not to be
  retried, which is an error or an explanation for the guards. If there is none among the attempts, one
  more than the retries, it returns that the sidecar is unavailable, with the last error. A packet
  without feature, product or finding, or with a finding that is not JSON, is refused before.
\<close>

theorem Explain_decided:
  "snd (Explain isPrint env c p) =
    (let q = p\<lparr>epLanguage := NormalizeLanguage (epLanguage p)\<rparr>
     in if epFeature p = [] then Inl (Required ''Feature'')
        else if epProduct p = [] then Inl (Required ''Product'')
        else if epFinding p = [] then Inl (Required ''Finding'')
        else case evidence_packet_json q of
          None \<Rightarrow> Inl MarshalPacket
        | Some payload \<Rightarrow>
            let n = nat (acMaxRetries c + 1);
                answer = (\<lambda>k. snd (doRequest env c (chat_request_of isPrint c q payload) k));
                cancelled = (\<lambda>k. 0 < k \<and> aeDone env k \<noteq> None)
            in case find (\<lambda>k. cancelled k \<or> \<not> to_retry (answer k)) [0..<n] of
                 None \<Rightarrow>
                   Inl (Exhausted (acMaxRetries c + 1) (if n = 0 then None else Some (projl (answer (n - 1)))))
               | Some k \<Rightarrow>
                   if cancelled k then Inl (ContextDone (the (aeDone env k)))
                   else decided (findingSeverity q) (answer k))"
proof (cases "evidence_packet_json (p\<lparr>epLanguage := NormalizeLanguage (epLanguage p)\<rparr>)")
  case None
  then show ?thesis by (simp add: Explain_def)
next
  case (Some payload)
  then show ?thesis
    unfolding Explain_def Let_def Some option.case
    by (simp only: if_distrib [of snd] snd_conv loop_decided add_0)
qed


lemma doRequest_answers:
  assumes "aeNewRequest env (acBaseURL c @ ''/v1/chat/completions'') = None"
    and "\<And>req. aeDo env k req = Inr (status, bytes, None)" and "length bytes < 2 ^ 20"
  shows "snd (doRequest env c r k) = grade_answer status bytes"
  using chat_request_json_ok [of r] assms by (auto simp: doRequest_def Let_def read_limited_def)

definition sample_print :: "rune \<Rightarrow> bool" where
  "sample_print r = False"

text \<open>An answer of the sidecar: a chat completion whose content is the JSON of an explanation.\<close>

definition sample_content :: string where
  "sample_content = ''{\"explanation\":\"Renew it in six days. It was set.\"}''"

definition sample_body :: string where
  "sample_body = ''{\"choices\":[{\"message\":{\"content\":'' @ quote sample_content @ ''}}]}''"

definition sample_ai_env :: ai_env where
  "sample_ai_env =
     \<lparr>aeNewRequest = (\<lambda>_. None),
      aeDo = (\<lambda>k _. Inr (if k = 0 then (503, [], None) else (200, sample_body, None))),
      aeDone = (\<lambda>_. None)\<rparr>"

definition sample_packet :: evidence_packet where
  "sample_packet = \<lparr>epFeature = ''f'', epProduct = ''p'', epFinding = ''{}'', epLanguage = ''en''\<rparr>"

definition sample_explained :: explanation where
  "sample_explained =
     \<lparr>exExplanationText = ''Renew it in six days.'', exWhatToVerify = [], exDisclaimer = CanonicalDisclaimer\<rparr>"

lemma sample_content_decodes: "decode_explanation sample_content = Some sample_answer"
proof -
  let ?v = "GMap [(''explanation'', GStr ''Renew it in six days. It was set.'')]"
  have "json_marshal ?v = Some sample_content" unfolding sample_content_def by code_simp
  moreover have "go_value ?v" "shallow max_nesting ?v" by (simp_all add: max_nesting_def)
  ultimately have "json_parse sample_content = Some (json_of ?v)" by (rule json_parse_marshal)
  then show ?thesis
    by (simp add: decode_explanation_def unmarshal_struct_def decode_struct_def field_of_def
        put_explanation_def decode_string_def slice_elems_def repair_ascii byte_def sample_answer_def)
qed

lemma sample_body_decodes:
  "decode_response sample_body = Some \<lparr>crpChoices = ([\<lparr>cmRole = [], cmContent = sample_content\<rparr>], 1), crpError = None\<rparr>"
proof -
  let ?v = "GMap [(''choices'', GList [GMap [(''message'', GMap [(''content'', GStr sample_content)])]])]"
  have "json_marshal ?v = Some sample_body"
    unfolding sample_body_def sample_content_def by code_simp
  moreover have "go_value ?v" "shallow max_nesting ?v" by (simp_all add: max_nesting_def)
  ultimately have "json_parse sample_body = Some (json_of ?v)" by (rule json_parse_marshal)
  moreover have "repair sample_content = sample_content"
    by (rule repair_ascii) (simp add: sample_content_def byte_def)
  ultimately show ?thesis
    by (simp add: decode_response_def unmarshal_struct_def decode_struct_def field_of_def
        put_response_def decode_slice_def decode_choice_def put_message_def decode_string_def
        zero_message_def repair_ascii byte_def)
qed

lemma sample_graded: "grade_answer 200 sample_body = Inr sample_answer"
proof -
  have "trim_space (exExplanationText sample_answer) \<noteq> []"
    unfolding sample_answer_def
    by (subst explanation.simps, subst trim_space_id) (simp_all add: printable_def byte_def)
  then show ?thesis
    by (simp add: grade_answer_def sample_body_decodes slice_elems_def grade_content_def sample_content_decodes)
qed

lemma sample_body_short: "length sample_body < 2 ^ 20"
proof -
  have "length sample_body < 200" unfolding sample_body_def sample_content_def by code_simp
  then show ?thesis by simp
qed

lemma sample_answers:
  "snd (doRequest sample_ai_env c r k) =
     (if k = 0 then Inl (ServerError 503 []) else Inr sample_answer)"
proof (cases "k = 0")
  case True
  then show ?thesis
    by (subst doRequest_answers [where status = 503 and bytes = "[]"])
      (simp_all add: sample_ai_env_def grade_answer_def truncate_bytes_def)
next
  case False
  then show ?thesis
    by (subst doRequest_answers [where status = 200 and bytes = sample_body])
      (simp_all add: sample_ai_env_def sample_graded sample_body_short [simplified])
qed

lemma sample_payload: "\<exists>payload. evidence_packet_json
    (sample_packet\<lparr>epLanguage := NormalizeLanguage (epLanguage sample_packet)\<rparr>) = Some payload"
proof -
  have "json_marshal (GMap []) = Some ''{}''" by (simp add: encode_object_def)
  from compact_some [OF this] have "compact ''{}'' \<noteq> None" by (simp add: max_nesting_def)
  then have "evidence_packet_json (sample_packet\<lparr>epLanguage := l\<rparr>) \<noteq> None" for l
    unfolding evidence_packet_json_def encode_struct_None by (auto simp: sample_packet_def)
  then show ?thesis by simp
qed

lemma sample_accept: "accept [] sample_answer = Inr sample_explained"
  by (simp add: accept_def sample_guarded sample_explained_def)

theorem Explain_decided_witness:
  "snd (Explain sample_print sample_ai_env (New_client [] []) sample_packet) = Inr sample_explained"
proof -
  obtain payload where payload: "evidence_packet_json
      (sample_packet\<lparr>epLanguage := NormalizeLanguage (epLanguage sample_packet)\<rparr>) = Some payload"
    using sample_payload by blast
  have r: "acMaxRetries (New_client [] []) = 2" by (simp add: New_client_def Let_def defaultMaxRetries_def)
  have three: "[0..<nat (2 + 1)] = [0, 1, 2]" by (simp add: upt_rec)
  have s: "findingSeverity (sample_packet\<lparr>epLanguage := l\<rparr>) = []" for l
    by (simp add: findingSeverity_def sample_packet_def FeatureExplainFinding_def)
  have p: "epFeature sample_packet \<noteq> []" "epProduct sample_packet \<noteq> []" "epFinding sample_packet \<noteq> []"
    "aeDone sample_ai_env k = None" for k
    by (simp_all add: sample_packet_def sample_ai_env_def)
  have "snd (Explain sample_print sample_ai_env (New_client [] []) sample_packet) = decided [] (Inr sample_answer)"
    unfolding Explain_decided Let_def payload option.case r three s sample_answers using p by simp
  then show ?thesis by (simp add: sample_accept)
qed

text \<open>Explain refuses the packet before any attempt, or it runs the loop.\<close>

lemma Explain_cases:
  obtains (refused) e where "Explain isPrint env c p = ([], Inl e)"
  | (attempts) q payload where "q = p\<lparr>epLanguage := NormalizeLanguage (epLanguage p)\<rparr>"
      "evidence_packet_json q = Some payload"
      "Explain isPrint env c p =
        explain_loop (aeDone env) (doRequest env c (chat_request_of isPrint c q payload))
          (findingSeverity q) (acMaxRetries c + 1) (nat (acMaxRetries c + 1)) 0 None"
proof -
  define q where "q = p\<lparr>epLanguage := NormalizeLanguage (epLanguage p)\<rparr>"
  show thesis
  proof (cases "epFeature p = [] \<or> epProduct p = [] \<or> epFinding p = []")
    case True
    then have "\<exists>e. Explain isPrint env c p = ([], Inl e)" by (auto simp: Explain_def)
    then show thesis using refused by blast
  next
    case False
    then have e: "Explain isPrint env c p = (case evidence_packet_json q of
        None \<Rightarrow> ([], Inl MarshalPacket)
      | Some payload \<Rightarrow> explain_loop (aeDone env) (doRequest env c (chat_request_of isPrint c q payload))
          (findingSeverity q) (acMaxRetries c + 1) (nat (acMaxRetries c + 1)) 0 None)"
      unfolding Explain_def Let_def q_def by (simp only: if_False simp_thms de_Morgan_disj)
    show thesis
      by (cases "evidence_packet_json q")
        (use e refused attempts q_def in \<open>simp_all only: option.case\<close>)
  qed
qed

lemma Explain_sends:
  "length (fst (Explain isPrint env c p)) \<le> nat (acMaxRetries c + 1) \<and>
   (\<exists>req. set (fst (Explain isPrint env c p)) \<subseteq> {req} \<and>
      rqMethod req = ''POST'' \<and> rqURL req = acBaseURL c @ ''/v1/chat/completions'' \<and>
      map_of (rqHeader req) ''Authorization'' =
        (if acAPIKey c = [] then None else Some (''Bearer '' @ acAPIKey c)))"
proof -
  have req: "rqMethod (ai_request c b) = ''POST''" "rqURL (ai_request c b) = acBaseURL c @ ''/v1/chat/completions''"
    "map_of (rqHeader (ai_request c b)) ''Authorization'' =
      (if acAPIKey c = [] then None else Some (''Bearer '' @ acAPIKey c))" for b
    by (simp_all add: ai_request_def Let_def)
  have "\<exists>b. length (fst (Explain isPrint env c p)) \<le> nat (acMaxRetries c + 1) \<and>
      set (fst (Explain isPrint env c p)) \<subseteq> {ai_request c b}"
  proof (cases rule: Explain_cases [of isPrint env c p])
    case (attempts q payload)
    obtain b where b: "chat_request_json (chat_request_of isPrint c q payload) = Some b"
      using chat_request_json_ok by blast
    have "{r. \<exists>i. fst (doRequest env c (chat_request_of isPrint c q payload) i) = Some r} \<subseteq> {ai_request c b}"
      using doRequest_sent b by fastforce
    moreover have "length (fst (Explain isPrint env c p)) \<le> nat (acMaxRetries c + 1)"
      unfolding attempts(3) by (rule loop_sent [THEN conjunct1])
    moreover have "set (fst (Explain isPrint env c p)) \<subseteq>
        {r. \<exists>i. fst (doRequest env c (chat_request_of isPrint c q payload) i) = Some r}"
      unfolding attempts(3) by (rule loop_sent [THEN conjunct2])
    ultimately show ?thesis by blast
  qed simp
  then show ?thesis using req by blast
qed

text \<open>
  C36: however the sidecar answers, Explain ends after at most one attempt more than the retries, and
  every request it sends is the same POST to the endpoint, with the key as a bearer token exactly if
  there is one.
\<close>

theorem Explain_requests:
  "length (fst (Explain isPrint env c p)) \<le> nat (acMaxRetries c + 1) \<and>
   (\<exists>req. set (fst (Explain isPrint env c p)) \<subseteq> {req} \<and>
      rqMethod req = ''POST'' \<and> rqURL req = acBaseURL c @ ''/v1/chat/completions'' \<and>
      map_of (rqHeader req) ''Authorization'' =
        (if acAPIKey c = [] then None else Some (''Bearer '' @ acAPIKey c)))"
  by (rule Explain_sends)

text \<open>
  C37: whatever the model answers, an explanation that Explain returns passed every output guard: it
  carries the canonical disclaimer, has at least twenty characters, claims no change of status anywhere,
  and its text states no severity but the engine's, unless each sentence of the answer that it was made
  from states another one: then the severity guard returns the answer as it is.
\<close>

theorem Explain_guarded:
  assumes "snd (Explain isPrint env c p) = Inr expl"
  shows "exDisclaimer expl = CanonicalDisclaimer \<and> \<not> MatchString statusClaim (exExplanationText expl) \<and>
    minGroundedExplanation \<le> length (runes (trim_space (exExplanationText expl))) \<and>
    list_all (\<lambda>v. \<not> MatchString statusClaim v \<and> trim_space v \<noteq> []) (exWhatToVerify expl) \<and>
    (let engine = map_runes lower_rune (trim_space (findingSeverity p))
     in engine = [] \<or> \<not> MatchString (conflict_re engine) (exExplanationText expl) \<or>
       (\<exists>q payload k answer. q = p\<lparr>epLanguage := NormalizeLanguage (epLanguage p)\<rparr> \<and>
          evidence_packet_json q = Some payload \<and>
          snd (doRequest env c (chat_request_of isPrint c q payload) k) = Inr answer \<and>
          trim_space (concat (filter (\<lambda>s. \<not> MatchString (conflict_re engine) s)
            (sentences (exExplanationText answer)))) = []))"
proof (cases rule: Explain_cases [of isPrint env c p])
  case (attempts q payload)
  then obtain k answer where k: "snd (doRequest env c (chat_request_of isPrint c q payload) k) = Inr answer"
    "accept (findingSeverity q) answer = Inr expl"
    using assms loop_success by metis
  have "findingSeverity q = findingSeverity p" by (simp add: attempts(1) findingSeverity_def)
  with accept_guarded [OF k(2)] accept_severity [OF k(2)] k(1) attempts(1,2) show ?thesis
    unfolding Let_def by metis
qed (use assms in simp)

definition sample_ai_once :: ai_env where
  "sample_ai_once = sample_ai_env\<lparr>aeDo := (\<lambda>_ _. Inr (200, sample_body, None))\<rparr>"

lemma sample_explains:
  "snd (Explain sample_print sample_ai_once (New_client [] []) sample_packet) = Inr sample_explained"
proof -
  obtain payload where payload: "evidence_packet_json
      (sample_packet\<lparr>epLanguage := NormalizeLanguage (epLanguage sample_packet)\<rparr>) = Some payload"
    using sample_payload by blast
  have a: "snd (doRequest sample_ai_once c r k) = Inr sample_answer" for c r k
    by (subst doRequest_answers [where status = 200 and bytes = sample_body])
      (simp_all add: sample_ai_once_def sample_ai_env_def sample_graded sample_body_short [simplified])
  have s: "findingSeverity (sample_packet\<lparr>epLanguage := l\<rparr>) = []" for l
    by (simp add: findingSeverity_def sample_packet_def FeatureExplainFinding_def)
  have p: "epFeature sample_packet \<noteq> []" "epProduct sample_packet \<noteq> []" "epFinding sample_packet \<noteq> []"
    "\<forall>k. aeDone sample_ai_once k = None"
    by (simp_all add: sample_packet_def sample_ai_once_def sample_ai_env_def)
  have r: "acMaxRetries (New_client [] []) = 2" by (simp add: New_client_def Let_def defaultMaxRetries_def)
  have n: "nat (2 + 1) = Suc 2" by simp
  show ?thesis
    using p(1-3) payload
    by (auto simp: Explain_def Let_def r n loop_result [OF p(4)] upt_conv_Cons a s sample_accept
        simp del: upt_Suc)
qed

theorem Explain_guarded_witness:
  "exDisclaimer sample_explained = CanonicalDisclaimer \<and>
   \<not> MatchString statusClaim (exExplanationText sample_explained)"
  using Explain_guarded [OF sample_explains] by simp

end
