(* ===== verification/Go_Time.thy ===== *)
theory Go_Time
  imports Go_Json_Roundtrip "HOL-Library.Monad_Syntax"
begin

text \<open>
  What the program uses of the package \<open>time\<close>: the calendar date of an instant, \<open>Time.Format\<close> with
  the layouts \<open>RFC3339\<close>, \<open>RFC3339Nano\<close>, \<open>Stamp\<close> and \<open>2 Jan 2006\<close>, the JSON text of a time and
  \<open>time.Parse\<close> with \<open>RFC3339\<close>, which is what reads it (\<open>parseRFC3339\<close> before it is a faster way to
  the same result). A \<open>ztime\<close> is an instant with the offset of its location from UTC in seconds.

  The lemmas: the date of a day is a date of the calendar and gives the day back, and the JSON text
  of a time is read as the same instant with the same offset.
\<close>

type_synonym ztime = "gtime \<times> int"

subsection \<open>The calendar\<close>

definition leap :: "int \<Rightarrow> bool" where
  "leap y \<longleftrightarrow> y mod 4 = 0 \<and> (y mod 100 \<noteq> 0 \<or> y mod 400 = 0)"

definition month_days :: "int \<Rightarrow> int list" where
  "month_days y = [31, if leap y then 29 else 28, 31, 30, 31, 30, 31, 31, 30, 31, 30, 31]"

text \<open>Days from 1 January of year 1 to 1 January of a year.\<close>

definition year_start :: "int \<Rightarrow> int" where
  "year_start y = (let n = y - 1 in 365 * n + n div 4 - n div 100 + n div 400)"

text \<open>The year of a day that is counted from there, and the day of the year from 0.\<close>

definition year_of :: "int \<Rightarrow> int \<times> int" where
  "year_of d =
     (let n400 = d div 146097; d = d mod 146097;
          n100 = min 3 (d div 36524); d = d - 36524 * n100;
          n4 = d div 1461; d = d mod 1461;
          n1 = min 3 (d div 365); d = d - 365 * n1
      in (400 * n400 + 100 * n100 + 4 * n4 + n1 + 1, d))"

fun month_of :: "int \<Rightarrow> int list \<Rightarrow> int \<Rightarrow> int \<times> int" where
  "month_of m [] d = (m, d + 1)"
| "month_of m (n # ns) d = (if d < n then (m, d + 1) else month_of (m + 1) ns (d - n))"

text \<open>Year, month and day of a day that is counted from the Unix epoch, and back.\<close>

definition epoch_day :: int where
  "epoch_day = 719162"

definition civil :: "int \<Rightarrow> int \<times> int \<times> int" where
  "civil day =
     (case year_of (day + epoch_day) of (y, d) \<Rightarrow>
        case month_of 1 (month_days y) d of (m, d) \<Rightarrow> (y, m, d))"

definition day_of :: "int \<Rightarrow> int \<Rightarrow> int \<Rightarrow> int" where
  "day_of y m d = year_start y + sum_list (take (nat (m - 1)) (month_days y)) + d - 1 - epoch_day"

definition valid_date :: "int \<Rightarrow> int \<Rightarrow> int \<Rightarrow> bool" where
  "valid_date y m d \<longleftrightarrow> 1 \<le> m \<and> m \<le> 12 \<and> 1 \<le> d \<and> d \<le> month_days y ! nat (m - 1)"

lemma year_start_split:
  assumes "0 \<le> b" "b < 4" "0 \<le> c" "c < 25" "0 \<le> e" "e < 4"
  shows "year_start (400 * a + 100 * b + 4 * c + e + 1) = 146097 * a + 36524 * b + 1461 * c + 365 * e"
proof -
  let ?n = "400 * a + 100 * b + 4 * c + e"
  have "?n div 4 = 100 * a + 25 * b + c" "?n div 100 = 4 * a + b" "?n div 400 = a"
    using assms by simp_all
  then show ?thesis by (simp add: year_start_def Let_def)
qed

lemma year_of_ok:
  assumes "year_of d = (y, k)"
  shows "year_start y + k = d \<and> 0 \<le> k \<and> k < (if leap y then 366 else 365)"
proof -
  define a where "a = d div 146097"
  define d1 where "d1 = d mod 146097"
  define b where "b = min 3 (d1 div 36524)"
  define d2 where "d2 = d1 - 36524 * b"
  define c where "c = d2 div 1461"
  define d3 where "d3 = d2 mod 1461"
  define e where "e = min 3 (d3 div 365)"
  have "year_of d = (400 * a + 100 * b + 4 * c + e + 1, d3 - 365 * e)"
    unfolding year_of_def Let_def a_def b_def c_def e_def d1_def d2_def d3_def ..
  then have y: "y = 400 * a + 100 * b + 4 * c + e + 1" and k: "k = d3 - 365 * e"
    using assms by simp_all
  have d: "d = 146097 * a + d1" "0 \<le> d1" "d1 < 146097" by (simp_all add: a_def d1_def)
  have b: "0 \<le> b" "b < 4" using d by (simp_all add: b_def pos_imp_zdiv_nonneg_iff)
  have d2: "0 \<le> d2" "d2 < 36524 \<or> b = 3 \<and> d2 \<le> 36524"
    using d by (auto simp: d2_def b_def min_def)
  have c: "d2 = 1461 * c + d3" "0 \<le> d3" "d3 < 1461" "0 \<le> c" "c < 25"
    using d2 by (auto simp: c_def d3_def pos_imp_zdiv_nonneg_iff)
  have e: "0 \<le> e" "e < 4" using c by (simp_all add: e_def pos_imp_zdiv_nonneg_iff)
  have k': "0 \<le> k" "k < 365 \<or> e = 3 \<and> k \<le> 365" using c by (auto simp: k e_def min_def)
  have "leap y" if "k = 365"
  proof -
    have e3: "e = 3" "d3 = 1460" using that k' k by auto
    then have y4: "y = 4 * (100 * a + 25 * b + c + 1)" by (simp add: y)
    show ?thesis
    proof (cases "c = 24")
      case True
      then have "d2 = 36524" using c e3 by simp
      then have "b = 3" using d2 by simp
      then have "y = 400 * (a + 1)" using y4 True by simp
      then show ?thesis by (simp add: leap_def)
    next
      case False
      have "y = 100 * (4 * a + b) + 4 * (c + 1)" using y4 by simp
      then have "y mod 100 = 4 * (c + 1) mod 100" by (simp only: mod_mult_self4)
      also have "\<dots> = 4 * (c + 1)" using c False by (intro mod_pos_pos_trivial) simp_all
      finally have "y mod 100 = 4 * (c + 1)" .
      then show ?thesis using c y4 by (simp add: leap_def)
    qed
  qed
  then have "k \<noteq> 365 \<or> leap y" by blast
  moreover have "year_start y + k = d"
    unfolding y using year_start_split [OF b c(4,5) e, of a] c(1) d(1) by (simp add: k d2_def)
  ultimately show ?thesis using k' by auto
qed

lemma month_of_ok:
  assumes "month_of m ns k = (m', d)" "0 \<le> k" "k < sum_list ns"
  shows "m \<le> m' \<and> nat (m' - m) < length ns \<and> 1 \<le> d \<and> d \<le> ns ! nat (m' - m) \<and>
    sum_list (take (nat (m' - m)) ns) + d - 1 = k"
  using assms
proof (induction m ns k rule: month_of.induct)
  case (2 m n ns k)
  show ?case
  proof (cases "k < n")
    case False
    then have "m + 1 \<le> m' \<and> nat (m' - (m + 1)) < length ns \<and> 1 \<le> d \<and> d \<le> ns ! nat (m' - (m + 1)) \<and>
      sum_list (take (nat (m' - (m + 1))) ns) + d - 1 = k - n"
      using 2 by simp
    moreover from this have "nat (m' - m) = Suc (nat (m' - (m + 1)))" by arith
    ultimately show ?thesis by simp
  qed (use 2 in auto)
qed simp

lemma civil_ok:
  assumes "civil day = (y, m, d)"
  shows "valid_date y m d" "day_of y m d = day"
proof -
  obtain k where yk: "year_of (day + epoch_day) = (y, k)" and md: "month_of 1 (month_days y) k = (m, d)"
    using assms by (auto simp: civil_def split: prod.splits)
  note ok = year_of_ok [OF yk]
  have "sum_list (month_days y) = (if leap y then 366 else 365)" by (simp add: month_days_def)
  then have "m \<ge> 1 \<and> nat (m - 1) < length (month_days y) \<and> 1 \<le> d \<and> d \<le> month_days y ! nat (m - 1) \<and>
      sum_list (take (nat (m - 1)) (month_days y)) + d - 1 = k"
    using month_of_ok [OF md] ok by simp
  moreover have "length (month_days y) = 12" by (simp add: month_days_def)
  ultimately show "valid_date y m d" "day_of y m d = day"
    using ok by (auto simp: valid_date_def day_of_def)
qed

lemma month_days_le: "nat (m - 1) < 12 \<Longrightarrow> month_days y ! nat (m - 1) \<le> 31"
proof -
  assume "nat (m - 1) < 12"
  moreover have "\<forall>n \<in> set (month_days y). n \<le> 31" by (simp add: month_days_def)
  moreover have "length (month_days y) = 12" by (simp add: month_days_def)
  ultimately show ?thesis by (metis nth_mem)
qed

subsection \<open>Time.Format\<close>

definition pad :: "nat \<Rightarrow> int \<Rightarrow> string" where
  "pad w i =
     (let s = decimal (nat \<bar>i\<bar>)
      in (if i < 0 then ''-'' else []) @ replicate (w - length s) (CHR ''0'') @ s)"

text \<open>What a clock in the location shows: the day, and the second of the day.\<close>

definition local_day :: "ztime \<Rightarrow> int \<times> int" where
  "local_day t = ((fst t div Second + snd t) div 86400, (fst t div Second + snd t) mod 86400)"

definition date_text :: "ztime \<Rightarrow> string" where
  "date_text t =
     (case civil (fst (local_day t)) of (y, m, d) \<Rightarrow> pad 4 y @ ''-'' @ pad 2 m @ ''-'' @ pad 2 d)"

definition clock_text :: "ztime \<Rightarrow> string" where
  "clock_text t =
     (let s = snd (local_day t)
      in pad 2 (s div 3600) @ '':'' @ pad 2 (s div 60 mod 60) @ '':'' @ pad 2 (s mod 60))"

text \<open>The fraction without its trailing zeros.\<close>

definition nano_text :: "int \<Rightarrow> string" where
  "nano_text ns =
     (if ns = 0 then [] else CHR ''.'' # rev (dropWhile (\<lambda>c. c = CHR ''0'') (rev (pad 9 ns))))"

definition zone_text :: "int \<Rightarrow> string" where
  "zone_text zone =
     (if zone = 0 then ''Z''
      else let minutes = (if zone < 0 then - (- zone div 60) else zone div 60)
           in (if minutes < 0 then ''-'' else ''+'')
              @ pad 2 (\<bar>minutes\<bar> div 60) @ '':'' @ pad 2 (\<bar>minutes\<bar> mod 60))"

definition format_RFC3339 :: "ztime \<Rightarrow> string" where
  "format_RFC3339 t = date_text t @ ''T'' @ clock_text t @ zone_text (snd t)"

definition format_RFC3339Nano :: "ztime \<Rightarrow> string" where
  "format_RFC3339Nano t =
     date_text t @ ''T'' @ clock_text t @ nano_text (fst t mod Second) @ zone_text (snd t)"

definition month_name :: "int \<Rightarrow> string" where
  "month_name m =
     [''Jan'', ''Feb'', ''Mar'', ''Apr'', ''May'', ''Jun'', ''Jul'', ''Aug'', ''Sep'', ''Oct'', ''Nov'', ''Dec'']
       ! nat (m - 1)"

text \<open>The layout \<open>2 Jan 2006\<close>, and \<open>Stamp\<close>, which is \<open>Jan _2 15:04:05\<close>.\<close>

definition format_date :: "ztime \<Rightarrow> string" where
  "format_date t =
     (case civil (fst (local_day t)) of (y, m, d) \<Rightarrow> itoa d @ '' '' @ month_name m @ '' '' @ pad 4 y)"

definition format_Stamp :: "ztime \<Rightarrow> string" where
  "format_Stamp t =
     (case civil (fst (local_day t)) of (y, m, d) \<Rightarrow>
        month_name m @ '' '' @ (if d < 10 then '' '' else []) @ itoa d @ '' '' @ clock_text t)"

text \<open>\<open>Time.MarshalJSON\<close> refuses what RFC 3339 has no text for.\<close>

definition marshal_time :: "ztime \<Rightarrow> string option" where
  "marshal_time t =
     (case civil (fst (local_day t)) of (y, m, d) \<Rightarrow>
        if y < 0 \<or> 9999 < y \<or> 24 \<le> \<bar>snd t\<bar> div 3600 then None
        else Some (CHR 0x22 # format_RFC3339Nano t @ [CHR 0x22]))"

text \<open>A \<open>time.Time\<close> of the clock, or its zero value, which is in UTC: \<open>zone\<close> is the host's time zone.\<close>

definition local_time :: "(gtime \<Rightarrow> int) \<Rightarrow> gtime \<Rightarrow> ztime" where
  "local_time zone t = (t, if t = zero_time then 0 else zone t)"

subsection \<open>time.Parse\<close>

definition skip_char :: "char \<Rightarrow> string \<Rightarrow> string option" where
  "skip_char c s = (case s of x # t \<Rightarrow> if x = c then Some t else None | [] \<Rightarrow> None)"

text \<open>\<open>getnum\<close>: two digits, or one if the number is not \<open>fixed\<close>.\<close>

definition getnum :: "bool \<Rightarrow> string \<Rightarrow> (int \<times> string) option" where
  "getnum fixed s =
     (case takeWhile is_digit (take 2 s) of
        [] \<Rightarrow> None
      | [c] \<Rightarrow> if fixed then None else Some (int (digits_value [c]), drop 1 s)
      | ds \<Rightarrow> Some (int (digits_value ds), drop 2 s))"

definition get_year :: "string \<Rightarrow> (int \<times> string) option" where
  "get_year s =
     (if length (takeWhile is_digit (take 4 s)) = 4 then Some (int (digits_value (take 4 s)), drop 4 s)
      else None)"

text \<open>A fraction after a point or a comma, in nanoseconds: digits behind the ninth are ignored.\<close>

definition get_nanos :: "string \<Rightarrow> int \<times> string" where
  "get_nanos s =
     (case s of
        p # t \<Rightarrow>
          (let ds = takeWhile is_digit t
           in if (p = CHR ''.'' \<or> p = CHR '','') \<and> ds \<noteq> []
              then (int (digits_value (take 9 ds)) * 10 ^ (9 - length (take 9 ds)), dropWhile is_digit t)
              else (0, s))
      | [] \<Rightarrow> (0, []))"

text \<open>The offset is written with a sign, or \<open>Z\<close> for UTC; hour 24 and minute 60 are let through.\<close>

definition get_zone :: "string \<Rightarrow> (int \<times> string) option" where
  "get_zone s =
     (if take 1 s = ''Z'' then Some (0, drop 1 s)
      else if length s < 6 \<or> s ! 3 \<noteq> CHR '':'' then None
      else do {
        (hr, _) \<leftarrow> getnum True (take 2 (drop 1 s));
        (mm, _) \<leftarrow> getnum True (take 2 (drop 4 s));
        if 24 < hr \<or> 60 < mm then None
        else if s ! 0 = CHR ''+'' then Some ((hr * 60 + mm) * 60, drop 6 s)
        else if s ! 0 = CHR ''-'' then Some (- ((hr * 60 + mm) * 60), drop 6 s)
        else None })"

definition parse_RFC3339 :: "string \<Rightarrow> ztime option" where
  "parse_RFC3339 s = do {
     (y, s) \<leftarrow> get_year s;
     s \<leftarrow> skip_char (CHR ''-'') s;
     (m, s) \<leftarrow> getnum True s;
     s \<leftarrow> skip_char (CHR ''-'') s;
     (d, s) \<leftarrow> getnum True s;
     s \<leftarrow> skip_char (CHR ''T'') s;
     (hh, s) \<leftarrow> getnum False s;
     s \<leftarrow> skip_char (CHR '':'') s;
     (mi, s) \<leftarrow> getnum True s;
     s \<leftarrow> skip_char (CHR '':'') s;
     (ss, s) \<leftarrow> getnum True s;
     (let (ns, s) = get_nanos s
      in do {
        (zone, s) \<leftarrow> get_zone s;
        if s = [] \<and> valid_date y m d \<and> hh < 24 \<and> mi < 60 \<and> ss < 60
        then Some ((day_of y m d * 86400 + hh * 3600 + mi * 60 + ss - zone) * Second + ns, zone)
        else None }) }"

text \<open>\<open>Time.UnmarshalJSON\<close> takes the literal as it is written, without its escapes.\<close>

definition decode_time :: "json \<Rightarrow> ztime \<Rightarrow> ztime option" where
  "decode_time v old =
     (case v of JNull \<Rightarrow> Some old | JStr _ literal \<Rightarrow> parse_RFC3339 literal | _ \<Rightarrow> None)"

subsection \<open>Reading back\<close>

lemma pad_digits:
  assumes "0 \<le> i" "i < 10 ^ w" "0 < w"
  shows "length (pad w i) = w" "all_digits (pad w i)" "digits_value (pad w i) = nat i"
proof -
  have "nat i < 10 ^ w" using assms(1,2) by (simp add: nat_less_iff)
  then have "length (decimal (nat i)) \<le> w" using assms(3) length_decimal by blast
  then show "length (pad w i) = w" "all_digits (pad w i)" "digits_value (pad w i) = nat i"
    using assms(1) by (simp_all add: pad_def Let_def digits_value_append)
qed

lemma all_digits_takeWhile: "all_digits s \<Longrightarrow> takeWhile is_digit s = s"
  by (auto simp: all_digits_def takeWhile_eq_all_conv)

lemma getnum_pad:
  assumes "0 \<le> i" "i < 100"
  shows "getnum fixed (pad 2 i @ s) = Some (i, s)"
proof -
  note p = pad_digits [of i 2]
  have "length (pad 2 i) = 2" "all_digits (pad 2 i)" "digits_value (pad 2 i) = nat i"
    using p assms by simp_all
  moreover from this obtain a b where "pad 2 i = [a, b]" by (auto simp: length_Suc_conv numeral_2_eq_2)
  ultimately show ?thesis using assms by (simp add: getnum_def)
qed

lemma get_year_pad:
  assumes "0 \<le> y" "y \<le> 9999"
  shows "get_year (pad 4 y @ s) = Some (y, s)"
proof -
  have "length (pad 4 y) = 4" "all_digits (pad 4 y)" "digits_value (pad 4 y) = nat y"
    using pad_digits [of y 4] assms by simp_all
  then show ?thesis using assms by (simp add: get_year_def all_digits_takeWhile)
qed

lemma skip_char_Cons [simp]: "skip_char c (c # s) = Some s"
  by (simp add: skip_char_def)

lemma get_zone_text:
  assumes "zone mod 60 = 0" "\<bar>zone\<bar> < 86400"
  shows "get_zone (zone_text zone) = Some (zone, [])"
proof (cases "zone = 0")
  case False
  define minutes where "minutes = \<bar>zone\<bar> div 60"
  have m: "0 \<le> minutes div 60" "minutes div 60 < 24" "0 \<le> minutes mod 60" "minutes mod 60 < 60"
    using assms(2) by (simp_all add: minutes_def pos_imp_zdiv_nonneg_iff)
  have z: "zone = (if zone < 0 then - (minutes * 60) else minutes * 60)" "0 < minutes"
    using assms(1) False by (auto simp: minutes_def abs_if zmod_zminus1_eq_if elim!: dvdE dest!: mod_0_imp_dvd)
  have "zone_text zone = (if zone < 0 then CHR ''-'' else CHR ''+'') # pad 2 (minutes div 60)
      @ CHR '':'' # pad 2 (minutes mod 60)"
    using False z(2) by (cases "zone < 0") (simp_all add: zone_text_def Let_def minutes_def)
  moreover have "length (pad 2 (minutes div 60)) = 2" "length (pad 2 (minutes mod 60)) = 2"
    using pad_digits(1) [of _ 2] m by simp_all
  moreover have "getnum True (pad 2 (minutes div 60)) = Some (minutes div 60, [])"
    "getnum True (pad 2 (minutes mod 60)) = Some (minutes mod 60, [])"
    using getnum_pad [of _ True "[]"] m by simp_all
  moreover have "\<not> 60 < minutes mod 60" using m(4) by linarith
  moreover have "(minutes div 60 * 60 + minutes mod 60) * 60 = minutes * 60" by simp
  ultimately show ?thesis
    using m(1,2) z by (cases "zone < 0") (simp_all add: get_zone_def nth_append)
qed (simp add: zone_text_def get_zone_def)

lemma zone_text_head: "\<exists>c t. zone_text zone = c # t \<and> \<not> is_digit c \<and> c \<noteq> CHR ''.'' \<and> c \<noteq> CHR '',''"
  by (auto simp: zone_text_def Let_def is_digit_def byte_def)

lemma takeWhile_zeros: "\<exists>k. s = rev (dropWhile (\<lambda>c. c = z) (rev s)) @ replicate k z"
proof -
  have "takeWhile (\<lambda>c. c = z) (rev s) = replicate (length (takeWhile (\<lambda>c. c = z) (rev s))) z"
    by (rule replicate_length_same [symmetric]) (auto dest: set_takeWhileD)
  with takeWhile_dropWhile_id [of "\<lambda>c. c = z" "rev s"]
  obtain k where "replicate k z @ dropWhile (\<lambda>c. c = z) (rev s) = rev s" by metis
  from arg_cong [OF this, of rev] show ?thesis by (intro exI [of _ k]) simp
qed

lemma get_nanos_text:
  assumes "0 \<le> ns" "ns < Second"
  shows "get_nanos (nano_text ns @ zone_text zone) = (ns, zone_text zone)"
proof -
  obtain c t where c: "zone_text zone = c # t" "\<not> is_digit c" "c \<noteq> CHR ''.''" "c \<noteq> CHR '',''"
    using zone_text_head [of zone] by blast
  show ?thesis
  proof (cases "ns = 0")
    case False
    define ds where "ds = rev (dropWhile (\<lambda>c. c = CHR ''0'') (rev (pad 9 ns)))"
    obtain k where k: "pad 9 ns = ds @ replicate k (CHR ''0'')"
      using takeWhile_zeros [of "pad 9 ns" "CHR ''0''"] unfolding ds_def ..
    have p: "length (pad 9 ns) = 9" "all_digits (pad 9 ns)" "digits_value (pad 9 ns) = nat ns"
      using pad_digits [of ns 9] assms by simp_all
    have len: "length ds + k = 9" using p(1) unfolding k by simp
    have val: "digits_value ds * 10 ^ k = nat ns" using p(3) unfolding k by (simp add: digits_value_append)
    have "ds \<noteq> []"
    proof
      assume "ds = []"
      with val False assms(1) show False by (simp add: digits_value_def)
    qed
    moreover have d: "all_digits ds" using p(2) unfolding k by simp
    moreover have "takeWhile is_digit (ds @ c # t) = ds" "dropWhile is_digit (ds @ c # t) = c # t"
      using d c(2) by (simp_all add: all_digits_def takeWhile_append dropWhile_append)
    moreover have "int (digits_value ds) * 10 ^ (9 - length ds) = ns"
    proof -
      have "int (digits_value ds * 10 ^ k) = ns" using val assms(1) by simp
      moreover have "k = 9 - length ds" using len by simp
      ultimately show ?thesis by simp
    qed
    ultimately show ?thesis
      using False len c by (simp add: get_nanos_def nano_text_def ds_def [symmetric] Let_def)
  qed (simp add: get_nanos_def nano_text_def c)
qed

text \<open>The offset of a location of the program is a number of minutes, less than a day.\<close>

definition json_time :: "ztime \<Rightarrow> bool" where
  "json_time t \<longleftrightarrow> marshal_time t \<noteq> None \<and> snd t mod 60 = 0 \<and> \<bar>snd t\<bar> < 86400"

theorem parse_format_time:
  assumes "json_time t"
  shows "parse_RFC3339 (format_RFC3339Nano t) = Some t"
proof -
  obtain y m d where civ: "civil (fst (local_day t)) = (y, m, d)" using prod_cases3 by blast
  note date = civil_ok [OF civ]
  have z: "snd t mod 60 = 0" "\<bar>snd t\<bar> < 86400" using assms by (simp_all add: json_time_def)
  have y: "0 \<le> y" "y \<le> 9999" using assms by (auto simp: json_time_def marshal_time_def civ split: if_splits)
  have v: "1 \<le> m" "m \<le> 12" "1 \<le> d" "d \<le> month_days y ! nat (m - 1)"
    using date(1) by (simp_all add: valid_date_def)
  then have "nat (m - 1) < 12" by arith
  from month_days_le [OF this] v(4) have "d \<le> 31" by (rule order_trans [rotated])
  with v have md: "0 \<le> m" "m < 100" "0 \<le> d" "d < 100" by simp_all
  define s where "s = snd (local_day t)"
  have s: "0 \<le> s" "s < 86400" by (simp_all add: s_def local_day_def)
  have h: "0 \<le> s div 3600" "s div 3600 < 24" "0 \<le> s div 60 mod 60" "s div 60 mod 60 < 60"
    "0 \<le> s mod 60" "s mod 60 < 60" using s by (simp_all add: pos_imp_zdiv_nonneg_iff)
  have ns: "0 \<le> fst t mod Second" "fst t mod Second < Second" by simp_all
  have clock: "s div 3600 * 3600 + s div 60 mod 60 * 60 + s mod 60 = s"
  proof -
    have "s div 3600 = s div 60 div 60" by (simp add: zdiv_zmult2_eq [symmetric])
    then show ?thesis by (simp add: algebra_simps) presburger
  qed
  have "fst (local_day t) * 86400 + s = fst t div Second + snd t"
    by (simp add: s_def local_day_def)
  then have "day_of y m d * 86400 + s div 3600 * 3600 + s div 60 mod 60 * 60 + s mod 60 - snd t = fst t div Second"
    using clock date(2) by simp
  then have inst: "(day_of y m d * 86400 + s div 3600 * 3600 + s div 60 mod 60 * 60 + s mod 60 - snd t) * Second
      + fst t mod Second = fst t" by simp
  have out: "format_RFC3339Nano t = pad 4 y @ CHR ''-'' # pad 2 m @ CHR ''-'' # pad 2 d @ CHR ''T'' #
      pad 2 (s div 3600) @ CHR '':'' # pad 2 (s div 60 mod 60) @ CHR '':'' # pad 2 (s mod 60) @
      nano_text (fst t mod Second) @ zone_text (snd t)"
    by (simp add: format_RFC3339Nano_def date_text_def clock_text_def civ s_def [symmetric] Let_def)
  have g: "getnum f (pad 2 i @ r) = Some (i, r)"
    if "i \<in> {m, d, s div 3600, s div 60 mod 60, s mod 60}" for f i r
    using that md h by (intro getnum_pad) auto
  have "s div 60 mod 60 < 60" "s mod 60 < 60" "s div 3600 < 24" using h by simp_all
  then show ?thesis
    unfolding out parse_RFC3339_def
    by (simp only: get_year_pad [OF y] g insert_iff simp_thms skip_char_Cons Option.bind.simps(2) prod.case
        get_nanos_text [OF ns] Let_def get_zone_text [OF z] date(1) if_True inst prod.collapse)
qed

lemma pad_chars: "c \<in> set (pad w i) \<Longrightarrow> is_digit c \<or> c = CHR ''-''"
  using all_digits_decimal [of "nat \<bar>i\<bar>"]
  by (auto simp: pad_def Let_def all_digits_def split: if_splits)

lemma zone_chars: "c \<in> set (zone_text zone) \<Longrightarrow> is_digit c \<or> c \<in> set ''Z-+:''"
  by (auto simp: zone_text_def Let_def dest!: pad_chars split: if_splits)

lemma nano_chars: "c \<in> set (nano_text ns) \<Longrightarrow> is_digit c \<or> c \<in> set ''-.''"
  by (auto simp: nano_text_def dest!: set_dropWhileD pad_chars split: if_splits)

lemma time_chars:
  assumes "c \<in> set (format_RFC3339Nano t)"
  shows "is_digit c \<or> c \<in> set ''-:T.Z+''"
proof -
  obtain y m d where civ: "civil (fst (local_day t)) = (y, m, d)" using prod_cases3 by blast
  from assms consider (pad) w i where "c \<in> set (pad w i)" | (nano) "c \<in> set (nano_text (fst t mod Second))"
    | (zone) "c \<in> set (zone_text (snd t))" | (sep) "c \<in> set ''-:T''"
    unfolding format_RFC3339Nano_def date_text_def clock_text_def civ Let_def prod.case set_append Un_iff
    by (elim disjE) auto
  then show ?thesis
  proof cases
    case pad
    from pad_chars [OF this] show ?thesis by auto
  next
    case nano
    from nano_chars [OF this] show ?thesis by auto
  next
    case zone
    from zone_chars [OF this] show ?thesis by auto
  qed auto
qed

lemma escape_plain: "\<forall>c \<in> set s. byte c < 128 \<and> escape_ascii c = [c] \<Longrightarrow> escape s = s"
  by (induction s) simp_all

lemma escape_time: "escape (format_RFC3339Nano t) = format_RFC3339Nano t"
proof (rule escape_plain, intro ballI)
  fix c assume "c \<in> set (format_RFC3339Nano t)"
  from time_chars [OF this] show "byte c < 128 \<and> escape_ascii c = [c]"
    by (auto simp: is_digit_def escape_ascii_def Let_def byte_def)
qed

lemma marshal_time_quote: "marshal_time t = Some s \<Longrightarrow> s = quote (format_RFC3339Nano t)"
  by (auto simp: marshal_time_def quote_def escape_time split: prod.splits if_splits)

theorem decode_time_marshal:
  assumes "json_time t" "marshal_time t = Some s"
  shows "reads n s (JStr (repair (format_RFC3339Nano t)) (format_RFC3339Nano t))"
    "decode_time (JStr x (format_RFC3339Nano t)) old = Some t"
  using reads_string [of n "format_RFC3339Nano t"] parse_format_time [OF assms(1)] marshal_time_quote [OF assms(2)]
  by (simp_all add: escape_time decode_time_def)

end
