(* ===== verification/License.thy ===== *)
theory License
  imports Go_Time Go_Quote
begin

text \<open>
  \<open>license/license.go\<close>: offline license keys and the limits they buy. The Ed25519 primitives
  (\<open>ed\<close> verifies, \<open>sign\<close> signs) are arguments; the wire format around them (prefix, trimming, the
  split at the dot, base64, the JSON of the payload) is modelled as it is, and so is the panic of
  \<open>ed25519.Verify\<close> on a key of the wrong length. A time of a license keeps the offset from UTC it was
  written with, which the date in a notice is shown in. Durations in days are counted without clock
  changes.

  The lemmas say what a verified key contains, that every activation is the free one or that of a
  verified license, and that what \<open>Sign\<close> writes is read back as the license that was signed.
\<close>

type_synonym Tier = string

definition TierFree :: Tier where "TierFree = ''free''"
definition TierPro :: Tier where "TierPro = ''pro''"
definition TierTeam :: Tier where "TierTeam = ''team''"

lemmas tier_defs [go_consts] = TierFree_def TierPro_def TierTeam_def

record limits =
  MaxTargets :: int
  RetentionDays :: int
  Channels :: "string list"
  MultiUser :: bool
  CustomInterval :: bool
  ScanNow :: bool

definition FreeLimits :: limits where
  "FreeLimits = \<lparr>MaxTargets = 10, RetentionDays = 7, Channels = [''webhook''], MultiUser = False,
     CustomInterval = False, ScanNow = False\<rparr>"

definition TierLimits :: "Tier \<rightharpoonup> limits" where
  "TierLimits = [
     TierFree \<mapsto> FreeLimits,
     TierPro \<mapsto> \<lparr>MaxTargets = 100, RetentionDays = 365,
       Channels = [''webhook'', ''email'', ''slack'', ''telegram''], MultiUser = False,
       CustomInterval = True, ScanNow = True\<rparr>,
     TierTeam \<mapsto> \<lparr>MaxTargets = 0, RetentionDays = 0,
       Channels = [''webhook'', ''email'', ''slack'', ''telegram'', ''pagerduty'', ''teams''],
       MultiUser = True, CustomInterval = True, ScanNow = True\<rparr>]"

definition limitsFor :: "Tier \<Rightarrow> limits" where
  "limitsFor t = (case TierLimits t of Some l \<Rightarrow> l | None \<Rightarrow> FreeLimits)"

record license =
  lProduct :: string
  lTier :: Tier
  lEmail :: string
  lIssuedAt :: ztime
  lExpiresAt :: ztime
  lKeyID :: string

definition zero_license :: license where
  "zero_license = \<lparr>lProduct = [], lTier = [], lEmail = [], lIssuedAt = (zero_time, 0),
     lExpiresAt = (zero_time, 0), lKeyID = []\<rparr>"

definition key_prefix :: string where
  "key_prefix = ''SNTL1-''"

definition PublicKeySize :: nat where
  "PublicKeySize = 32"

subsection \<open>Issuing\<close>

text \<open>The payload: the struct as \<open>json.Marshal\<close> writes it, which fails on some times.\<close>

definition license_json :: "license \<Rightarrow> string option" where
  "license_json lic =
     encode_struct
       [(''product'', Some (quote (lProduct lic))), (''tier'', Some (quote (lTier lic))),
        (''email'', Some (quote (lEmail lic))), (''issued_at'', marshal_time (lIssuedAt lic)),
        (''expires_at'', marshal_time (lExpiresAt lic)), (''key_id'', Some (quote (lKeyID lic)))]"

definition Sign :: "(string \<Rightarrow> string \<Rightarrow> string) \<Rightarrow> string \<Rightarrow> license \<Rightarrow> gerror + string" where
  "Sign sign priv lic =
     (if lProduct lic = [] \<or> lTier lic = [] then Inl ''license needs product and tier''
      else case license_json lic of
             None \<Rightarrow> Inl marshal_error
           | Some payload \<Rightarrow>
               Inr (key_prefix @ b64_encode payload @ ''.'' @ b64_encode (sign priv payload)))"

subsection \<open>Verifying\<close>

datatype verify_error =
  ErrMalformed
| ErrBadSignature
| ErrWrongProduct string
| ErrExpired

definition ed25519_Verify ::
    "(string \<Rightarrow> string \<Rightarrow> string \<Rightarrow> bool) \<Rightarrow> string \<Rightarrow> string \<Rightarrow> string \<Rightarrow> bool outcome" where
  "ed25519_Verify ed pub msg sig =
     (if length pub \<noteq> PublicKeySize then Panic ''ed25519: bad public key length''
      else Done (ed pub msg sig))"

definition put_license :: "string \<Rightarrow> json \<Rightarrow> license \<Rightarrow> license option" where
  "put_license n v lic =
     (if n = ''product'' then map_option (\<lambda>s. lic\<lparr>lProduct := s\<rparr>) (decode_string v (lProduct lic))
      else if n = ''tier'' then map_option (\<lambda>s. lic\<lparr>lTier := s\<rparr>) (decode_string v (lTier lic))
      else if n = ''email'' then map_option (\<lambda>s. lic\<lparr>lEmail := s\<rparr>) (decode_string v (lEmail lic))
      else if n = ''issued_at'' then map_option (\<lambda>t. lic\<lparr>lIssuedAt := t\<rparr>) (decode_time v (lIssuedAt lic))
      else if n = ''expires_at'' then map_option (\<lambda>t. lic\<lparr>lExpiresAt := t\<rparr>) (decode_time v (lExpiresAt lic))
      else map_option (\<lambda>s. lic\<lparr>lKeyID := s\<rparr>) (decode_string v (lKeyID lic)))"

definition decode_license :: "string \<Rightarrow> license option" where
  "decode_license =
     unmarshal_struct [''product'', ''tier'', ''email'', ''issued_at'', ''expires_at'', ''key_id''] put_license
       zero_license"

definition Verify ::
    "(string \<Rightarrow> string \<Rightarrow> string \<Rightarrow> bool) \<Rightarrow> string \<Rightarrow> string \<Rightarrow> string \<Rightarrow> gtime
     \<Rightarrow> (license \<times> verify_error option) outcome" where
  "Verify ed pub product key now =
     (if \<not> has_prefix key key_prefix then Done (zero_license, Some ErrMalformed)
      else case split_dot (trim_prefix (trim_space key) key_prefix) of
        None \<Rightarrow> Done (zero_license, Some ErrMalformed)
      | Some (p, q) \<Rightarrow>
          (case b64_decode p of
             None \<Rightarrow> Done (zero_license, Some ErrMalformed)
           | Some payload \<Rightarrow>
               (case b64_decode q of
                  None \<Rightarrow> Done (zero_license, Some ErrMalformed)
                | Some sig \<Rightarrow>
                    (if length pub \<noteq> PublicKeySize then Done (zero_license, Some ErrBadSignature)
                     else case ed25519_Verify ed pub payload sig of
                       Panic e \<Rightarrow> Panic e
                     | Done ok \<Rightarrow>
                         (if \<not> ok then Done (zero_license, Some ErrBadSignature)
                          else case decode_license payload of
                            None \<Rightarrow> Done (zero_license, Some ErrMalformed)
                          | Some lic \<Rightarrow>
                              (if lProduct lic \<noteq> product
                               then Done (zero_license, Some (ErrWrongProduct (lProduct lic)))
                               else if now > fst (lExpiresAt lic) then Done (lic, Some ErrExpired)
                               else Done (lic, None)))))))"

subsection \<open>Enforcement\<close>

record activation =
  aTier :: Tier
  aLimits :: limits
  aLicense :: "license option"
  aNotice :: string

definition free_activation :: "string \<Rightarrow> activation" where
  "free_activation notice =
     \<lparr>aTier = TierFree, aLimits = FreeLimits, aLicense = None, aNotice = notice\<rparr>"

definition notice_free_edition :: string where
  "notice_free_edition = ''This is the free edition, which cannot activate license keys. ''
     @ ''Download the licensed build to use your key '' @ em_dash @ '' your key is fine.''"

definition notice_expired :: "string \<Rightarrow> string" where
  "notice_expired on = ''License expired on '' @ on @ '' '' @ em_dash
     @ '' running on free limits. Renew to restore your tier.''"

definition notice_invalid :: string where
  "notice_invalid = ''License key is not valid for this product '' @ em_dash
     @ '' running on free limits.''"

definition paid_activation :: "license \<Rightarrow> activation" where
  "paid_activation lic =
     \<lparr>aTier = lTier lic, aLimits = limitsFor (lTier lic), aLicense = Some lic, aNotice = []\<rparr>"

definition Activate ::
    "(string \<Rightarrow> string \<Rightarrow> string \<Rightarrow> bool) \<Rightarrow> string \<Rightarrow> string \<Rightarrow> string \<Rightarrow> gtime \<Rightarrow> activation outcome" where
  "Activate ed pub product key now =
     (if length pub \<noteq> PublicKeySize then
        Done (free_activation (if trim_space key \<noteq> [] then notice_free_edition else []))
      else if trim_space key = [] then Done (free_activation [])
      else case Verify ed pub product key now of
        Panic e \<Rightarrow> Panic e
      | Done (lic, None) \<Rightarrow> Done (paid_activation lic)
      | Done (lic, Some ErrExpired) \<Rightarrow>
          Done (free_activation (notice_expired (format_date (lExpiresAt lic))))
      | Done (lic, Some _) \<Rightarrow> Done (free_activation notice_invalid))"

definition CanAddTarget :: "activation \<Rightarrow> int \<Rightarrow> bool" where
  "CanAddTarget a current \<longleftrightarrow> MaxTargets (aLimits a) = 0 \<or> current < MaxTargets (aLimits a)"

definition AllowsChannel :: "activation \<Rightarrow> string \<Rightarrow> bool" where
  "AllowsChannel a name \<longleftrightarrow> (\<exists>c \<in> set (Channels (aLimits a)). c = name)"

definition RetentionCutoff :: "activation \<Rightarrow> gtime \<Rightarrow> gtime" where
  "RetentionCutoff a now =
     (if RetentionDays (aLimits a) = 0 then zero_time
      else now - RetentionDays (aLimits a) * (24 * Hour))"

subsection \<open>Lemmas\<close>

lemma limitsFor_cases:
  "limitsFor t = FreeLimits \<or> (t = TierPro \<and> limitsFor t = the (TierLimits TierPro))
     \<or> (t = TierTeam \<and> limitsFor t = the (TierLimits TierTeam))"
  by (simp add: limitsFor_def TierLimits_def go_consts)

text \<open>A verification that succeeds: what it says about the key.\<close>

lemma Verify_ok:
  assumes "Verify ed pub product key now = Done (lic, None)"
  shows "\<exists>p q payload sig. trim_prefix (trim_space key) key_prefix = p @ ''.'' @ q \<and>
    b64_decode p = Some payload \<and> b64_decode q = Some sig \<and> length pub = PublicKeySize \<and>
    ed pub payload sig \<and> decode_license payload = Some lic \<and> lProduct lic = product \<and> now \<le> fst (lExpiresAt lic)"
  using assms
  by (auto simp: Verify_def ed25519_Verify_def split: if_splits option.splits outcome.splits
      dest!: split_dot_Some) blast

lemma Verify_no_panic: "Verify ed pub product key now \<noteq> Panic e"
  by (auto simp: Verify_def ed25519_Verify_def split: option.splits)

text \<open>An activation is the free one or that of a license that verified.\<close>

lemma Activate_cases:
  "\<exists>act. Activate ed pub product key now = Done act \<and>
    ((\<exists>n. act = free_activation n \<and> (trim_space key = [] \<longrightarrow> n = [])) \<or>
     (\<exists>lic. Verify ed pub product key now = Done (lic, None) \<and> trim_space key \<noteq> [] \<and>
        act = paid_activation lic))"
proof (cases "Verify ed pub product key now")
  case (Done r)
  obtain lic e where r: "r = (lic, e)" by (cases r)
  show ?thesis
  proof (cases e)
    case None
    with Done r show ?thesis by (auto simp: Activate_def)
  next
    case (Some err)
    with Done r show ?thesis by (cases err) (auto simp: Activate_def)
  qed
next
  case (Panic e)
  with Verify_no_panic show ?thesis by metis
qed

text \<open>
  What time does to an activation: the same key looked at later gives the same activation until the
  license has expired, and the free one with the notice of that from then on.
\<close>

definition activation_at :: "gtime \<Rightarrow> activation \<Rightarrow> activation" where
  "activation_at t act =
     (case aLicense act of
        None \<Rightarrow> act
      | Some lic \<Rightarrow>
          (if t \<le> fst (lExpiresAt lic) then act
           else free_activation (notice_expired (format_date (lExpiresAt lic)))))"

lemma Verify_later:
  assumes "Verify ed pub product key now = Done (lic, e)" "now \<le> t"
  shows "Verify ed pub product key t =
    Done (lic, if e = None \<and> fst (lExpiresAt lic) < t then Some ErrExpired else e)"
  using assms
  by (auto simp: Verify_def ed25519_Verify_def split: if_splits option.splits)

lemma Activate_later:
  assumes "Activate ed pub product key now = Done act" "now \<le> t"
  shows "Activate ed pub product key t = Done (activation_at t act)"
proof (cases "length pub = PublicKeySize \<and> trim_space key \<noteq> []")
  case True
  obtain lic e where v: "Verify ed pub product key now = Done (lic, e)"
    using Verify_no_panic by (metis outcome.exhaust surj_pair)
  show ?thesis
  proof (cases e)
    case None
    then show ?thesis
      using True assms v Verify_later [OF v assms(2)]
      by (auto simp: Activate_def activation_at_def paid_activation_def)
  next
    case (Some err)
    then show ?thesis
      using True assms v Verify_later [OF v assms(2)]
      by (cases err) (auto simp: Activate_def activation_at_def free_activation_def)
  qed
qed (use assms in \<open>auto simp: Activate_def activation_at_def free_activation_def\<close>)

text \<open>The key \<open>Sign\<close> writes is not trimmed, and splits into its two parts.\<close>

lemma signed_key_parts:
  assumes "payload \<noteq> [] \<or> sig \<noteq> []"
  defines "key \<equiv> key_prefix @ b64_encode payload @ ''.'' @ b64_encode sig"
  shows "has_prefix key key_prefix \<and> trim_space key \<noteq> [] \<and>
    split_dot (trim_prefix (trim_space key) key_prefix) = Some (b64_encode payload, b64_encode sig)"
proof -
  have "printable (last key)"
  proof (cases "b64_encode sig = []")
    case True
    then show ?thesis by (simp add: key_def) (simp add: printable_def byte_def)
  next
    case False
    then have "last key \<in> set (b64_encode sig)" by (simp add: key_def)
    then show ?thesis using b64_encode_chars by blast
  qed
  moreover have "printable (hd key)"
    by (simp add: key_def key_prefix_def printable_def byte_def)
  ultimately have t: "trim_space key = key" by (intro trim_space_id)
  have "CHR ''.'' \<notin> set (b64_encode payload)" using b64_encode_chars by blast
  moreover have "key \<noteq> []" by (simp add: key_def key_prefix_def)
  ultimately show ?thesis by (simp add: t) (simp add: key_def split_dot_append)
qed

text \<open>The JSON of a license is read back as it was written, but for strings that are not UTF-8.\<close>

definition utf8_license :: "license \<Rightarrow> bool" where
  "utf8_license lic \<longleftrightarrow> (\<forall>s \<in> {lProduct lic, lTier lic, lEmail lic, lKeyID lic}. repair s = s)"

lemma decode_license_json:
  assumes "license_json lic = Some payload" "utf8_license lic" "json_time (lIssuedAt lic)" "json_time (lExpiresAt lic)"
  shows "decode_license payload = Some lic"
proof -
  obtain ti te where t: "marshal_time (lIssuedAt lic) = Some ti" "marshal_time (lExpiresAt lic) = Some te"
    using assms(3,4) by (auto simp: json_time_def)
  define ms where "ms =
     [(''product'', quote (lProduct lic), JStr (repair (lProduct lic)) (escape (lProduct lic))),
      (''tier'', quote (lTier lic), JStr (repair (lTier lic)) (escape (lTier lic))),
      (''email'', quote (lEmail lic), JStr (repair (lEmail lic)) (escape (lEmail lic))),
      (''issued_at'', ti, JStr (repair (format_RFC3339Nano (lIssuedAt lic))) (format_RFC3339Nano (lIssuedAt lic))),
      (''expires_at'', te, JStr (repair (format_RFC3339Nano (lExpiresAt lic))) (format_RFC3339Nano (lExpiresAt lic))),
      (''key_id'', quote (lKeyID lic), JStr (repair (lKeyID lic)) (escape (lKeyID lic)))]"
  have p: "payload = CHR ''{'' # join '','' (map member_text ms) @ [CHR ''}'']"
    using assms(1) by (simp add: license_json_def encode_struct_def t ms_def member_text_def)
  have "\<forall>(k, t, j) \<in> set ms. reads 0 t j"
    using decode_time_marshal(1) [OF assms(3) t(1)] decode_time_marshal(1) [OF assms(4) t(2)]
    by (simp add: ms_def reads_string)
  from json_parse_reads [OF reads_object [OF this]]
  have "json_parse payload = Some (JObj (map member_of ms))" unfolding p by (simp add: max_nesting_def)
  moreover have r: "repair ''product'' = ''product''" "repair ''tier'' = ''tier''" "repair ''email'' = ''email''"
    "repair ''issued_at'' = ''issued_at''" "repair ''expires_at'' = ''expires_at''" "repair ''key_id'' = ''key_id''"
    by (simp_all add: repair_ascii byte_def)
  ultimately show ?thesis
    using assms(2) decode_time_marshal(2) [OF assms(3) t(1)] decode_time_marshal(2) [OF assms(4) t(2)]
    by (simp add: decode_license_def unmarshal_struct_def decode_struct_def ms_def member_of_def field_of_def
        put_license_def decode_string_def utf8_license_def zero_license_def)
qed

subsection \<open>Properties\<close>

text \<open>
  C7: a paid tier is never granted by accident: whenever an activation carries a license or any
  limits but the free ones, the key is two base64 parts behind the prefix, the second is a valid
  signature under the embedded key of the first, and the first decodes to a license for this very
  product that has not expired, whose tier and limits the activation has.
\<close>

theorem Activate_only_signed:
  assumes "Activate ed pub product key now = Done act"
    and "aLicense act \<noteq> None \<or> aTier act \<noteq> TierFree \<or> aLimits act \<noteq> FreeLimits"
  shows "\<exists>p q payload sig lic. trim_prefix (trim_space key) key_prefix = p @ ''.'' @ q \<and>
    b64_decode p = Some payload \<and> b64_decode q = Some sig \<and> length pub = PublicKeySize \<and>
    ed pub payload sig \<and> decode_license payload = Some lic \<and> lProduct lic = product \<and> now \<le> fst (lExpiresAt lic) \<and>
    act = \<lparr>aTier = lTier lic, aLimits = limitsFor (lTier lic), aLicense = Some lic, aNotice = []\<rparr>"
proof -
  have "act \<noteq> free_activation n" for n
    using assms(2) by (auto simp: free_activation_def)
  then obtain lic where v: "Verify ed pub product key now = Done (lic, None)"
    and act: "act = paid_activation lic"
    using Activate_cases [of ed pub product key now] assms(1) by auto
  from Verify_ok [OF v] act show ?thesis by (auto simp: paid_activation_def)
qed

definition demo_license :: license where
  "demo_license = \<lparr>lProduct = ''certwatch'', lTier = TierPro, lEmail = ''b@e.com'', lIssuedAt = (10, 0),
     lExpiresAt = (100, 25200), lKeyID = ''k1''\<rparr>"

text \<open>A toy scheme: the signature of a message is the message reversed.\<close>

definition toy_sign :: "string \<Rightarrow> string \<Rightarrow> string" where
  "toy_sign priv m = rev m"

definition toy_verify :: "string \<Rightarrow> string \<Rightarrow> string \<Rightarrow> bool" where
  "toy_verify pub m sig \<longleftrightarrow> sig = rev m"

definition toy_pub :: string where
  "toy_pub = replicate 32 (CHR ''k'')"

definition toy_payload :: string where
  "toy_payload = the (license_json demo_license)"

definition toy_key :: string where
  "toy_key = key_prefix @ b64_encode toy_payload @ ''.'' @ b64_encode (rev toy_payload)"

lemma demo_times: "json_time (10, 0)" "json_time (100, 25200)"
proof -
  have "civil 0 = (1970, 1, 1)" by code_simp
  then show "json_time (10, 0)" "json_time (100, 25200)"
    by (simp_all add: json_time_def marshal_time_def local_day_def)
qed

lemma demo_payload: "license_json demo_license = Some toy_payload"
proof -
  have "license_json demo_license \<noteq> None"
    using demo_times by (auto simp: license_json_def demo_license_def json_time_def encode_struct_def)
  then show ?thesis by (auto simp: toy_payload_def)
qed

lemma toy_decodes: "decode_license toy_payload = Some demo_license" "toy_payload \<noteq> []"
proof -
  have "utf8_license demo_license"
    by (simp add: utf8_license_def demo_license_def go_consts repair_ascii byte_def)
  then show "decode_license toy_payload = Some demo_license"
    using decode_license_json [OF demo_payload] demo_times by (simp add: demo_license_def)
  show "toy_payload \<noteq> []" using demo_payload by (auto simp: license_json_def encode_struct_def)
qed

lemma toy_Activate: "Activate toy_verify toy_pub ''certwatch'' toy_key 50 =
    Done \<lparr>aTier = TierPro, aLimits = limitsFor TierPro, aLicense = Some demo_license, aNotice = []\<rparr>"
proof -
  have parts: "has_prefix toy_key key_prefix" "trim_space toy_key \<noteq> []"
    "split_dot (trim_prefix (trim_space toy_key) key_prefix)
      = Some (b64_encode toy_payload, b64_encode (rev toy_payload))"
    using signed_key_parts [of toy_payload "rev toy_payload"] toy_decodes(2) unfolding toy_key_def by blast+
  have "toy_verify p toy_payload (rev toy_payload)" "length toy_pub = PublicKeySize" for p
    by (simp_all add: toy_verify_def toy_pub_def PublicKeySize_def)
  then show ?thesis
    using parts by (simp add: Activate_def Verify_def ed25519_Verify_def b64_roundtrip toy_decodes(1)
        paid_activation_def demo_license_def)
qed

theorem Activate_only_signed_witness:
  "\<exists>p q payload sig. trim_prefix (trim_space toy_key) key_prefix = p @ ''.'' @ q \<and>
     b64_decode p = Some payload \<and> b64_decode q = Some sig \<and> toy_verify toy_pub payload sig"
  using Activate_only_signed [OF toy_Activate] by auto

text \<open>
  A license problem never stops the product: for every public key, key text and verification
  primitive, activation returns without a panic, and whatever it returns allows at least what the
  free edition allows (ten targets, the webhook channel, seven days of history); an activation
  without a license is the free edition, and an empty key needs no notice.
\<close>

theorem Activate_never_bricks:
  "\<exists>act. Activate ed pub product key now = Done act \<and>
    (aLicense act = None \<longrightarrow> aTier act = TierFree \<and> aLimits act = FreeLimits) \<and>
    (\<forall>n < 10. CanAddTarget act n) \<and> AllowsChannel act ''webhook'' \<and>
    RetentionCutoff act now \<le> max zero_time (now - 7 * (24 * Hour)) \<and>
    (trim_space key = [] \<longrightarrow> aNotice act = [])"
proof -
  have lim: "(MaxTargets (limitsFor t) = 0 \<or> 10 \<le> MaxTargets (limitsFor t)) \<and>
      ''webhook'' \<in> set (Channels (limitsFor t)) \<and>
      (RetentionDays (limitsFor t) = 0 \<or> 7 \<le> RetentionDays (limitsFor t))" for t
    using limitsFor_cases [of t] by (auto simp: FreeLimits_def TierLimits_def go_consts)
  have free: "limitsFor TierFree = FreeLimits" by (simp add: limitsFor_def TierLimits_def go_consts)
  obtain act where act: "Activate ed pub product key now = Done act"
    and cases: "(\<exists>n. act = free_activation n \<and> (trim_space key = [] \<longrightarrow> n = [])) \<or>
      (\<exists>lic. trim_space key \<noteq> [] \<and> act = paid_activation lic)"
    using Activate_cases [of ed pub product key now] by blast
  then have "\<exists>t. aLimits act = limitsFor t" using free [symmetric]
    by (auto simp only: free_activation_def paid_activation_def activation.select_convs)
  then obtain t where t: "aLimits act = limitsFor t" ..
  from cases have none: "aLicense act = None \<longrightarrow> aTier act = TierFree \<and> aLimits act = FreeLimits"
    and notice: "trim_space key = [] \<longrightarrow> aNotice act = []"
    by (auto simp: free_activation_def paid_activation_def)
  have "RetentionCutoff act now \<le> max zero_time (now - 7 * (24 * Hour))"
    using lim [of t] by (auto simp: RetentionCutoff_def t)
  moreover have "\<forall>n < 10. CanAddTarget act n" "AllowsChannel act ''webhook''"
    using lim [of t] by (auto simp: CanAddTarget_def AllowsChannel_def t)
  ultimately show ?thesis
    using act none notice by - (intro exI [of _ act] conjI; assumption)
qed

theorem Activate_never_bricks_witness:
  "\<exists>act. Activate toy_verify toy_pub ''certwatch'' [] 0 = Done act \<and>
     CanAddTarget act 9 \<and> aNotice act = []"
proof -
  have "trim_space [] = []" by simp
  then show ?thesis
    using Activate_never_bricks [of toy_verify toy_pub "''certwatch''" "[]" 0] by auto
qed

text \<open>
  C29: what the issuer signs, the product accepts: a key signed with a private key that matches
  the embedded public key verifies as the very license that was signed and activates its tier, for
  the product it was issued for and until it expires, whatever the locations of its two times are.
\<close>

theorem Sign_Activate_roundtrip:
  assumes "Sign sign priv lic = Inr key" and "lProduct lic = product" and "now \<le> fst (lExpiresAt lic)"
    and "utf8_license lic" and "json_time (lIssuedAt lic)" "json_time (lExpiresAt lic)"
    and "\<forall>m. ed pub m (sign priv m)" and "length pub = PublicKeySize"
  shows "Verify ed pub product key now = Done (lic, None) \<and>
    Activate ed pub product key now =
      Done \<lparr>aTier = lTier lic, aLimits = limitsFor (lTier lic), aLicense = Some lic, aNotice = []\<rparr>"
proof -
  obtain payload where enc: "license_json lic = Some payload"
    and key: "key = key_prefix @ b64_encode payload @ ''.'' @ b64_encode (sign priv payload)"
    using assms(1) by (auto simp: Sign_def split: if_splits option.splits)
  have ne: "payload \<noteq> []" using enc by (auto simp: license_json_def encode_struct_def)
  have dec: "decode_license payload = Some lic" using decode_license_json [OF enc assms(4-6)] .
  have parts: "has_prefix key key_prefix" "trim_space key \<noteq> []"
    "split_dot (trim_prefix (trim_space key) key_prefix)
      = Some (b64_encode payload, b64_encode (sign priv payload))"
    using signed_key_parts [of payload "sign priv payload"] ne unfolding key by blast+
  have "Verify ed pub product key now = Done (lic, None)"
    using parts assms(2,3,7,8) dec by (simp add: Verify_def ed25519_Verify_def b64_roundtrip)
  with parts assms(8) show ?thesis by (simp add: Activate_def paid_activation_def)
qed

theorem Sign_Activate_roundtrip_witness:
  "\<exists>key. Sign toy_sign [] demo_license = Inr key \<and>
     Verify toy_verify toy_pub ''certwatch'' key 50 = Done (demo_license, None)"
proof -
  have s: "Sign toy_sign [] demo_license = Inr toy_key"
    using demo_payload by (simp add: Sign_def toy_sign_def toy_key_def)
      (simp add: demo_license_def go_consts)
  have v: "\<forall>m. toy_verify toy_pub m (toy_sign [] m)" by (simp add: toy_verify_def toy_sign_def)
  have u: "utf8_license demo_license"
    by (simp add: utf8_license_def demo_license_def go_consts repair_ascii byte_def)
  have d: "lProduct demo_license = ''certwatch''" "50 \<le> fst (lExpiresAt demo_license)"
    "json_time (lIssuedAt demo_license)" "json_time (lExpiresAt demo_license)" "length toy_pub = PublicKeySize"
    using demo_times by (simp_all add: demo_license_def toy_pub_def PublicKeySize_def)
  from Sign_Activate_roundtrip [where ed = toy_verify and pub = toy_pub, OF s d(1,2) u d(3,4) v d(5)] s
  show ?thesis by blast
qed

fun add_permitted :: "activation \<Rightarrow> nat \<Rightarrow> int \<Rightarrow> int" where
  "add_permitted a 0 current = current"
| "add_permitted a (Suc k) current =
     (if CanAddTarget a current then add_permitted a k (current + 1)
      else add_permitted a k current)"

text \<open>
  The target limit is exact: starting within it, adding targets one at a time as long as the
  activation permits stops at the limit and never passes it, and an unlimited tier never stops.
\<close>

theorem CanAddTarget_exact:
  "add_permitted a k current =
    (if MaxTargets (aLimits a) = 0 then current + int k
     else if current < MaxTargets (aLimits a) then min (current + int k) (MaxTargets (aLimits a))
     else current)"
  by (induction k arbitrary: current) (auto simp: CanAddTarget_def min_def)

end
