(* ===== verification/Core_Finding.thy ===== *)
theory Core_Finding
  imports Go_Json
begin

text \<open>
  \<open>core/finding.go\<close> and \<open>core/collector.go\<close>: the normalised finding, its severities and
  lifecycle states, the ingest check and the fingerprint, and the static data of a module and a
  target. Severities and states are Go string types, so a value outside the declared constants
  is possible and the model keeps it. SHA-256 is an argument \<open>sha\<close> of \<open>Fingerprint\<close>.
\<close>

subsection \<open>Severities and states\<close>

type_synonym Severity = string
type_synonym FindingStatus = string

definition SeverityCritical :: Severity where "SeverityCritical = ''critical''"
definition SeverityHigh :: Severity where "SeverityHigh = ''high''"
definition SeverityMedium :: Severity where "SeverityMedium = ''medium''"
definition SeverityLow :: Severity where "SeverityLow = ''low''"
definition SeverityInfo :: Severity where "SeverityInfo = ''info''"

lemmas severity_defs [go_consts] = SeverityCritical_def SeverityHigh_def SeverityMedium_def SeverityLow_def
  SeverityInfo_def

definition rank :: "Severity \<Rightarrow> int" where
  "rank s =
     (if s = SeverityCritical then 4
      else if s = SeverityHigh then 3
      else if s = SeverityMedium then 2
      else if s = SeverityLow then 1
      else if s = SeverityInfo then 0
      else -1)"

definition Valid :: "Severity \<Rightarrow> bool" where
  "Valid s \<longleftrightarrow> rank s \<ge> 0"

lemma Valid_iff:
  "Valid s \<longleftrightarrow> s \<in> {SeverityCritical, SeverityHigh, SeverityMedium, SeverityLow, SeverityInfo}"
  by (auto simp: Valid_def rank_def)

definition StatusOpen :: FindingStatus where "StatusOpen = ''open''"
definition StatusResolved :: FindingStatus where "StatusResolved = ''resolved''"
definition StatusAcknowledged :: FindingStatus where "StatusAcknowledged = ''acknowledged''"
definition StatusSuppressed :: FindingStatus where "StatusSuppressed = ''suppressed''"

lemmas status_defs [go_consts] = StatusOpen_def StatusResolved_def StatusAcknowledged_def StatusSuppressed_def

lemma status_distinct [simp]:
  "StatusOpen \<noteq> StatusResolved" "StatusOpen \<noteq> StatusAcknowledged" "StatusOpen \<noteq> StatusSuppressed"
  "StatusResolved \<noteq> StatusOpen" "StatusResolved \<noteq> StatusAcknowledged"
  "StatusResolved \<noteq> StatusSuppressed"
  "StatusAcknowledged \<noteq> StatusOpen" "StatusAcknowledged \<noteq> StatusResolved"
  "StatusAcknowledged \<noteq> StatusSuppressed"
  "StatusSuppressed \<noteq> StatusOpen" "StatusSuppressed \<noteq> StatusResolved"
  "StatusSuppressed \<noteq> StatusAcknowledged"
  by (simp_all add: go_consts)

definition MaxEvidenceBytes :: nat where
  "MaxEvidenceBytes = 64 * 1024"

subsection \<open>Findings\<close>

record finding =
  fFingerprint :: string
  fTarget :: string
  fCheck :: string
  fTitle :: string
  fSeverity :: Severity
  fRemediation :: string
  fEvidence :: evidence
  fID :: string
  fModule :: string
  fStatus :: FindingStatus
  fGroupID :: "string option"
  fFirstSeen :: gtime
  fLastSeen :: gtime
  fResolvedAt :: "gtime option"

datatype ingest_error = IngestError (ieField: string) (ieReason: string)

definition ValidateForIngest :: "finding \<Rightarrow> ingest_error option" where
  "ValidateForIngest f =
     (if fFingerprint f = [] then Some (IngestError ''fingerprint'' ''empty'')
      else if fTarget f = [] then Some (IngestError ''target'' ''empty'')
      else if fCheck f = [] then Some (IngestError ''check'' ''empty'')
      else if fTitle f = [] then Some (IngestError ''title'' ''empty'')
      else if fRemediation f = [] then
        Some (IngestError ''remediation'' ''empty (every finding must tell the user what to do)'')
      else if \<not> Valid (fSeverity f) then
        Some (IngestError ''severity'' (''unknown value: '' @ fSeverity f))
      else None)"

definition IngestError_message :: "ingest_error \<Rightarrow> string" where
  "IngestError_message e = ''invalid finding: '' @ ieField e @ '': '' @ ieReason e"

lemma ValidateForIngest_None:
  "ValidateForIngest f = None \<longleftrightarrow>
     fFingerprint f \<noteq> [] \<and> fTarget f \<noteq> [] \<and> fCheck f \<noteq> [] \<and> fTitle f \<noteq> []
     \<and> fRemediation f \<noteq> [] \<and> Valid (fSeverity f)"
  by (auto simp: ValidateForIngest_def)

lemma ValidateForIngest_fingerprint: "ValidateForIngest f = None \<Longrightarrow> fFingerprint f \<noteq> []"
  by (simp add: ValidateForIngest_None)

subsection \<open>Modules and targets\<close>

record module_info =
  miID :: string
  miName :: string
  miVersion :: string
  miTargetKind :: string
  miDefaultInterval :: duration
  miResolveAfter :: int

definition ResolveAfterOrDefault :: "module_info \<Rightarrow> int" where
  "ResolveAfterOrDefault m = (if miResolveAfter m < 1 then 1 else miResolveAfter m)"

lemma ResolveAfterOrDefault_ge1 [simp]: "1 \<le> ResolveAfterOrDefault m"
  by (simp add: ResolveAfterOrDefault_def)

record target =
  tRaw :: string
  tCanonical :: string
  tMeta :: "(string \<times> string) list"

subsection \<open>Fingerprints\<close>

definition hex_encode :: "string \<Rightarrow> string" where
  "hex_encode s = concat (map (\<lambda>c. [hex_digit (byte c div 16), hex_digit (byte c mod 16)]) s)"

definition fingerprint_input :: "string \<Rightarrow> string \<Rightarrow> string \<Rightarrow> string \<Rightarrow> string" where
  "fingerprint_input module target check discriminator =
     module @ ''|'' @ target @ ''|'' @ check @ ''|'' @ discriminator"

definition Fingerprint ::
    "(string \<Rightarrow> string) \<Rightarrow> string \<Rightarrow> string \<Rightarrow> string \<Rightarrow> string \<Rightarrow> string" where
  "Fingerprint sha module target check discriminator =
     hex_encode (take 16 (sha (fingerprint_input module target check discriminator)))"

lemma hex_digit_inj: "a < 16 \<Longrightarrow> b < 16 \<Longrightarrow> hex_digit a = hex_digit b \<Longrightarrow> a = b"
  by (auto simp: hex_digit_def dest!: arg_cong [of _ _ byte] split: if_splits)

lemma hex_encode_simps [simp]:
  "hex_encode [] = []"
  "hex_encode (c # s) = hex_digit (byte c div 16) # hex_digit (byte c mod 16) # hex_encode s"
  by (simp_all add: hex_encode_def)

lemma hex_encode_inj: "hex_encode s = hex_encode t \<Longrightarrow> s = t"
proof (induction s arbitrary: t)
  case Nil
  then show ?case by (cases t) auto
next
  case (Cons c s)
  then obtain d t' where t: "t = d # t'" by (cases t) auto
  have lt: "byte c div 16 < 16" "byte d div 16 < 16" "byte c mod 16 < 16" "byte d mod 16 < 16"
    by (simp_all add: less_mult_imp_div_less)
  from Cons.prems t have "byte c div 16 = byte d div 16" "byte c mod 16 = byte d mod 16"
    using lt by (auto intro: hex_digit_inj)
  then have "byte c = byte d" by (metis div_mod_decomp)
  then show ?case using Cons t by (auto intro: byte_inj)
qed

lemma length_hex_encode: "length (hex_encode s) = 2 * length s"
  by (induction s) simp_all

text \<open>A string that does not contain the separator.\<close>

definition no_bar :: "string \<Rightarrow> bool" where
  "no_bar s \<longleftrightarrow> CHR ''|'' \<notin> set s"

lemma split_at_bar:
  assumes "no_bar a" "no_bar b" "a @ CHR ''|'' # xs = b @ CHR ''|'' # ys"
  shows "a = b \<and> xs = ys"
  using assms
proof (induction a arbitrary: b)
  case Nil
  then show ?case by (cases b) (auto simp: no_bar_def)
next
  case (Cons x a)
  then show ?case by (cases b) (auto simp: no_bar_def)
qed

text \<open>
  The four parts are recoverable from the hashed input as long as only the last one may contain
  the separator.
\<close>

lemma fingerprint_input_inj:
  assumes "no_bar m" "no_bar t" "no_bar c" "no_bar m'" "no_bar t'" "no_bar c'"
    and "fingerprint_input m t c d = fingerprint_input m' t' c' d'"
  shows "m = m' \<and> t = t' \<and> c = c' \<and> d = d'"
proof -
  from assms(7) have e: "m @ CHR ''|'' # (t @ CHR ''|'' # (c @ CHR ''|'' # d))
      = m' @ CHR ''|'' # (t' @ CHR ''|'' # (c' @ CHR ''|'' # d'))"
    by (simp add: fingerprint_input_def)
  from split_at_bar [OF assms(1,4) e] have m: "m = m'"
    and e2: "t @ CHR ''|'' # (c @ CHR ''|'' # d) = t' @ CHR ''|'' # (c' @ CHR ''|'' # d')"
    by simp_all
  from split_at_bar [OF assms(2,5) e2] have t: "t = t'"
    and e3: "c @ CHR ''|'' # d = c' @ CHR ''|'' # d'" by simp_all
  from split_at_bar [OF assms(3,6) e3] m t show ?thesis by simp
qed

lemma Fingerprint_eq_iff:
  assumes "no_bar m" "no_bar t" "no_bar c" "no_bar m'" "no_bar t'" "no_bar c'"
    and inj: "inj_on (\<lambda>s. take 16 (sha s)) {fingerprint_input m t c d, fingerprint_input m' t' c' d'}"
  shows "Fingerprint sha m t c d = Fingerprint sha m' t' c' d' \<longleftrightarrow>
     m = m' \<and> t = t' \<and> c = c' \<and> d = d'"
proof
  assume "Fingerprint sha m t c d = Fingerprint sha m' t' c' d'"
  then have "take 16 (sha (fingerprint_input m t c d)) = take 16 (sha (fingerprint_input m' t' c' d'))"
    unfolding Fingerprint_def by (rule hex_encode_inj)
  with inj have "fingerprint_input m t c d = fingerprint_input m' t' c' d'"
    by (rule inj_onD) (simp_all only: insert_iff simp_thms)
  then show "m = m' \<and> t = t' \<and> c = c' \<and> d = d'"
    by (rule fingerprint_input_inj [OF assms(1-6)])
qed simp

subsection \<open>Properties\<close>

text \<open>
  C28: a fingerprint is 32 hexadecimal digits and identifies its finding: as long as the hash does
  not collide on the two inputs and only the discriminator may contain the separator, two
  fingerprints agree exactly if module, target, check and discriminator do.
\<close>

theorem Fingerprint_identifies:
  assumes "no_bar m" "no_bar t" "no_bar c" "no_bar m'" "no_bar t'" "no_bar c'"
    and "inj_on (\<lambda>s. take 16 (sha s)) {fingerprint_input m t c d, fingerprint_input m' t' c' d'}"
    and "\<And>s. length (sha s) = 32"
  shows "length (Fingerprint sha m t c d) = 32 \<and>
    (Fingerprint sha m t c d = Fingerprint sha m' t' c' d' \<longleftrightarrow> m = m' \<and> t = t' \<and> c = c' \<and> d = d')"
proof
  show "length (Fingerprint sha m t c d) = 32"
    by (simp add: Fingerprint_def length_hex_encode assms(8))
qed (rule Fingerprint_eq_iff [OF assms(1-7)])

text \<open>A hash for the example: the last 16 bytes of the input, padded, twice.\<close>

definition toy_hash :: "string \<Rightarrow> string" where
  "toy_hash s = (let t = rev (take 16 (rev (replicate 16 (CHR ''0'') @ s))) in t @ t)"

lemma length_toy_hash: "length (toy_hash s) = 32"
  by (simp add: toy_hash_def Let_def)

theorem Fingerprint_identifies_witness:
  "Fingerprint toy_hash ''ssl'' ''a:443'' ''expiry'' [] \<noteq>
   Fingerprint toy_hash ''ssl'' ''b:443'' ''expiry'' []"
proof -
  have "no_bar ''ssl''" "no_bar ''a:443''" "no_bar ''b:443''" "no_bar ''expiry''"
    by (simp_all add: no_bar_def)
  moreover have "inj_on (\<lambda>s. take 16 (toy_hash s)) {fingerprint_input ''ssl'' ''a:443'' ''expiry'' [],
      fingerprint_input ''ssl'' ''b:443'' ''expiry'' []}"
    by (simp add: inj_on_def toy_hash_def fingerprint_input_def)
  ultimately show ?thesis
    using Fingerprint_identifies [of "''ssl''" "''a:443''" "''expiry''" "''ssl''" "''b:443''" "''expiry''"
        toy_hash "[]" "[]"] length_toy_hash by simp
qed

end
