(* ===== verification/Notify_Dispatcher.thy ===== *)
theory Notify_Dispatcher
  imports Core_Finding
begin

text \<open>
  \<open>notify/notify.go\<close>: the dispatcher that batches events into digests. Its state is the record
  \<open>dispatcher\<close>; the pending map is an association list in insertion order (Go iterates a map in
  any order, and the digests of one flush are independent of each other), the timer is whether
  one is set, and a goroutine that sends a digest to a channel is an entry of \<open>dSpawned\<close>, so that
  what was sent to whom is part of the state. The mutex makes every method one step.
  \<open>sendWithRetry\<close> is the body of such a goroutine.
\<close>

type_synonym EventKind = string

definition KindOpened :: EventKind where "KindOpened = ''opened''"
definition KindResolved :: EventKind where "KindResolved = ''resolved''"

lemma kind_distinct [simp]: "KindOpened \<noteq> KindResolved" "KindResolved \<noteq> KindOpened"
  by (simp_all add: KindOpened_def KindResolved_def)

record event =
  eKind :: EventKind
  eModule :: string
  eFinding :: finding

record digest =
  dgModule :: string
  dgOpened :: "finding list"
  dgResolved :: "finding list"
  dgAt :: gtime

definition Empty :: "digest \<Rightarrow> bool" where
  "Empty d \<longleftrightarrow> length (dgOpened d) = 0 \<and> length (dgResolved d) = 0"

record dconfig =
  FlushInterval :: duration
  MaxBatch :: int
  MinSeverity :: Severity
  Retries :: int
  RetryDelay :: duration

definition dconfig_withDefaults :: "dconfig \<Rightarrow> dconfig" where
  "dconfig_withDefaults c =
     c\<lparr>FlushInterval := (if FlushInterval c \<le> 0 then 30 * Second else FlushInterval c),
       MaxBatch := (if MaxBatch c \<le> 0 then 100 else MaxBatch c),
       Retries := (if Retries c \<le> 0 then 3 else Retries c),
       RetryDelay := (if RetryDelay c \<le> 0 then 5 * Second else RetryDelay c)\<rparr>"

record dispatcher =
  dCfg :: dconfig
  dChannels :: "string list"
  dPending :: "(string \<times> event list) list"
  dSeen :: "string list"
  dTimer :: bool
  dClosed :: bool
  dSpawned :: "(string \<times> digest) list"

definition NewDispatcher :: "dconfig \<Rightarrow> string list \<Rightarrow> dispatcher" where
  "NewDispatcher cfg channels =
     \<lparr>dCfg = dconfig_withDefaults cfg, dChannels = channels, dPending = [], dSeen = [],
      dTimer = False, dClosed = False, dSpawned = []\<rparr>"

subsection \<open>Ordering a digest\<close>

definition severityRank :: "Severity \<Rightarrow> int" where
  "severityRank s =
     (if s = SeverityCritical then 4
      else if s = SeverityHigh then 3
      else if s = SeverityMedium then 2
      else if s = SeverityLow then 1
      else 0)"

text \<open>The inner loop: the element at \<open>j\<close> sinks while it is more severe than the one before.\<close>

fun sink :: "nat \<Rightarrow> finding list \<Rightarrow> finding list" where
  "sink 0 fs = fs"
| "sink (Suc j) fs =
     (if severityRank (fSeverity (fs ! Suc j)) > severityRank (fSeverity (fs ! j))
      then sink j (fs[Suc j := fs ! j, j := fs ! Suc j]) else fs)"

definition sortBySeverity :: "finding list \<Rightarrow> finding list" where
  "sortBySeverity fs = fold sink [1..<length fs] fs"

subsection \<open>Flushing\<close>

definition passesSeverity :: "dconfig \<Rightarrow> Severity \<Rightarrow> bool" where
  "passesSeverity cfg s \<longleftrightarrow> MinSeverity cfg = [] \<or> severityRank s \<ge> severityRank (MinSeverity cfg)"

definition digest_of :: "gtime \<Rightarrow> string \<times> event list \<Rightarrow> digest" where
  "digest_of now = (\<lambda>(module, events).
     \<lparr>dgModule = module,
      dgOpened = sortBySeverity (map eFinding (filter (\<lambda>e. eKind e = KindOpened) events)),
      dgResolved = map eFinding (filter (\<lambda>e. eKind e = KindResolved) events),
      dgAt = now\<rparr>)"

definition flushLocked :: "gtime \<Rightarrow> dispatcher \<Rightarrow> dispatcher" where
  "flushLocked now d =
     (let d = d\<lparr>dTimer := False\<rparr>
      in if length (dPending d) = 0 then d
         else
           let digests = map (digest_of now) (dPending d);
               d = d\<lparr>dPending := [], dSeen := []\<rparr>
           in d\<lparr>dSpawned := dSpawned d @
                concat (map (\<lambda>dg. map (\<lambda>ch. (ch, dg)) (dChannels d))
                  (filter (\<lambda>dg. \<not> Empty dg) digests))\<rparr>)"

definition event_key :: "event \<Rightarrow> string" where
  "event_key e = eKind e @ ''|'' @ eModule e @ ''|'' @ fFingerprint (eFinding e)"

definition pending_of :: "dispatcher \<Rightarrow> string \<Rightarrow> event list" where
  "pending_of d module = (case map_of (dPending d) module of None \<Rightarrow> [] | Some es \<Rightarrow> es)"

definition pending_total :: "dispatcher \<Rightarrow> nat" where
  "pending_total d = sum_list (map (length \<circ> snd) (dPending d))"

definition Enqueue :: "event \<Rightarrow> gtime \<Rightarrow> dispatcher \<Rightarrow> dispatcher" where
  "Enqueue e now d =
     (if eKind e = KindOpened \<and> \<not> passesSeverity (dCfg d) (fSeverity (eFinding e)) then d
      else if dClosed d then d
      else
        let key = event_key e
        in if key \<in> set (dSeen d) then d
           else
             let d = d\<lparr>dSeen := key # dSeen d,
                   dPending := AList.update (eModule e) (pending_of d (eModule e) @ [e]) (dPending d)\<rparr>
             in if int (pending_total d) \<ge> MaxBatch (dCfg d) then flushLocked now d
                else if \<not> dTimer d then d\<lparr>dTimer := True\<rparr> else d)"

definition Flush :: "gtime \<Rightarrow> dispatcher \<Rightarrow> dispatcher" where
  "Flush now d = flushLocked now d"

definition Close :: "gtime \<Rightarrow> dispatcher \<Rightarrow> dispatcher" where
  "Close now d = (flushLocked now d)\<lparr>dClosed := True\<rparr>"

subsection \<open>Sending\<close>

text \<open>
  \<open>send k\<close> is what \<open>ch.Send\<close> returns on the attempt \<open>k\<close>. The result is the number of calls of
  \<open>Send\<close>, the number of sleeps between them, and the error \<open>OnSendError\<close> is called with, if it is.
\<close>

fun send_attempts ::
    "(nat \<Rightarrow> gerror option) \<Rightarrow> nat \<Rightarrow> nat \<Rightarrow> nat \<Rightarrow> gerror option \<Rightarrow> nat \<times> nat \<times> gerror option" where
  "send_attempts send 0 attempt sleeps err = (attempt, sleeps, err)"
| "send_attempts send (Suc left) attempt sleeps err =
     (case send attempt of
        None \<Rightarrow> (Suc attempt, sleeps, None)
      | Some e \<Rightarrow>
          send_attempts send left (Suc attempt) (if left = 0 then sleeps else Suc sleeps) (Some e))"

definition sendWithRetry ::
    "dconfig \<Rightarrow> (nat \<Rightarrow> gerror option) \<Rightarrow> nat \<times> nat \<times> gerror option" where
  "sendWithRetry cfg send = send_attempts send (nat (Retries cfg)) 0 0 None"

subsection \<open>The sort\<close>

abbreviation urgency :: "finding \<Rightarrow> int" where
  "urgency f \<equiv> severityRank (fSeverity f)"

text \<open>The inner loop puts the next element behind the elements that are at least as severe.\<close>

lemma sink_inserts:
  assumes "sorted_wrt (\<lambda>a b. urgency a \<ge> urgency b) xs"
  shows "\<exists>zs. sink (length xs) (xs @ x # ys) = zs @ ys \<and> mset zs = mset (xs @ [x]) \<and>
    sorted_wrt (\<lambda>a b. urgency a \<ge> urgency b) zs \<and>
    (\<forall>k. filter (\<lambda>f. urgency f = k) zs = filter (\<lambda>f. urgency f = k) (xs @ [x]))"
  using assms
proof (induction xs arbitrary: ys rule: rev_induct)
  case Nil
  show ?case by (intro exI [of _ "[x]"]) simp
next
  case (snoc y xs)
  have xs: "sorted_wrt (\<lambda>a b. urgency a \<ge> urgency b) xs" and y: "\<forall>a \<in> set xs. urgency a \<ge> urgency y"
    using snoc.prems by (simp_all add: sorted_wrt_append)
  show ?case
  proof (cases "urgency x > urgency y")
    case True
    from snoc.IH [OF xs, of "y # ys"] obtain zs where zs:
      "sink (length xs) (xs @ x # y # ys) = zs @ y # ys" "mset zs = mset (xs @ [x])"
      "sorted_wrt (\<lambda>a b. urgency a \<ge> urgency b) zs"
      "\<forall>k. filter (\<lambda>f. urgency f = k) zs = filter (\<lambda>f. urgency f = k) (xs @ [x])" by blast
    have "set zs = set (xs @ [x])" using zs(2) by (rule mset_eq_setD)
    then have "sorted_wrt (\<lambda>a b. urgency a \<ge> urgency b) (zs @ [y])"
      using zs(3) y True by (auto simp: sorted_wrt_append)
    moreover have "sink (length (xs @ [y])) ((xs @ [y]) @ x # ys) = (zs @ [y]) @ ys"
      using True zs(1) by (simp add: nth_append list_update_append)
    moreover have "mset (zs @ [y]) = mset ((xs @ [y]) @ [x])" using zs(2) by simp
    moreover have "filter (\<lambda>f. urgency f = k) (zs @ [y]) =
        filter (\<lambda>f. urgency f = k) ((xs @ [y]) @ [x])" for k
      using zs(4) True by auto
    ultimately show ?thesis by blast
  next
    case False
    then have "sorted_wrt (\<lambda>a b. urgency a \<ge> urgency b) ((xs @ [y]) @ [x])"
      using snoc.prems y by (auto simp: sorted_wrt_append)
    moreover have "sink (length (xs @ [y])) ((xs @ [y]) @ x # ys) = ((xs @ [y]) @ [x]) @ ys"
      using False by (simp add: nth_append)
    ultimately show ?thesis by blast
  qed
qed

lemma sort_prefix:
  assumes "0 < n" "n \<le> length fs"
  shows "\<exists>zs. fold sink [1..<n] fs = zs @ drop n fs \<and> mset zs = mset (take n fs) \<and>
    sorted_wrt (\<lambda>a b. urgency a \<ge> urgency b) zs \<and>
    (\<forall>k. filter (\<lambda>f. urgency f = k) zs = filter (\<lambda>f. urgency f = k) (take n fs))"
  using assms
proof (induction n)
  case (Suc n)
  show ?case
  proof (cases "n = 0")
    case True
    then show ?thesis using Suc.prems by (intro exI [of _ "take 1 fs"]) (cases fs, simp_all)
  next
    case False
    then obtain zs where zs: "fold sink [1..<n] fs = zs @ drop n fs" "mset zs = mset (take n fs)"
      "sorted_wrt (\<lambda>a b. urgency a \<ge> urgency b) zs"
      "\<forall>k. filter (\<lambda>f. urgency f = k) zs = filter (\<lambda>f. urgency f = k) (take n fs)"
      using Suc by auto
    have len: "length zs = n" using zs(2) Suc.prems by (metis mset_eq_length length_take min.absorb2 Suc_leD)
    have d: "drop n fs = fs ! n # drop (Suc n) fs" and t: "take (Suc n) fs = take n fs @ [fs ! n]"
      using Suc.prems by (simp_all add: Cons_nth_drop_Suc take_Suc_conv_app_nth)
    have "fold sink [1..<Suc n] fs = sink n (zs @ fs ! n # drop (Suc n) fs)"
      using False zs(1) d by (simp add: upt_Suc_append)
    with sink_inserts [OF zs(3), of "fs ! n" "drop (Suc n) fs"] zs(2,4) len t
    show ?thesis by simp
  qed
qed simp

lemma sortBySeverity_sort_key: "sortBySeverity fs = sort_key (\<lambda>f. - urgency f) fs"
proof (cases "fs = []")
  case False
  then obtain zs where zs: "sortBySeverity fs = zs" "mset zs = mset fs"
    "sorted_wrt (\<lambda>a b. urgency a \<ge> urgency b) zs"
    "\<forall>k. filter (\<lambda>f. urgency f = k) zs = filter (\<lambda>f. urgency f = k) fs"
    using sort_prefix [of "length fs" fs] by (auto simp: sortBySeverity_def)
  have "sort_key (\<lambda>f. - urgency f) fs = zs"
  proof (rule properties_for_sort_key)
    show "mset zs = mset fs" by (rule zs(2))
    show "filter (\<lambda>x. - urgency k = - urgency x) zs = filter (\<lambda>x. - urgency k = - urgency x) fs" for k
    proof -
      have "(\<lambda>x. - urgency k = - urgency x) = (\<lambda>x. urgency x = urgency k)" by auto
      then show ?thesis using zs(4) by simp
    qed
    show "sorted (map (\<lambda>f. - urgency f) zs)"
      using zs(3) by (simp add: sorted_map)
  qed
  with zs(1) show ?thesis by simp
qed (simp add: sortBySeverity_def)

lemma set_sortBySeverity [simp]: "set (sortBySeverity fs) = set fs"
  by (simp add: sortBySeverity_sort_key)

lemma length_sortBySeverity [simp]: "length (sortBySeverity fs) = length fs"
  by (simp add: sortBySeverity_sort_key)

lemma mset_sortBySeverity: "mset (sortBySeverity fs) = mset fs"
  by (simp add: sortBySeverity_sort_key)

subsection \<open>Runs\<close>

text \<open>
  The events the program enqueues are opened or resolved ones, of modules whose identifier has
  no separator.
\<close>

definition event_ok :: "event \<Rightarrow> bool" where
  "event_ok e \<longleftrightarrow> eKind e \<in> {KindOpened, KindResolved} \<and> no_bar (eModule e)"

inductive dispatch_step :: "dispatcher \<Rightarrow> dispatcher \<Rightarrow> bool" where
  enqueue: "event_ok e \<Longrightarrow> dispatch_step d (Enqueue e now d)"
| flush: "dispatch_step d (Flush now d)"
| close: "dispatch_step d (Close now d)"

inductive_cases dispatch_stepE: "dispatch_step d d'"

definition reachable :: "dconfig \<Rightarrow> string list \<Rightarrow> dispatcher \<Rightarrow> bool" where
  "reachable cfg channels d \<longleftrightarrow> dispatch_step\<^sup>*\<^sup>* (NewDispatcher cfg channels) d"

lemma event_key_inj:
  assumes "event_ok e" "event_ok e'" "event_key e = event_key e'"
  shows "eKind e = eKind e' \<and> eModule e = eModule e' \<and>
    fFingerprint (eFinding e) = fFingerprint (eFinding e')"
proof -
  have k: "no_bar (eKind e)" "no_bar (eKind e')"
    using assms(1,2) by (auto simp: event_ok_def no_bar_def KindOpened_def KindResolved_def)
  from split_at_bar [OF k] assms(3) have "eKind e = eKind e'"
    and r: "eModule e @ CHR ''|'' # fFingerprint (eFinding e)
      = eModule e' @ CHR ''|'' # fFingerprint (eFinding e')"
    by (simp_all add: event_key_def)
  moreover from split_at_bar [OF _ _ r] assms(1,2) have "eModule e = eModule e'"
    "fFingerprint (eFinding e) = fFingerprint (eFinding e')" by (simp_all add: event_ok_def)
  ultimately show ?thesis by simp
qed

subsection \<open>The invariant\<close>

definition pending_events :: "dispatcher \<Rightarrow> event list" where
  "pending_events d = concat (map snd (dPending d))"

text \<open>What holds of a digest that is sent.\<close>

definition digest_ok :: "dconfig \<Rightarrow> digest \<Rightarrow> bool" where
  "digest_ok cfg dg \<longleftrightarrow> \<not> Empty dg \<and>
     int (length (dgOpened dg) + length (dgResolved dg)) \<le> MaxBatch cfg \<and>
     sorted_wrt (\<lambda>a b. urgency a \<ge> urgency b) (dgOpened dg) \<and>
     distinct (map fFingerprint (dgOpened dg)) \<and> distinct (map fFingerprint (dgResolved dg)) \<and>
     (\<forall>f \<in> set (dgOpened dg). passesSeverity cfg (fSeverity f))"

text \<open>The events of one module's entry.\<close>

definition entry_ok :: "dconfig \<Rightarrow> string \<times> event list \<Rightarrow> bool" where
  "entry_ok cfg p \<longleftrightarrow> snd p \<noteq> [] \<and> (\<forall>e \<in> set (snd p). eModule e = fst p \<and> event_ok e \<and>
     (eKind e = KindOpened \<longrightarrow> passesSeverity cfg (fSeverity (eFinding e))))"

definition pending_ok :: "dispatcher \<Rightarrow> bool" where
  "pending_ok d \<longleftrightarrow> distinct (map fst (dPending d)) \<and> (\<forall>p \<in> set (dPending d). entry_ok (dCfg d) p) \<and>
     distinct (map event_key (pending_events d)) \<and>
     set (dSeen d) = event_key ` set (pending_events d) \<and>
     (\<forall>(ch, dg) \<in> set (dSpawned d). ch \<in> set (dChannels d) \<and> digest_ok (dCfg d) dg)"

definition dispatcher_ok :: "dispatcher \<Rightarrow> bool" where
  "dispatcher_ok d \<longleftrightarrow> pending_ok d \<and> int (pending_total d) < MaxBatch (dCfg d) \<and>
     (dPending d \<noteq> [] \<longrightarrow> dTimer d \<and> \<not> dClosed d)"

lemma pending_total_events: "pending_total d = length (pending_events d)"
  by (simp add: pending_total_def pending_events_def length_concat comp_def)

lemma filter_kind_length:
  "length (filter (\<lambda>e. eKind e = KindOpened) es) + length (filter (\<lambda>e. eKind e = KindResolved) es)
     \<le> length es"
  by (induction es) auto

lemma distinct_fingerprints:
  assumes "distinct (map event_key es)" "\<forall>e \<in> set es. eModule e = m"
  shows "distinct (map (\<lambda>e. fFingerprint (eFinding e)) (filter (\<lambda>e. eKind e = k) es))"
proof -
  have "distinct (map event_key (filter (\<lambda>e. eKind e = k) es))"
    using assms(1) by (rule distinct_map_filter)
  moreover have "map event_key (filter (\<lambda>e. eKind e = k) es) =
      map (\<lambda>fp. k @ ''|'' @ m @ ''|'' @ fp)
        (map (\<lambda>e. fFingerprint (eFinding e)) (filter (\<lambda>e. eKind e = k) es))"
    using assms(2) by (auto simp: event_key_def)
  ultimately show ?thesis by (simp only: distinct_map)
qed

lemma distinct_concatD: "distinct (map f (concat xss)) \<Longrightarrow> xs \<in> set xss \<Longrightarrow> distinct (map f xs)"
  by (induction xss) auto

lemma length_concatD: "xs \<in> set xss \<Longrightarrow> length xs \<le> length (concat xss)"
  by (induction xss) auto

lemma digest_of_ok:
  assumes "pending_ok d" "int (pending_total d) \<le> MaxBatch (dCfg d)" "p \<in> set (dPending d)"
    and "\<not> Empty (digest_of now p)"
  shows "digest_ok (dCfg d) (digest_of now p)"
proof -
  obtain m es where p: "p = (m, es)" by (cases p)
  let ?o = "filter (\<lambda>e. eKind e = KindOpened) es" and ?r = "filter (\<lambda>e. eKind e = KindResolved) es"
  have entry: "entry_ok (dCfg d) (m, es)" using assms(1,3) by (auto simp: pending_ok_def p)
  have es: "es \<in> set (map snd (dPending d))" using assms(3) p by force
  have "distinct (map event_key es)"
    using assms(1) unfolding pending_ok_def pending_events_def
    by (intro distinct_concatD [OF _ es]) blast
  then have dist: "distinct (map (\<lambda>e. fFingerprint (eFinding e)) (filter (\<lambda>e. eKind e = k) es))" for k
    by (rule distinct_fingerprints [where m = m]) (use entry in \<open>simp add: entry_ok_def\<close>)
  have "length es \<le> pending_total d"
    using length_concatD [OF es] by (simp add: pending_total_events pending_events_def)
  then have len: "int (length ?o + length ?r) \<le> MaxBatch (dCfg d)"
    using filter_kind_length [of es] assms(2) by linarith
  have "mset (map fFingerprint (sortBySeverity (map eFinding ?o))) =
      mset (map (\<lambda>e. fFingerprint (eFinding e)) ?o)"
    by (simp add: mset_sortBySeverity comp_def image_mset.compositionality)
  then have "distinct (map fFingerprint (sortBySeverity (map eFinding ?o)))"
    using dist [of KindOpened] mset_eq_imp_distinct_iff by blast
  moreover have "sorted_wrt (\<lambda>a b. urgency a \<ge> urgency b) (sortBySeverity (map eFinding ?o))"
    using sorted_sort_key [of "\<lambda>f. - urgency f" "map eFinding ?o"]
    by (simp add: sortBySeverity_sort_key sorted_map)
  ultimately show ?thesis
    using assms(4) entry dist [of KindResolved] len
    by (auto simp: digest_ok_def digest_of_def p entry_ok_def comp_def)
qed

lemma flushLocked_fields [simp]:
  "dPending (flushLocked now d) = []" "dTimer (flushLocked now d) = False"
  "dCfg (flushLocked now d) = dCfg d" "dChannels (flushLocked now d) = dChannels d"
  "dClosed (flushLocked now d) = dClosed d"
  by (simp_all add: flushLocked_def Let_def)

lemma flushLocked_appends:
  "\<exists>new. dSpawned (flushLocked now d) = dSpawned d @ new \<and>
     set new = {(ch, dg). ch \<in> set (dChannels d) \<and> (\<exists>p \<in> set (dPending d). dg = digest_of now p \<and> \<not> Empty dg)}"
  by (auto simp: flushLocked_def Let_def)

lemma flushLocked_spawned:
  "set (dSpawned (flushLocked now d)) = set (dSpawned d) \<union>
     {(ch, dg). ch \<in> set (dChannels d) \<and> (\<exists>p \<in> set (dPending d). dg = digest_of now p \<and> \<not> Empty dg)}"
  using flushLocked_appends [of now d] by auto

lemma flushLocked_ok:
  assumes "pending_ok d" "int (pending_total d) \<le> MaxBatch (dCfg d)" "0 < MaxBatch (dCfg d)"
  shows "dispatcher_ok (flushLocked now d)"
proof -
  have "dSeen (flushLocked now d) = []"
    using assms(1) by (cases "dPending d") (auto simp: flushLocked_def pending_ok_def pending_events_def)
  moreover have "\<forall>(ch, dg) \<in> set (dSpawned (flushLocked now d)).
      ch \<in> set (dChannels d) \<and> digest_ok (dCfg d) dg"
    using assms(1) digest_of_ok [OF assms(1,2)] unfolding flushLocked_spawned
    by (auto simp: pending_ok_def)
  ultimately show ?thesis
    using assms(3) by (simp add: dispatcher_ok_def pending_ok_def pending_events_def pending_total_def)
qed

text \<open>Adding an event to its module's entry.\<close>

lemma mset_update_append:
  "distinct (map fst ps) \<Longrightarrow>
     mset (concat (map snd (AList.update m ((case map_of ps m of None \<Rightarrow> [] | Some es \<Rightarrow> es) @ [e]) ps)))
     = add_mset e (mset (concat (map snd ps)))"
  by (induction ps) auto

definition add_event :: "event \<Rightarrow> dispatcher \<Rightarrow> dispatcher" where
  "add_event e d = d\<lparr>dSeen := event_key e # dSeen d,
     dPending := AList.update (eModule e) (pending_of d (eModule e) @ [e]) (dPending d)\<rparr>"

lemma add_event_fields [simp]:
  "dCfg (add_event e d) = dCfg d" "dChannels (add_event e d) = dChannels d"
  "dTimer (add_event e d) = dTimer d" "dClosed (add_event e d) = dClosed d"
  "dSpawned (add_event e d) = dSpawned d"
  by (simp_all add: add_event_def)

lemma add_event_mset:
  "pending_ok d \<Longrightarrow> mset (pending_events (add_event e d)) = add_mset e (mset (pending_events d))"
  by (simp add: pending_events_def add_event_def pending_of_def pending_ok_def mset_update_append)

lemma add_event_ok:
  assumes "pending_ok d" "event_ok e" "event_key e \<notin> set (dSeen d)"
    and "eKind e = KindOpened \<longrightarrow> passesSeverity (dCfg d) (fSeverity (eFinding e))"
  shows "pending_ok (add_event e d)" "pending_total (add_event e d) = Suc (pending_total d)"
proof -
  note ms = add_event_mset [OF assms(1), of e]
  have set: "set (pending_events (add_event e d)) = insert e (set (pending_events d))"
    using arg_cong [OF ms, of set_mset] by simp
  have "mset (map event_key (pending_events (add_event e d))) =
      mset (map event_key (e # pending_events d))"
    using ms by simp
  moreover have "distinct (map event_key (e # pending_events d))"
    using assms(1,3) by (simp add: pending_ok_def)
  ultimately have "distinct (map event_key (pending_events (add_event e d)))"
    using mset_eq_imp_distinct_iff by blast
  moreover have "distinct (map fst (dPending (add_event e d)))"
    using assms(1) by (simp add: add_event_def pending_ok_def distinct_update)
  moreover have "entry_ok (dCfg d) p" if "p \<in> set (dPending (add_event e d))" for p
  proof (cases "p \<in> set (dPending d)")
    case True
    then show ?thesis using assms(1) by (simp add: pending_ok_def)
  next
    case False
    then have p: "p = (eModule e, pending_of d (eModule e) @ [e])"
      using that set_updateD unfolding add_event_def by fastforce
    have "\<forall>e' \<in> set (pending_of d (eModule e)). \<exists>es. (eModule e, es) \<in> set (dPending d) \<and> e' \<in> set es"
      by (cases "map_of (dPending d) (eModule e)") (auto simp: pending_of_def dest: map_of_SomeD)
    then show ?thesis
      using assms(1,2,4) unfolding p by (fastforce simp: entry_ok_def pending_ok_def)
  qed
  ultimately show "pending_ok (add_event e d)"
    using assms(1) set by (simp add: pending_ok_def) (simp add: add_event_def)
  show "pending_total (add_event e d) = Suc (pending_total d)"
    using arg_cong [OF ms, of size] by (simp add: pending_total_events)
qed

text \<open>\<open>Enqueue\<close> in terms of \<open>add_event\<close>: an event that is dropped, one that fills the batch, or one more.\<close>

definition dropped :: "event \<Rightarrow> dispatcher \<Rightarrow> bool" where
  "dropped e d \<longleftrightarrow> (eKind e = KindOpened \<and> \<not> passesSeverity (dCfg d) (fSeverity (eFinding e))) \<or>
     dClosed d \<or> event_key e \<in> set (dSeen d)"

lemma Enqueue_alt:
  "Enqueue e now d =
    (if dropped e d then d
     else if int (pending_total (add_event e d)) \<ge> MaxBatch (dCfg d)
     then flushLocked now (add_event e d)
     else (add_event e d)\<lparr>dTimer := True\<rparr>)"
proof -
  have t: "(if \<not> dTimer x then x\<lparr>dTimer := True\<rparr> else x) = x\<lparr>dTimer := True\<rparr>" for x :: dispatcher
    by (cases x) auto
  show ?thesis by (simp add: Enqueue_def Let_def t dropped_def add_event_def)
qed

lemma Enqueue_ok:
  assumes "dispatcher_ok d" "event_ok e" "0 < MaxBatch (dCfg d)"
  shows "dispatcher_ok (Enqueue e now d)"
proof (cases "dropped e d")
  case True
  with assms(1) show ?thesis by (simp add: Enqueue_alt)
next
  case False
  have p: "pending_ok d" and lt: "int (pending_total d) < MaxBatch (dCfg d)"
    using assms(1) by (simp_all add: dispatcher_ok_def)
  have a: "pending_ok (add_event e d)" "pending_total (add_event e d) = Suc (pending_total d)"
    using False by (auto intro!: add_event_ok p assms(2) simp: dropped_def)
  show ?thesis
  proof (cases "int (pending_total (add_event e d)) \<ge> MaxBatch (dCfg d)")
    case True
    have "dispatcher_ok (flushLocked now (add_event e d))"
      using a lt assms(3) by (intro flushLocked_ok) auto
    with True False show ?thesis by (simp add: Enqueue_alt)
  next
    case small: False
    have "pending_ok ((add_event e d)\<lparr>dTimer := True\<rparr>)"
      using a(1) by (simp add: pending_ok_def pending_events_def)
    moreover have "\<not> dClosed d" using False by (simp add: dropped_def)
    ultimately show ?thesis
      using small False by (simp add: Enqueue_alt dispatcher_ok_def pending_total_def)
  qed
qed

lemma dispatch_step_cfg:
  "dispatch_step d d' \<Longrightarrow> dCfg d' = dCfg d \<and> dChannels d' = dChannels d"
  by (auto elim!: dispatch_stepE simp: Enqueue_alt Flush_def Close_def)

lemma dispatch_step_ok:
  assumes "dispatch_step d d'" "dispatcher_ok d" "0 < MaxBatch (dCfg d)"
  shows "dispatcher_ok d'"
proof -
  have f: "dispatcher_ok (flushLocked now d)" for now
    using assms(2,3) by (intro flushLocked_ok) (auto simp: dispatcher_ok_def)
  have "dispatcher_ok (Close now d)" for now
    using f [of now] by (simp add: Close_def dispatcher_ok_def pending_ok_def pending_events_def
        pending_total_def)
  with f show ?thesis
    using assms Enqueue_ok by (auto elim!: dispatch_stepE simp: Flush_def)
qed

lemma MaxBatch_pos [simp]: "0 < MaxBatch (dconfig_withDefaults cfg)"
  by (simp add: dconfig_withDefaults_def)

lemma reachable_ok:
  assumes "reachable cfg channels d"
  shows "dispatcher_ok d \<and> dCfg d = dconfig_withDefaults cfg \<and> dChannels d = channels"
  using assms unfolding reachable_def
proof (induction rule: rtranclp_induct)
  case base
  show ?case by (simp add: NewDispatcher_def dispatcher_ok_def pending_ok_def pending_events_def
      pending_total_def)
next
  case (step d d')
  then show ?case using dispatch_step_ok dispatch_step_cfg by fastforce
qed

subsection \<open>No event is lost\<close>

text \<open>
  An event is handed over if every channel has been given a digest of its module with its finding,
  counting only what was spawned after the first \<open>n\<close> sends.
\<close>

definition sent :: "nat \<Rightarrow> dispatcher \<Rightarrow> event \<Rightarrow> bool" where
  "sent n d e \<longleftrightarrow> (\<forall>ch \<in> set (dChannels d). \<exists>dg. (ch, dg) \<in> set (drop n (dSpawned d)) \<and>
     dgModule dg = eModule e \<and>
     eFinding e \<in> set (if eKind e = KindOpened then dgOpened dg else dgResolved dg))"

definition on_its_way :: "nat \<Rightarrow> dispatcher \<Rightarrow> event \<Rightarrow> bool" where
  "on_its_way n d e \<longleftrightarrow> e \<in> set (pending_events d) \<or> sent n d e"

lemma flush_sends:
  assumes "pending_ok d" "e \<in> set (pending_events d)" "n \<le> length (dSpawned d)"
  shows "sent n (flushLocked now d) e"
proof -
  obtain p where p: "p \<in> set (dPending d)" "e \<in> set (snd p)"
    using assms(2) by (auto simp: pending_events_def)
  then have m: "fst p = eModule e" and k: "eKind e \<in> {KindOpened, KindResolved}"
    using assms(1) by (auto simp: pending_ok_def entry_ok_def event_ok_def)
  let ?dg = "digest_of now p"
  have f: "eFinding e \<in> set (if eKind e = KindOpened then dgOpened ?dg else dgResolved ?dg)"
    using k p(2) by (auto simp: digest_of_def split: prod.splits)
  then have "\<not> Empty ?dg" by (auto simp: Empty_def split: if_splits)
  moreover obtain new where "dSpawned (flushLocked now d) = dSpawned d @ new"
    "set new = {(ch, dg). ch \<in> set (dChannels d) \<and> (\<exists>p \<in> set (dPending d). dg = digest_of now p \<and> \<not> Empty dg)}"
    using flushLocked_appends by blast
  ultimately have "(ch, ?dg) \<in> set (drop n (dSpawned (flushLocked now d)))" if "ch \<in> set (dChannels d)" for ch
    using that p(1) assms(3) by auto
  moreover have "dgModule ?dg = eModule e" using m by (cases p) (simp add: digest_of_def)
  ultimately show ?thesis unfolding sent_def flushLocked_fields using f by blast
qed

lemma sent_mono:
  assumes "sent n d e" "dSpawned d' = dSpawned d @ new" "dChannels d' = dChannels d"
  shows "sent n d' e"
proof -
  have "set (drop n (dSpawned d)) \<subseteq> set (drop n (dSpawned d'))" using assms(2) by auto
  with assms(1,3) show ?thesis unfolding sent_def by (metis subsetD)
qed

lemma add_event_pending:
  "pending_ok d \<Longrightarrow> set (pending_events (add_event e d)) = insert e (set (pending_events d))"
  using arg_cong [OF add_event_mset, of d set_mset e] by simp

lemma Enqueue_appends: "\<exists>new. dSpawned (Enqueue e now d) = dSpawned d @ new"
  using flushLocked_appends [of now "add_event e d"] by (auto simp: Enqueue_alt)

lemma dispatch_step_appends: "dispatch_step d d' \<Longrightarrow> \<exists>new. dSpawned d' = dSpawned d @ new"
proof (erule dispatch_stepE)
  show "d' = Enqueue e now d \<Longrightarrow> \<exists>new. dSpawned d' = dSpawned d @ new" for e now
    using Enqueue_appends [of e now d] by simp
  show "d' = Flush now d \<Longrightarrow> \<exists>new. dSpawned d' = dSpawned d @ new" for now
    using flushLocked_appends [of now d] unfolding Flush_def by blast
  show "d' = Close now d \<Longrightarrow> \<exists>new. dSpawned d' = dSpawned d @ new" for now
    using flushLocked_appends [of now d] by (elim exE) (simp add: Close_def)
qed

text \<open>A flush delivers what is on its way, and a step keeps it on its way.\<close>

lemma flush_delivers:
  assumes "pending_ok d" "n \<le> length (dSpawned d)" "on_its_way n d e"
  shows "sent n (flushLocked now d) e"
proof (cases "e \<in> set (pending_events d)")
  case True
  then show ?thesis by (rule flush_sends [OF assms(1) _ assms(2)])
next
  case False
  then have "sent n d e" using assms(3) by (simp add: on_its_way_def)
  moreover obtain new where "dSpawned (flushLocked now d) = dSpawned d @ new" using flushLocked_appends by blast
  ultimately show ?thesis by (rule sent_mono) simp
qed

lemma step_keeps:
  assumes "dispatch_step d d'" "dispatcher_ok d" "n \<le> length (dSpawned d)" "on_its_way n d e"
  shows "on_its_way n d' e"
proof -
  have p: "pending_ok d" using assms(2) by (simp add: dispatcher_ok_def)
  have eq: "on_its_way n (x\<lparr>dTimer := b\<rparr>) e = on_its_way n x e" "sent n (x\<lparr>dClosed := b\<rparr>) e = sent n x e" for x b
    by (simp_all add: on_its_way_def sent_def pending_events_def)
  consider (1) x now where "event_ok x" "d' = Enqueue x now d" | (2) now where "d' = Flush now d"
    | (3) now where "d' = Close now d"
    using assms(1) by (auto elim: dispatch_stepE)
  then show ?thesis
  proof cases
    case 1
    show ?thesis
    proof (cases "dropped x d")
      case True
      with 1 assms(4) show ?thesis by (simp add: Enqueue_alt)
    next
      case False
      have ok: "pending_ok (add_event x d)"
        using False 1 by (intro add_event_ok p) (auto simp: dropped_def)
      have "sent n (add_event x d) e = sent n d e" by (simp add: sent_def)
      then have way: "on_its_way n (add_event x d) e"
        using assms(4) add_event_pending [OF p] by (auto simp: on_its_way_def)
      show ?thesis
        using False 1 way flush_delivers [OF ok _ way] assms(3) by (simp add: Enqueue_alt eq) (simp add: on_its_way_def)
    qed
  next
    case 2
    with flush_delivers [OF p assms(3,4)] show ?thesis by (simp add: Flush_def on_its_way_def)
  next
    case 3
    with flush_delivers [OF p assms(3,4)] show ?thesis by (simp add: Close_def on_its_way_def eq)
  qed
qed

lemma steps_keep:
  assumes "dispatch_step\<^sup>*\<^sup>* d d'" "dispatcher_ok d" "0 < MaxBatch (dCfg d)"
    and "n \<le> length (dSpawned d)" "on_its_way n d e"
  shows "dispatcher_ok d' \<and> dCfg d' = dCfg d \<and> n \<le> length (dSpawned d') \<and> on_its_way n d' e"
  using assms(1)
proof (induction rule: rtranclp_induct)
  case base
  with assms show ?case by simp
next
  case (step x y)
  have "n \<le> length (dSpawned y)" using dispatch_step_appends [OF step.hyps(2)] step.IH by auto
  then show ?case
    using step.IH dispatch_step_ok [OF step.hyps(2)] dispatch_step_cfg [OF step.hyps(2)]
      step_keeps [OF step.hyps(2)] assms(3) by simp
qed

lemma Enqueue_announces:
  assumes "dispatcher_ok d" "event_ok e" "\<not> dClosed d"
    and "eKind e = KindOpened \<longrightarrow> passesSeverity (dCfg d) (fSeverity (eFinding e))"
  shows "\<exists>e'. eKind e' = eKind e \<and> eModule e' = eModule e \<and> fFingerprint (eFinding e') = fFingerprint (eFinding e) \<and>
    (e' = e \<or> e' \<in> set (pending_events d)) \<and> on_its_way (length (dSpawned d)) (Enqueue e now d) e'"
proof -
  have p: "pending_ok d" using assms(1) by (simp add: dispatcher_ok_def)
  show ?thesis
  proof (cases "dropped e d")
    case True
    then obtain e' where e': "e' \<in> set (pending_events d)" "event_key e' = event_key e"
      using assms(3,4) p by (auto simp: dropped_def pending_ok_def)
    then have "event_ok e'" using p by (auto simp: pending_ok_def entry_ok_def pending_events_def)
    from event_key_inj [OF this assms(2) e'(2)] e'(1) True show ?thesis
      by (intro exI [of _ e']) (simp add: on_its_way_def Enqueue_alt)
  next
    case False
    have a: "pending_ok (add_event e d)"
      using False assms(2) by (intro add_event_ok p) (auto simp: dropped_def)
    have way: "on_its_way (length (dSpawned d)) (add_event e d) e"
      by (simp add: on_its_way_def add_event_pending [OF p])
    have "on_its_way (length (dSpawned d)) (Enqueue e now d) e"
      using False way flush_delivers [OF a _ way] by (simp add: Enqueue_alt) (simp add: on_its_way_def pending_events_def sent_def)
    then show ?thesis by blast
  qed
qed

subsection \<open>Retries\<close>

lemma send_attempts_spec:
  "send_attempts send left attempt sleeps err =
    (if \<exists>k < left. send (attempt + k) = None
     then let k = (LEAST k. send (attempt + k) = None) in (attempt + Suc k, sleeps + k, None)
     else (attempt + left, sleeps + (left - 1), if left = 0 then err else send (attempt + left - 1)))"
proof (induction left arbitrary: attempt sleeps err)
  case 0
  then show ?case by simp
next
  case (Suc left)
  show ?case
  proof (cases "send attempt")
    case None
    then have "(LEAST k. send (attempt + k) = None) = 0" by (intro Least_eq_0) simp
    with None show ?thesis by (auto simp: Let_def)
  next
    case (Some e)
    have shift: "(\<exists>k < Suc left. send (attempt + k) = None) \<longleftrightarrow>
        (\<exists>k < left. send (Suc attempt + k) = None)"
      using Some by (simp add: Ex_less_Suc2)
    show ?thesis
    proof (cases "\<exists>k < left. send (Suc attempt + k) = None")
      case True
      then obtain k where "send (attempt + Suc k) = None" by auto
      then have "(LEAST k. send (attempt + k) = None) = Suc (LEAST k. send (attempt + Suc k) = None)"
        by (rule Least_Suc) (use Some in simp)
      then show ?thesis using True Some Suc.IH shift by (auto simp: Let_def)
    next
      case False
      then show ?thesis using Some Suc.IH shift by auto
    qed
  qed
qed

subsection \<open>Properties\<close>

text \<open>
  The hand-written insertion sort is a stable sort by falling severity: the digest's opened
  findings are a permutation of the events', most severe first, and findings of one severity keep
  the order in which they came.
\<close>

theorem sortBySeverity_stable: "sortBySeverity fs = sort_key (\<lambda>f. - severityRank (fSeverity f)) fs"
  by (rule sortBySeverity_sort_key)

text \<open>
  C21: in every reachable state fewer events wait than the batch limit, a timer is set whenever
  something waits (so it will be flushed) and nothing waits after a close; and every digest handed
  to a channel is not empty, holds no more findings than the limit, no fingerprint twice among
  the opened or among the resolved, the opened ones most severe first and none of them below the
  configured severity.
\<close>

theorem dispatcher_invariant:
  assumes "reachable cfg channels d"
  shows "int (pending_total d) < MaxBatch (dCfg d) \<and> (dPending d \<noteq> [] \<longrightarrow> dTimer d \<and> \<not> dClosed d) \<and>
    dChannels d = channels \<and>
    (\<forall>(ch, dg) \<in> set (dSpawned d). ch \<in> set channels \<and> digest_ok (dconfig_withDefaults cfg) dg)"
  using reachable_ok [OF assms] by (auto simp: dispatcher_ok_def pending_ok_def)

definition sample_cfg :: dconfig where
  "sample_cfg = \<lparr>FlushInterval = 0, MaxBatch = 0, MinSeverity = SeverityMedium, Retries = 0,
     RetryDelay = 0\<rparr>"

definition sample_event :: event where
  "sample_event = \<lparr>eKind = KindOpened, eModule = ''certwatch'', eFinding =
     \<lparr>fFingerprint = ''f1'', fTarget = ''a'', fCheck = ''c'', fTitle = ''t'',
      fSeverity = SeverityHigh, fRemediation = ''r'', fEvidence = None, fID = [], fModule = [],
      fStatus = [], fGroupID = None, fFirstSeen = 0, fLastSeen = 0, fResolvedAt = None\<rparr>\<rparr>"

lemma sample_event_ok: "event_ok sample_event"
  by (simp add: event_ok_def sample_event_def no_bar_def)

lemma reachable_new: "reachable cfg channels (NewDispatcher cfg channels)"
  by (simp add: reachable_def)

lemma fst_image_single: "fst ` S = {a} \<Longrightarrow> \<exists>b. (a, b) \<in> S"
  by (metis image_iff insertI1 prod.collapse)

theorem dispatcher_invariant_witness:
  "\<exists>dg. (''w'', dg) \<in> set (dSpawned (Close 2 (Enqueue sample_event 1 (NewDispatcher sample_cfg [''w''])))) \<and>
     digest_ok (dconfig_withDefaults sample_cfg) dg"
proof -
  have sent: "fst ` set (dSpawned (Close 2 (Enqueue sample_event 1 (NewDispatcher sample_cfg [''w''])))) = {''w''}"
    by code_simp
  have "dispatch_step (NewDispatcher sample_cfg [''w''])
      (Enqueue sample_event 1 (NewDispatcher sample_cfg [''w'']))"
    by (rule dispatch_step.enqueue [OF sample_event_ok])
  moreover have "dispatch_step (Enqueue sample_event 1 (NewDispatcher sample_cfg [''w'']))
      (Close 2 (Enqueue sample_event 1 (NewDispatcher sample_cfg [''w''])))"
    by (rule dispatch_step.close)
  ultimately have "reachable sample_cfg [''w'']
      (Close 2 (Enqueue sample_event 1 (NewDispatcher sample_cfg [''w''])))"
    unfolding reachable_def by (metis r_into_rtranclp rtranclp.rtrancl_into_rtrancl)
  from dispatcher_invariant [OF this] have
    "\<forall>(ch, dg) \<in> set (dSpawned (Close 2 (Enqueue sample_event 1 (NewDispatcher sample_cfg [''w''])))).
       digest_ok (dconfig_withDefaults sample_cfg) dg" by blast
  moreover obtain dg where
    "(''w'', dg) \<in> set (dSpawned (Close 2 (Enqueue sample_event 1 (NewDispatcher sample_cfg [''w'']))))"
    using fst_image_single [OF sent] by (rule exE)
  ultimately show ?thesis by blast
qed

text \<open>
  C3: no announcement is lost: whenever an event that passes the severity filter reaches an open
  dispatcher, then, after any further events and flushes, once the window is flushed or the dispatcher
  closed, every channel has been handed, since that moment, a digest of its module with the finding; if
  an event of the same kind and fingerprint was waiting already, that one stands for it. Digests that
  went out before do not count, so an event that comes again in a later window is announced again.
\<close>

theorem no_event_lost:
  assumes "reachable cfg channels d" and "event_ok e" and "\<not> dClosed d"
    and "eKind e = KindOpened \<longrightarrow> passesSeverity (dCfg d) (fSeverity (eFinding e))"
    and "dispatch_step\<^sup>*\<^sup>* (Enqueue e now d) d'"
  shows "\<exists>e'. eKind e' = eKind e \<and> eModule e' = eModule e \<and>
    fFingerprint (eFinding e') = fFingerprint (eFinding e) \<and> (e' = e \<or> e' \<in> set (pending_events d)) \<and>
    sent (length (dSpawned d)) (Flush t d') e' \<and> sent (length (dSpawned d)) (Close t d') e'"
proof -
  have ok: "dispatcher_ok d" "0 < MaxBatch (dCfg d)" using reachable_ok [OF assms(1)] by simp_all
  have cfg: "dCfg (Enqueue e now d) = dCfg d" by (simp add: Enqueue_alt)
  have len: "length (dSpawned d) \<le> length (dSpawned (Enqueue e now d))" using Enqueue_appends [of e now d] by auto
  obtain e' where e': "eKind e' = eKind e \<and> eModule e' = eModule e \<and>
      fFingerprint (eFinding e') = fFingerprint (eFinding e) \<and> (e' = e \<or> e' \<in> set (pending_events d))"
    "on_its_way (length (dSpawned d)) (Enqueue e now d) e'"
    using Enqueue_announces [OF ok(1) assms(2-4), of now] by blast
  from steps_keep [OF assms(5) Enqueue_ok [OF ok(1) assms(2) ok(2)] _ len e'(2)] ok(2)
  have "pending_ok d'" "length (dSpawned d) \<le> length (dSpawned d')" "on_its_way (length (dSpawned d)) d' e'"
    unfolding cfg dispatcher_ok_def by auto
  then have "sent (length (dSpawned d)) (flushLocked t d') e'" by (rule flush_delivers)
  then show ?thesis using e'(1) by (intro exI [of _ e']) (simp add: Flush_def Close_def sent_def)
qed

text \<open>The same event in two windows: the second flush sends it again.\<close>

theorem no_event_lost_witness:
  "sent 2 (Close 4 (Enqueue sample_event 3 (Flush 2 (Enqueue sample_event 1
     (NewDispatcher sample_cfg [''w'', ''s'']))))) sample_event"
proof -
  let ?d = "Flush 2 (Enqueue sample_event 1 (NewDispatcher sample_cfg [''w'', ''s'']))"
  have run: "\<not> dClosed ?d \<and> dCfg ?d = dconfig_withDefaults sample_cfg \<and> pending_events ?d = [] \<and>
      length (dSpawned ?d) = 2" by code_simp
  have r: "reachable sample_cfg [''w'', ''s''] ?d"
    unfolding reachable_def
    using dispatch_step.enqueue [OF sample_event_ok] dispatch_step.flush
    by (meson r_into_rtranclp rtranclp.rtrancl_into_rtrancl)
  have s: "eKind sample_event = KindOpened \<longrightarrow> passesSeverity (dCfg ?d) (fSeverity (eFinding sample_event))"
    unfolding run [THEN conjunct2, THEN conjunct1]
    by (simp add: sample_cfg_def sample_event_def passesSeverity_def dconfig_withDefaults_def severityRank_def go_consts)
  from no_event_lost [OF r sample_event_ok run [THEN conjunct1] s rtranclp.rtrancl_refl]
  show ?thesis unfolding run [THEN conjunct2, THEN conjunct2, THEN conjunct1] run [THEN conjunct2, THEN conjunct2, THEN conjunct2]
    by auto
qed

text \<open>
  A digest is tried at most the configured number of times: delivery stops at the first
  attempt that succeeds, with one pause before each further attempt and none after the last; an
  error is reported exactly when every attempt failed, and it is the last one.
\<close>

theorem sendWithRetry_exact:
  "let n = nat (Retries (dconfig_withDefaults cfg)) in 1 \<le> n \<and>
    sendWithRetry (dconfig_withDefaults cfg) send =
      (if \<exists>k < n. send k = None
       then let k = (LEAST k. send k = None) in (Suc k, k, None)
       else (n, n - 1, send (n - 1)))"
proof -
  obtain n where n: "nat (Retries (dconfig_withDefaults cfg)) = n" by blast
  then have "1 \<le> n" by (simp add: dconfig_withDefaults_def split: if_splits)
  then show ?thesis
    unfolding n sendWithRetry_def send_attempts_spec by (auto simp: Let_def)
qed

end
