(* ===== verification/Go_Net.thy ===== *)
theory Go_Net
  imports Go_Strings
begin

text \<open>
  What the program uses of the package \<open>net\<close>: whether \<open>ParseIP\<close> accepts a text, and splitting
  and joining a host and a port. The lemmas: an accepted address consists of hexadecimal digits,
  colons and dots, and a joined address splits into its parts.
\<close>

subsection \<open>IP addresses\<close>

definition is_hex :: "char \<Rightarrow> bool" where
  "is_hex c \<longleftrightarrow> is_digit c \<or> (97 \<le> byte c \<and> byte c \<le> 102) \<or> (65 \<le> byte c \<and> byte c \<le> 70)"

fun split_on :: "char \<Rightarrow> string \<Rightarrow> string list" where
  "split_on c [] = [[]]"
| "split_on c (x # s) =
     (if x = c then [] # split_on c s
      else case split_on c s of [] \<Rightarrow> [[x]] | p # ps \<Rightarrow> (x # p) # ps)"

definition octet_ok :: "string \<Rightarrow> bool" where
  "octet_ok f \<longleftrightarrow> f \<noteq> [] \<and> (\<forall>c \<in> set f. is_digit c) \<and> (length f = 1 \<or> hd f \<noteq> CHR ''0'') \<and>
     foldl (\<lambda>v c. v * 10 + (byte c - 48)) 0 f \<le> 255"

definition ipv4_ok :: "string \<Rightarrow> bool" where
  "ipv4_ok s \<longleftrightarrow> (let fs = split_on (CHR ''.'') s in length fs = 4 \<and> (\<forall>f \<in> set fs. octet_ok f))"

text \<open>
  The loop of the IPv6 parser with room for \<open>k\<close> more groups; \<open>ell\<close> is whether a double colon was
  seen. It ends well if the text is used up and a double colon stands for at least one group.
\<close>

fun ipv6_groups :: "nat \<Rightarrow> string \<Rightarrow> bool \<Rightarrow> bool" where
  "ipv6_groups 0 s ell \<longleftrightarrow> s = [] \<and> \<not> ell"
| "ipv6_groups (Suc k) s ell \<longleftrightarrow>
     (let n = length (takeWhile is_hex s); rest = drop n s
      in if n = 0 \<or> n > 4 then False
         else if rest \<noteq> [] \<and> hd rest = CHR ''.'' then
           (if k = 1 then \<not> ell else k > 1 \<and> ell) \<and> ipv4_ok s
         else if rest = [] then (if k = 0 then \<not> ell else ell)
         else if hd rest \<noteq> CHR '':'' \<or> length rest = 1 then False
         else
           let s = drop 1 rest
           in if hd s = CHR '':'' then
                (if ell then False
                 else if drop 1 s = [] then k \<noteq> 0 else ipv6_groups k (drop 1 s) True)
              else ipv6_groups k s ell)"

definition ipv6_ok :: "string \<Rightarrow> bool" where
  "ipv6_ok s \<longleftrightarrow> CHR ''%'' \<notin> set s \<and>
     (if take 2 s = ''::'' then drop 2 s = [] \<or> ipv6_groups 8 (drop 2 s) True
      else ipv6_groups 8 s False)"

text \<open>\<open>net.ParseIP(s) != nil\<close>: the first separator decides the family.\<close>

definition ParseIP_ok :: "string \<Rightarrow> bool" where
  "ParseIP_ok s \<longleftrightarrow>
     (case find (\<lambda>c. c = CHR ''.'' \<or> c = CHR '':'' \<or> c = CHR ''%'') s of
        None \<Rightarrow> False
      | Some c \<Rightarrow> if c = CHR ''.'' then ipv4_ok s else if c = CHR '':'' then ipv6_ok s else False)"

definition ip_char :: "char \<Rightarrow> bool" where
  "ip_char c \<longleftrightarrow> is_hex c \<or> c = CHR ''.'' \<or> c = CHR '':''"

lemma set_split_on: "x \<in> set s \<Longrightarrow> x = c \<or> (\<exists>f \<in> set (split_on c s). x \<in> set f)"
  by (induction s) (auto split: list.splits)

lemma ipv4_chars: "ipv4_ok s \<Longrightarrow> c \<in> set s \<Longrightarrow> ip_char c"
  using set_split_on [of c s "CHR ''.''"]
  by (fastforce simp: ipv4_ok_def Let_def octet_ok_def ip_char_def is_hex_def)

lemma ipv6_groups_chars: "ipv6_groups k s ell \<Longrightarrow> c \<in> set s \<Longrightarrow> ip_char c"
proof (induction k arbitrary: s ell)
  case 0
  then show ?case by simp
next
  case (Suc k)
  let ?n = "length (takeWhile is_hex s)"
  define rest where "rest = drop ?n s"
  have s: "s = takeWhile is_hex s @ rest"
    unfolding rest_def by (metis append_take_drop_id takeWhile_eq_take)
  have hex: "c \<in> set (takeWhile is_hex s) \<Longrightarrow> ip_char c"
    by (auto dest: set_takeWhileD simp: ip_char_def)
  show ?case
  proof (cases "c \<in> set rest")
    case False
    then show ?thesis using Suc.prems(2) s hex by (metis Un_iff set_append)
  next
    case True
    then obtain r rs where r: "rest = r # rs" by (cases rest) auto
    show ?thesis
    proof (cases "r = CHR ''.''")
      case True
      then have "ipv4_ok s"
        using Suc.prems(1) r unfolding rest_def by (auto simp: Let_def split: if_splits)
      then show ?thesis using ipv4_chars Suc.prems(2) by blast
    next
      case False
      then have colon: "r = CHR '':''" "rs \<noteq> []"
        and next_groups: "if hd rs = CHR '':'' then tl rs = [] \<or> ipv6_groups k (tl rs) True
          else ipv6_groups k rs ell"
        using Suc.prems(1) r unfolding rest_def by (auto simp: Let_def drop_Suc split: if_splits)
      then show ?thesis
        using Suc.IH True r by (cases rs) (auto simp: ip_char_def split: if_splits)
    qed
  qed
qed

lemma ParseIP_chars:
  assumes "ParseIP_ok s" "c \<in> set s"
  shows "ip_char c"
proof -
  have "ipv4_ok s \<or> ipv6_ok s"
    using assms(1) by (auto simp: ParseIP_ok_def split: option.splits if_splits)
  then show ?thesis
  proof
    assume "ipv4_ok s"
    then show ?thesis using assms(2) by (rule ipv4_chars)
  next
    assume v6: "ipv6_ok s"
    show ?thesis
    proof (cases "take 2 s = ''::''")
      case True
      have "s = ''::'' @ drop 2 s" using True by (metis append_take_drop_id)
      then have "c \<in> set (drop 2 s) \<or> c = CHR '':''" using assms(2) by (metis UnE empty_iff
        insertE list.set(1) list.set(2) set_append)
      then show ?thesis
        using v6 True ipv6_groups_chars by (auto simp: ipv6_ok_def ip_char_def)
    next
      case False
      then show ?thesis using v6 assms(2) ipv6_groups_chars by (auto simp: ipv6_ok_def)
    qed
  qed
qed

lemma ip_char_props: "ip_char c \<Longrightarrow> printable c"
  by (auto simp: ip_char_def is_hex_def is_digit_def printable_def byte_def)

subsection \<open>Hosts and ports\<close>

definition index_of :: "char \<Rightarrow> string \<Rightarrow> nat option" where
  "index_of c s = (if c \<in> set s then Some (length (takeWhile (\<lambda>x. x \<noteq> c) s)) else None)"

definition last_index_of :: "char \<Rightarrow> string \<Rightarrow> nat option" where
  "last_index_of c s =
     (if c \<in> set s then Some (length s - 1 - length (takeWhile (\<lambda>x. x \<noteq> c) (rev s))) else None)"

text \<open>\<open>net.SplitHostPort\<close>, \<open>None\<close> for an error.\<close>

definition SplitHostPort :: "string \<Rightarrow> (string \<times> string) option" where
  "SplitHostPort s =
     (case last_index_of (CHR '':'') s of
        None \<Rightarrow> None
      | Some i \<Rightarrow>
          (let parts =
             (if hd s = CHR ''['' then
                (case index_of (CHR '']'') s of
                   None \<Rightarrow> None
                 | Some e \<Rightarrow> if e + 1 = i then Some (drop 1 (take e s), 1, e + 1) else None)
              else if CHR '':'' \<in> set (take i s) then None
              else Some (take i s, 0, 0))
           in case parts of
                None \<Rightarrow> None
              | Some (host, j, k) \<Rightarrow>
                  if CHR ''['' \<in> set (drop j s) then None
                  else if CHR '']'' \<in> set (drop k s) then None
                  else Some (host, drop (i + 1) s)))"

definition JoinHostPort :: "string \<Rightarrow> string \<Rightarrow> string" where
  "JoinHostPort host port =
     (if CHR '':'' \<in> set host then ''['' @ host @ '']:'' @ port else host @ '':'' @ port)"

lemma last_index_of_append:
  "c \<notin> set b \<Longrightarrow> last_index_of c (a @ c # b) = Some (length a)"
proof -
  assume "c \<notin> set b"
  then have "takeWhile (\<lambda>x. x \<noteq> c) (rev (a @ c # b)) = rev b"
    by (simp add: takeWhile_append2 takeWhile_eq_all_conv) (auto simp: takeWhile_tail)
  then show ?thesis by (simp add: last_index_of_def)
qed

lemma index_of_append:
  assumes "c \<notin> set a"
  shows "index_of c (a @ c # b) = Some (length a)"
proof -
  have "takeWhile (\<lambda>x. x \<noteq> c) a = a" using assms by (auto simp: takeWhile_eq_all_conv)
  then show ?thesis by (simp add: index_of_def takeWhile_tail)
qed

definition no_brackets :: "string \<Rightarrow> bool" where
  "no_brackets s \<longleftrightarrow> CHR ''['' \<notin> set s \<and> CHR '']'' \<notin> set s"

lemma Split_Join:
  assumes "no_brackets host" "no_brackets port" "CHR '':'' \<notin> set port"
  shows "SplitHostPort (JoinHostPort host port) = Some (host, port)"
proof (cases "CHR '':'' \<in> set host")
  case True
  let ?s = "''['' @ host @ '']:'' @ port"
  have s: "?s = (CHR ''['' # host @ '']'') @ CHR '':'' # port"
    "?s = (CHR ''['' # host) @ CHR '']'' # (CHR '':'' # port)" by simp_all
  have i: "last_index_of (CHR '':'') ?s = Some (length host + 2)"
    unfolding s(1) using last_index_of_append [OF assms(3), of "CHR ''['' # host @ '']''"] by simp
  have e: "index_of (CHR '']'') ?s = Some (length host + 1)"
    unfolding s(2) using index_of_append [of "CHR '']''" "CHR ''['' # host"] assms(1)
    by (simp add: no_brackets_def)
  show ?thesis
    using True assms i e by (simp add: JoinHostPort_def SplitHostPort_def Let_def no_brackets_def)
next
  case False
  have i: "last_index_of (CHR '':'') (host @ CHR '':'' # port) = Some (length host)"
    by (rule last_index_of_append [OF assms(3)])
  have "hd (host @ CHR '':'' # port) \<noteq> CHR ''[''"
    using assms(1) by (cases host) (auto simp: no_brackets_def)
  with i False assms show ?thesis
    by (simp add: JoinHostPort_def SplitHostPort_def Let_def no_brackets_def)
qed

end
