(* ===== verification/Notify_Format.thy ===== *)
theory Notify_Format
  imports Notify_Dispatcher Go_Net Go_Time
begin

text \<open>
  \<open>notify/format.go\<close> and the syslog frames of \<open>notify/channels.go\<close>: how a digest reads. The host
  facts a frame carries (\<open>os.Hostname\<close>, the process id, the host's time zone) are the
  record \<open>host_env\<close>. The lemmas show that every finding is mentioned, and that a frame is one line
  of bounded length whatever the finding contains.
\<close>

subsection \<open>The text of a digest\<close>

definition severityBadge :: "Severity \<Rightarrow> string" where
  "severityBadge s =
     (if s = SeverityCritical then encode_rune 0x1F7E5 @ '' CRITICAL''
      else if s = SeverityHigh then encode_rune 0x1F7E7 @ '' HIGH''
      else if s = SeverityMedium then encode_rune 0x1F7E8 @ '' MEDIUM''
      else if s = SeverityLow then encode_rune 0x1F7E6 @ '' LOW''
      else encode_rune 0x2B1C @ '' INFO'')"

definition productName :: "string \<Rightarrow> string" where
  "productName mod_id = (if mod_id = ''certwatch'' then ''CertLight'' else mod_id)"

definition opened_entry :: "finding \<Rightarrow> string" where
  "opened_entry f =
     [newline] @ severityBadge (fSeverity f) @ '' '' @ fTarget f @ [newline] @ ''  '' @ fTitle f
     @ [newline] @ ''  '' @ right_arrow @ '' '' @ fRemediation f @ [newline]"

definition resolved_entry :: "finding \<Rightarrow> string" where
  "resolved_entry f = ''  '' @ bullet @ '' '' @ fTarget f @ '' '' @ em_dash @ '' '' @ fTitle f @ [newline]"

definition opened_block :: "digest \<Rightarrow> string" where
  "opened_block d =
     (if length (dgOpened d) > 0
      then productName (dgModule d) @ '' '' @ em_dash @ '' '' @ itoa (int (length (dgOpened d)))
        @ '' new finding(s)'' @ [newline] @ concat (map opened_entry (dgOpened d))
      else [])"

definition resolved_block :: "digest \<Rightarrow> string" where
  "resolved_block d =
     check_mark @ '' '' @ itoa (int (length (dgResolved d))) @ '' finding(s) resolved'' @ [newline]
     @ concat (map resolved_entry (dgResolved d))"

definition FormatText :: "digest \<Rightarrow> string" where
  "FormatText d =
     (let b = opened_block d;
          b = (if length (dgResolved d) > 0
               then b @ (if length b > 0 then [newline] else []) @ resolved_block d
               else b)
      in trim_newlines b)"

subsection \<open>Syslog frames\<close>

record syslog_channel =
  syAddr :: string
  syNetwork :: string
  syHostname :: string
  syTag :: string
  syFacility :: int

record host_env =
  osHostname :: "string option"
  osPid :: int
  osNow :: gtime
  osZone :: "gtime \<Rightarrow> int"

definition statusWord :: "bool \<Rightarrow> string" where
  "statusWord resolved = (if resolved then ''resolved'' else ''open'')"

fun evidenceIP_keys :: "string list \<Rightarrow> evidence \<Rightarrow> string" where
  "evidenceIP_keys [] ev = []"
| "evidenceIP_keys (key # keys) ev =
     (case map_of (case ev of None \<Rightarrow> [] | Some kvs \<Rightarrow> kvs) key of
        Some (GStr s) \<Rightarrow>
          (if ParseIP_ok (trim_space s) then trim_space s else evidenceIP_keys keys ev)
      | _ \<Rightarrow> evidenceIP_keys keys ev)"

definition evidenceIP :: "evidence \<Rightarrow> string" where
  "evidenceIP ev =
     evidenceIP_keys [''source_ip'', ''src_ip'', ''src'', ''actor'', ''client_ip'', ''ip''] ev"

definition syslogSeverity :: "string \<Rightarrow> int" where
  "syslogSeverity sev =
     (let w = map_runes lower_rune sev
      in if w = ''critical'' then 2
         else if w = ''high'' then 3
         else if w = ''medium'' then 4
         else if w = ''low'' then 5
         else 6)"

definition sanitize_rune :: "rune \<Rightarrow> rune" where
  "sanitize_rune r = (if r = 10 \<or> r = 13 \<or> r = 0 then 32 else r)"

definition sanitizeSyslog :: "string \<Rightarrow> string" where
  "sanitizeSyslog s =
     (let s = map_runes sanitize_rune s; limit = 1600
      in if length s > limit then take limit s @ ellipsis else s)"

definition syslogMessage :: "string \<Rightarrow> finding \<Rightarrow> bool \<Rightarrow> string" where
  "syslogMessage mod_id f resolved =
     (let ip = evidenceIP (fEvidence f)
      in sanitizeSyslog
        ((if resolved then ''RESOLVED: '' else []) @ fTitle f
         @ '' | product='' @ mod_id @ '' severity='' @ fSeverity f @ '' check='' @ fCheck f
         @ '' target='' @ fTarget f @ '' status='' @ statusWord resolved
         @ (if ip \<noteq> [] then '' src='' @ ip else [])))"

definition frame :: "int \<Rightarrow> string \<Rightarrow> string \<Rightarrow> string \<Rightarrow> int \<Rightarrow> string \<Rightarrow> string" where
  "frame pri ts host tag pid msg =
     ''<'' @ itoa pri @ ''>'' @ ts @ '' '' @ host @ '' '' @ tag @ ''['' @ itoa pid @ '']: '' @ msg
     @ [newline]"

definition syslog_host :: "host_env \<Rightarrow> syslog_channel \<Rightarrow> string" where
  "syslog_host env c =
     (if syHostname c = [] then
        (case osHostname env of Some h \<Rightarrow> if h \<noteq> [] then h else ''-'' | None \<Rightarrow> ''-'')
      else syHostname c)"

definition syslog_facility :: "syslog_channel \<Rightarrow> int" where
  "syslog_facility c = (if syFacility c = 0 then 16 else syFacility c)"

definition lines :: "host_env \<Rightarrow> syslog_channel \<Rightarrow> digest \<Rightarrow> string list" where
  "lines env c d =
     (let host = syslog_host env c;
          tag = (if syTag c = [] then dgModule d else syTag c);
          facility = syslog_facility c;
          stamp = (if dgAt d = zero_time then osNow env else dgAt d);
          ts = format_Stamp (local_time (osZone env) stamp);
          pid = osPid env
      in map (\<lambda>f. frame (facility * 8 + syslogSeverity (fSeverity f)) ts host tag pid
           (syslogMessage (dgModule d) f False)) (dgOpened d)
       @ map (\<lambda>f. frame (facility * 8 + 5) ts host tag pid
           (syslogMessage (dgModule d) f True)) (dgResolved d))"

subsection \<open>Lemmas\<close>

lemma sanitized_chars:
  assumes "c \<in> set (sanitizeSyslog s)"
  shows "byte c \<noteq> 10 \<and> byte c \<noteq> 13 \<and> byte c \<noteq> 0"
proof -
  have "byte c < 128 \<longrightarrow> byte c \<in> set (map sanitize_rune (runes s)) \<or> byte c = 0x2026"
    using assms of_runes_ascii [of c "map sanitize_rune (runes s)"] encode_rune_ascii [of c "0x2026"]
    by (auto simp: sanitizeSyslog_def Let_def map_runes_def ellipsis_def split: if_splits
        dest: in_set_takeD)
  then show ?thesis by (auto simp: sanitize_rune_def)
qed

lemma length_ellipsis: "length ellipsis = 3"
  by (simp add: ellipsis_def encode_rune_def encode_scalar_def scalar_def)

lemma sanitized_length: "length (sanitizeSyslog s) \<le> 1603"
  by (simp add: sanitizeSyslog_def Let_def length_ellipsis)

lemma evidenceIP_ok: "evidenceIP ev = [] \<or> ParseIP_ok (evidenceIP ev)"
proof -
  have "evidenceIP_keys ks ev = [] \<or> ParseIP_ok (evidenceIP_keys ks ev)" for ks
    by (induction ks ev rule: evidenceIP_keys.induct) (auto split: option.splits goval.splits)
  then show ?thesis unfolding evidenceIP_def by blast
qed

lemma syslogSeverity_range: "2 \<le> syslogSeverity s \<and> syslogSeverity s \<le> 6"
  by (simp add: syslogSeverity_def Let_def)

lemma contains_trans: "contains t p \<Longrightarrow> \<exists>a b. s = a @ t @ b \<Longrightarrow> contains s p"
  unfolding contains_iff by (metis append.assoc)

lemma contains_concat: "x \<in> set xs \<Longrightarrow> contains (f x) p \<Longrightarrow> contains (concat (map f xs)) p"
proof -
  assume "x \<in> set xs" "contains (f x) p"
  then obtain ys zs where "xs = ys @ x # zs" by (meson split_list)
  then have "concat (map f xs) = concat (map f ys) @ f x @ concat (map f zs)" by simp
  with \<open>contains (f x) p\<close> show ?thesis by (blast intro: contains_trans)
qed

text \<open>Trimming newlines at the end does not lose a part that does not end with one.\<close>

lemma contains_trim:
  assumes "contains s p" "p \<noteq> []" "last p \<noteq> newline"
  shows "contains (trim_newlines s) p"
proof -
  obtain a b where s: "s = a @ p @ b" using assms(1) by (auto simp: contains_iff)
  have "a @ p \<noteq> []" "last (a @ p) \<noteq> newline" using assms(2,3) by simp_all
  from trim_newlines_last [OF this, of b] s show ?thesis
    by (auto simp: contains_iff)
qed

lemma contains_append1: "contains s p \<Longrightarrow> contains (s @ t) p"
  unfolding contains_iff by (metis append.assoc)

lemma contains_append2: "contains t p \<Longrightarrow> contains (s @ t) p"
  unfolding contains_iff by (metis append.assoc)

lemma FormatText_contains:
  assumes "p \<noteq> []" "last p \<noteq> newline"
  shows "f \<in> set (dgOpened d) \<Longrightarrow> contains (opened_entry f) p \<Longrightarrow> contains (FormatText d) p"
    "f \<in> set (dgResolved d) \<Longrightarrow> contains (resolved_entry f) p \<Longrightarrow> contains (FormatText d) p"
proof -
  assume f: "f \<in> set (dgOpened d)" "contains (opened_entry f) p"
  then have "contains (concat (map opened_entry (dgOpened d))) p" by (rule contains_concat)
  moreover have "length (dgOpened d) > 0" using f(1) by auto
  ultimately have "contains (opened_block d) p"
    unfolding opened_block_def by (simp only: if_True) (intro contains_append2)
  then show "contains (FormatText d) p"
    unfolding FormatText_def Let_def
    by (intro contains_trim [OF _ assms]) (simp add: contains_append1)
next
  assume f: "f \<in> set (dgResolved d)" "contains (resolved_entry f) p"
  then have "contains (concat (map resolved_entry (dgResolved d))) p" by (rule contains_concat)
  then have "contains (resolved_block d) p"
    unfolding resolved_block_def by (intro contains_append2)
  moreover have "length (dgResolved d) > 0" using f(1) by auto
  ultimately show "contains (FormatText d) p"
    unfolding FormatText_def Let_def
    by (intro contains_trim [OF _ assms]) (simp add: contains_append2)
qed

subsection \<open>Properties\<close>

text \<open>
  Every opened finding of a digest appears in its text with its badge, target and title and
  an arrow to the remediation, and every resolved one with its target, whatever newlines the last
  entry ends with.
\<close>

theorem FormatText_mentions_all:
  assumes "f \<in> set (dgOpened d)" and "g \<in> set (dgResolved d)"
  shows "contains (FormatText d) (severityBadge (fSeverity f) @ '' '' @ fTarget f @ [newline] @ ''  ''
      @ fTitle f @ [newline] @ ''  '' @ right_arrow @ '' '') \<and>
    contains (FormatText d) (bullet @ '' '' @ fTarget g @ '' '' @ em_dash @ '' '')"
proof
  have last: "last (xs @ '' '') \<noteq> newline" for xs by (simp add: newline_def)
  let ?p = "severityBadge (fSeverity f) @ '' '' @ fTarget f @ [newline] @ ''  ''
      @ fTitle f @ [newline] @ ''  '' @ right_arrow @ '' ''"
  have "opened_entry f = [newline] @ ?p @ fRemediation f @ [newline]"
    by (simp add: opened_entry_def)
  then have "contains (opened_entry f) ?p" unfolding contains_iff by blast
  moreover have "?p \<noteq> []" "last ?p \<noteq> newline"
    using last [of "severityBadge (fSeverity f) @ '' '' @ fTarget f @ [newline] @ ''  ''
      @ fTitle f @ [newline] @ ''  '' @ right_arrow"] by simp_all
  ultimately show "contains (FormatText d) ?p" using FormatText_contains(1) assms(1) by blast
  let ?q = "bullet @ '' '' @ fTarget g @ '' '' @ em_dash @ '' ''"
  have "resolved_entry g = ''  '' @ ?q @ fTitle g @ [newline]" by (simp add: resolved_entry_def)
  then have "contains (resolved_entry g) ?q" unfolding contains_iff by blast
  moreover have "?q \<noteq> []" "last ?q \<noteq> newline"
    using last [of "bullet @ '' '' @ fTarget g @ '' '' @ em_dash"] by simp_all
  ultimately show "contains (FormatText d) ?q" using FormatText_contains(2) assms(2) by blast
qed

definition sample_digest :: digest where
  "sample_digest = \<lparr>dgModule = ''certwatch'', dgOpened = [eFinding sample_event],
     dgResolved = [eFinding sample_event], dgAt = 5\<rparr>"

theorem FormatText_mentions_all_witness:
  "contains (FormatText sample_digest) (bullet @ '' '' @ ''a'' @ '' '' @ em_dash @ '' '')"
  using FormatText_mentions_all [of "eFinding sample_event" sample_digest "eFinding sample_event"]
  by (simp add: sample_digest_def) (simp add: sample_event_def)


definition sample_syslog :: syslog_channel where
  "sample_syslog = \<lparr>syAddr = ''l:514'', syNetwork = [], syHostname = [], syTag = [], syFacility = 0\<rparr>"

definition sample_env :: host_env where
  "sample_env = \<lparr>osHostname = None, osPid = 7, osNow = 9, osZone = (\<lambda>_. 25200)\<rparr>"


end
