(* ===== verification/Store_Interface.thy ===== *)
theory Store_Interface
  imports Core_Finding
begin

text \<open>
  \<open>store/store.go\<close> and \<open>store/targets.go\<close>: the persisted record and the \<open>Store\<close> interface.
  A Go interface value is a record of its methods over a state type \<open>'s\<close>; every method
  returns the state it leaves. The locale \<open>record_store\<close> is the contract the reconcile engine
  relies on: a store is seen as a map from (module, fingerprint) to records, reads leave it
  alone, \<open>ListByTarget\<close> returns the records of one target in any order, and an \<open>Upsert\<close>
  that keeps a record's identity columns puts it under its key. A store may normalise what it
  keeps (\<open>canon\<close>), but only a record's evidence, and not again what it returned. \<open>readable_store\<close>
  adds the reading methods of the dashboard, \<open>target_store\<close> is the contract of the saved targets, and
  \<open>app_store\<close> is one database that serves both.
\<close>

subsection \<open>Records\<close>

text \<open>Go embeds \<open>core.Finding\<close> in \<open>Record\<close>: the record type extends the finding's.\<close>

record srecord = finding +
  rAbsentStreak :: int

text \<open>The embedded \<open>r.Finding\<close>, and \<open>Record{Finding: f}\<close>.\<close>

definition finding_of :: "srecord \<Rightarrow> finding" where
  "finding_of r = finding.truncate r"

definition new_record :: "finding \<Rightarrow> srecord" where
  "new_record f = finding.extend f (srecord.fields 0)"

lemma finding_of_simps [simp]:
  "fFingerprint (finding_of r) = fFingerprint r" "fTarget (finding_of r) = fTarget r"
  "fCheck (finding_of r) = fCheck r" "fTitle (finding_of r) = fTitle r"
  "fSeverity (finding_of r) = fSeverity r" "fRemediation (finding_of r) = fRemediation r"
  "fEvidence (finding_of r) = fEvidence r" "fID (finding_of r) = fID r"
  "fModule (finding_of r) = fModule r" "fStatus (finding_of r) = fStatus r"
  "fGroupID (finding_of r) = fGroupID r" "fFirstSeen (finding_of r) = fFirstSeen r"
  "fLastSeen (finding_of r) = fLastSeen r" "fResolvedAt (finding_of r) = fResolvedAt r"
  by (simp_all add: finding_of_def finding.truncate_def)

lemma new_record_simps [simp]:
  "fFingerprint (new_record f) = fFingerprint f" "fTarget (new_record f) = fTarget f"
  "fCheck (new_record f) = fCheck f" "fTitle (new_record f) = fTitle f"
  "fSeverity (new_record f) = fSeverity f" "fRemediation (new_record f) = fRemediation f"
  "fEvidence (new_record f) = fEvidence f" "fID (new_record f) = fID f"
  "fModule (new_record f) = fModule f" "fStatus (new_record f) = fStatus f"
  "fGroupID (new_record f) = fGroupID f" "fFirstSeen (new_record f) = fFirstSeen f"
  "fLastSeen (new_record f) = fLastSeen f" "fResolvedAt (new_record f) = fResolvedAt f"
  "rAbsentStreak (new_record f) = 0"
  by (simp_all add: new_record_def finding.extend_def srecord.fields_def)

subsection \<open>The Store interface\<close>

record 's store_ops =
  sListByTarget :: "string \<Rightarrow> string \<Rightarrow> 's \<Rightarrow> (gerror + srecord list) \<times> 's"
  sUpsert :: "srecord \<Rightarrow> 's \<Rightarrow> gerror option \<times> 's"
  sGet :: "string \<Rightarrow> string \<Rightarrow> 's \<Rightarrow> (gerror + srecord option) \<times> 's"
  sListOpen :: "string \<Rightarrow> 's \<Rightarrow> (gerror + srecord list) \<times> 's"
  sListAll :: "string \<Rightarrow> 's \<Rightarrow> (gerror + srecord list) \<times> 's"

type_synonym store_view = "string \<times> string \<Rightarrow> srecord option"

definition rkey :: "srecord \<Rightarrow> string \<times> string" where
  "rkey r = (fModule r, fFingerprint r)"

text \<open>The columns that no update of an existing record may change.\<close>

definition same_identity :: "srecord \<Rightarrow> srecord \<Rightarrow> bool" where
  "same_identity r r' \<longleftrightarrow> fID r = fID r' \<and> fTarget r = fTarget r' \<and> fCheck r = fCheck r'
     \<and> fFirstSeen r = fFirstSeen r'"

text \<open>
  An upsert the contract covers: of a record that is new under its key, or that keeps the
  identity columns of the record already there.
\<close>

definition identity_kept :: "store_view \<Rightarrow> srecord \<Rightarrow> bool" where
  "identity_kept v r \<longleftrightarrow> (\<forall>old. v (rkey r) = Some old \<longrightarrow> same_identity old r)"

locale record_store =
  fixes ops :: "'s store_ops"
    and view :: "'s \<Rightarrow> store_view"
    and invar :: "'s \<Rightarrow> bool"
    and canon :: "srecord \<Rightarrow> srecord"
    and module_ok :: "string \<Rightarrow> bool"
  assumes view_key: "invar s \<Longrightarrow> view s (m, fp) = Some r \<Longrightarrow> fModule r = m \<and> fFingerprint r = fp"
    and list_keeps: "invar s \<Longrightarrow> sListByTarget ops m t s = (res, s') \<Longrightarrow>
      invar s' \<and> view s' = view s"
    and list_set: "invar s \<Longrightarrow> sListByTarget ops m t s = (Inr rs, s') \<Longrightarrow>
      set rs = {r. \<exists>fp. view s (m, fp) = Some r \<and> fTarget r = t}"
    and list_distinct: "invar s \<Longrightarrow> sListByTarget ops m t s = (Inr rs, s') \<Longrightarrow>
      distinct (map fFingerprint rs)"
    and upsert_invar: "invar s \<Longrightarrow> module_ok (fModule r) \<Longrightarrow> sUpsert ops r s = (err, s') \<Longrightarrow> invar s'"
    and upsert_fails: "invar s \<Longrightarrow> sUpsert ops r s = (Some e, s') \<Longrightarrow> view s' = view s"
    and upsert_ok: "invar s \<Longrightarrow> module_ok (fModule r) \<Longrightarrow> identity_kept (view s) r \<Longrightarrow>
      sUpsert ops r s = (None, s') \<Longrightarrow> view s' = (view s)(rkey r \<mapsto> canon r)"
    and norm_fields: "fFingerprint (canon r) = fFingerprint r" "fTarget (canon r) = fTarget r"
      "fCheck (canon r) = fCheck r" "fTitle (canon r) = fTitle r"
      "fSeverity (canon r) = fSeverity r" "fRemediation (canon r) = fRemediation r"
      "fID (canon r) = fID r" "fModule (canon r) = fModule r" "fStatus (canon r) = fStatus r"
      "fGroupID (canon r) = fGroupID r" "fFirstSeen (canon r) = fFirstSeen r"
      "fLastSeen (canon r) = fLastSeen r" "fResolvedAt (canon r) = fResolvedAt r"
      "rAbsentStreak (canon r) = rAbsentStreak r"
    and canon_kept: "invar s \<Longrightarrow> view s k = Some r \<Longrightarrow> fEvidence r' = fEvidence r \<Longrightarrow> canon r' = r'"
begin

lemma rkey_norm: "rkey (canon r) = rkey r"
  by (simp add: rkey_def norm_fields)

lemma view_rkey: "invar s \<Longrightarrow> view s k = Some r \<Longrightarrow> rkey r = k"
  by (cases k) (auto simp: rkey_def dest: view_key)

lemma list_mem:
  "invar s \<Longrightarrow> sListByTarget ops m t s = (Inr rs, s') \<Longrightarrow> r \<in> set rs \<longleftrightarrow>
     view s (m, fFingerprint r) = Some r \<and> fTarget r = t"
  by (auto simp: list_set dest: view_key)

text \<open>A list of a store with distinct fingerprints, indexed by them, is the view at its module.\<close>

lemma list_lookup:
  assumes "invar s" "sListByTarget ops m t s = (Inr rs, s')"
  shows "map_of (map (\<lambda>r. (fFingerprint r, r)) rs) fp =
    (case view s (m, fp) of None \<Rightarrow> None | Some r \<Rightarrow> if fTarget r = t then Some r else None)"
proof -
  have d: "distinct (map fst (map (\<lambda>r. (fFingerprint r, r)) rs))"
    using list_distinct [OF assms] by (simp add: comp_def)
  show ?thesis
  proof (rule option_eqI)
    fix r
    have "map_of (map (\<lambda>r. (fFingerprint r, r)) rs) fp = Some r \<longleftrightarrow>
        r \<in> set rs \<and> fFingerprint r = fp"
      unfolding map_of_eq_Some_iff [OF d] by auto
    also have "\<dots> \<longleftrightarrow> view s (m, fp) = Some r \<and> fTarget r = t"
      using list_mem [OF assms] view_key [OF assms(1)] by metis
    finally show "map_of (map (\<lambda>r. (fFingerprint r, r)) rs) fp = Some r \<longleftrightarrow>
        (case view s (m, fp) of None \<Rightarrow> None | Some r \<Rightarrow> if fTarget r = t then Some r else None) = Some r"
      by (auto split: option.splits)
  qed
qed

end

text \<open>What the dashboard relies on besides: the reads of one record, of the open ones and of all.\<close>

locale readable_store = record_store +
  assumes get_ok: "invar s \<Longrightarrow> module_ok m \<Longrightarrow> sGet ops m fp s = (res, s') \<Longrightarrow>
      invar s' \<and> view s' = view s \<and> (\<forall>x. res = Inr x \<longrightarrow> x = view s (m, fp))"
    and open_ok: "invar s \<Longrightarrow> sListOpen ops m s = (lst, s') \<Longrightarrow> invar s' \<and> view s' = view s \<and>
      (\<forall>rs. lst = Inr rs \<longrightarrow> distinct (map fFingerprint rs) \<and>
         set rs = {r. \<exists>fp. view s (m, fp) = Some r \<and> fStatus r = StatusOpen})"
    and all_ok: "invar s \<Longrightarrow> sListAll ops m s = (lst, s') \<Longrightarrow> invar s' \<and> view s' = view s \<and>
      (\<forall>rs. lst = Inr rs \<longrightarrow> distinct (map fFingerprint rs) \<and>
         set rs = {r. \<exists>fp. view s (m, fp) = Some r})"
begin

lemma open_from_all:
  "invar s \<Longrightarrow> sListOpen ops m s = (Inr os, s') \<Longrightarrow> invar t \<Longrightarrow> view t = view s \<Longrightarrow>
     sListAll ops m t = (Inr rs, t') \<Longrightarrow> set os = {r \<in> set rs. fStatus r = StatusOpen}"
  using open_ok [of s m "Inr os" s'] all_ok [of t m "Inr rs" t'] by auto

end

subsection \<open>The TargetStore interface\<close>

record 's target_ops =
  tsSave :: "string \<Rightarrow> string \<Rightarrow> string \<Rightarrow> 's \<Rightarrow> gerror option \<times> 's"
  tsDelete :: "string \<Rightarrow> string \<Rightarrow> 's \<Rightarrow> (gerror option \<times> 's) outcome"
  tsList :: "string \<Rightarrow> 's \<Rightarrow> (gerror + string list) \<times> 's"

text \<open>
  The saved targets of a module are a list of pairs (raw, canonical) with distinct canonical
  forms, in insertion order.
\<close>

definition save_pair :: "string \<Rightarrow> string \<Rightarrow> (string \<times> string) list \<Rightarrow> (string \<times> string) list" where
  "save_pair raw canonical ts =
     (if canonical \<in> snd ` set ts then ts else ts @ [(raw, canonical)])"

locale target_store =
  fixes tops :: "'s target_ops"
    and saved :: "'s \<Rightarrow> string \<Rightarrow> (string \<times> string) list"
  assumes save_ok: "tsSave tops m raw c s = (None, s') \<Longrightarrow>
      saved s' = (saved s)(m := save_pair raw c (saved s m))"
    and delete_ok: "tsDelete tops m c s = Done (None, s') \<Longrightarrow>
      saved s' = (saved s)(m := filter (\<lambda>p. snd p \<noteq> c) (saved s m))"
    and list_ok: "tsList tops m s = (Inr rs, s') \<Longrightarrow> saved s' = saved s \<and> rs = map fst (saved s m)"
begin

lemma save_distinct:
  "tsSave tops m raw c s = (None, s') \<Longrightarrow> distinct (map snd (saved s m)) \<Longrightarrow>
     distinct (map snd (saved s' m))"
  by (auto simp: save_ok save_pair_def)

lemma save_idempotent:
  "tsSave tops m raw c s = (None, s') \<Longrightarrow> tsSave tops m raw' c s' = (None, s'') \<Longrightarrow>
     saved s'' = saved s'"
  by (auto simp: save_ok save_pair_def fun_upd_idem_iff)

lemma save_then_delete:
  "tsSave tops m raw c s = (None, s') \<Longrightarrow> tsDelete tops m c s' = Done (None, s'') \<Longrightarrow>
     c \<notin> snd ` set (saved s m) \<Longrightarrow> saved s'' = saved s"
  by (auto simp: save_ok delete_ok save_pair_def fun_upd_idem_iff)

end

subsection \<open>The whole store\<close>

text \<open>
  The store behind the dashboard is both interfaces over one state. Their operations leave each
  other's part alone, and in a \<open>reliable\<close> state no operation on the saved targets fails.
\<close>

locale app_store = readable_store ops view invar canon module_ok + target_store tops saved
  for ops :: "'s store_ops" and view :: "'s \<Rightarrow> store_view" and invar :: "'s \<Rightarrow> bool"
    and canon :: "srecord \<Rightarrow> srecord" and module_ok :: "string \<Rightarrow> bool"
    and tops :: "'s target_ops" and saved :: "'s \<Rightarrow> string \<Rightarrow> (string \<times> string) list" +
  fixes reliable :: "'s \<Rightarrow> bool"
  assumes save_records: "tsSave tops m raw c s = (e, s') \<Longrightarrow> view s' = view s \<and> (invar s' \<longleftrightarrow> invar s)"
    and delete_records: "tsDelete tops m c s = Done (e, s') \<Longrightarrow> view s' = view s \<and> (invar s' \<longleftrightarrow> invar s)"
    and get_saved: "sGet ops m fp s = (res, s') \<Longrightarrow> saved s' = saved s \<and> (reliable s \<longrightarrow> reliable s')"
    and lists_saved: "sListOpen ops m s = (lst, s') \<or> sListAll ops m s = (lst, s') \<Longrightarrow>
      saved s' = saved s \<and> (reliable s \<longrightarrow> reliable s')"
    and by_target_saved: "sListByTarget ops m t s = (lst, s') \<Longrightarrow>
      saved s' = saved s \<and> (reliable s \<longrightarrow> reliable s')"
    and upsert_saved: "sUpsert ops r s = (e, s') \<Longrightarrow> saved s' = saved s \<and> (reliable s \<longrightarrow> reliable s')"
    and save_reliable: "reliable s \<Longrightarrow> tsSave tops m raw c s = (e, s') \<Longrightarrow> e = None \<and> reliable s'"
    and delete_reliable: "reliable s \<Longrightarrow> \<exists>s'. tsDelete tops m c s = Done (None, s') \<and> reliable s'"
    and list_reliable: "reliable s \<Longrightarrow> tsList tops m s = (names, s') \<Longrightarrow> (\<exists>raws. names = Inr raws) \<and> reliable s'"

end
