(* ===== verification/Store_Memory.thy ===== *)
theory Store_Memory
  imports Store_Interface
begin

text \<open>
  \<open>store/memory.go\<close>: the in-memory store and its target list. \<open>msRecs\<close> is the Go map of
  records in the order one iteration visits it; \<open>msTargets\<close> is \<open>None\<close> for the nil map a new
  store has. Each method holds the store's mutex for its whole body, so it is one step. The
  interpretations show that both interfaces' contracts hold, the record store's for module ids
  without the NUL byte that separates the two halves of a key.
\<close>

record mem_store =
  msRecs :: "(string \<times> srecord) list"
  msTargets :: "(string \<times> (string \<times> string) list) list option"

definition NewMemStore :: mem_store where
  "NewMemStore = \<lparr>msRecs = [], msTargets = None\<rparr>"

definition mem_key :: "string \<Rightarrow> string \<Rightarrow> string" where
  "mem_key module fingerprint = module @ CHR 0x00 # fingerprint"

definition mem_ListByTarget ::
    "string \<Rightarrow> string \<Rightarrow> mem_store \<Rightarrow> (gerror + srecord list) \<times> mem_store" where
  "mem_ListByTarget module target m =
     (Inr (filter (\<lambda>r. fModule r = module \<and> fTarget r = target) (map snd (msRecs m))), m)"

definition mem_Upsert :: "srecord \<Rightarrow> mem_store \<Rightarrow> gerror option \<times> mem_store" where
  "mem_Upsert r m =
     (None, m\<lparr>msRecs := AList.update (mem_key (fModule r) (fFingerprint r)) r (msRecs m)\<rparr>)"

definition mem_Get ::
    "string \<Rightarrow> string \<Rightarrow> mem_store \<Rightarrow> (gerror + srecord option) \<times> mem_store" where
  "mem_Get module fingerprint m = (Inr (map_of (msRecs m) (mem_key module fingerprint)), m)"

definition mem_ListOpen :: "string \<Rightarrow> mem_store \<Rightarrow> (gerror + srecord list) \<times> mem_store" where
  "mem_ListOpen module m =
     (Inr (filter (\<lambda>r. fModule r = module \<and> fStatus r = ''open'') (map snd (msRecs m))), m)"

definition mem_ListAll :: "string \<Rightarrow> mem_store \<Rightarrow> (gerror + srecord list) \<times> mem_store" where
  "mem_ListAll module m = (Inr (filter (\<lambda>r. fModule r = module) (map snd (msRecs m))), m)"

definition mem_ops :: "mem_store store_ops" where
  "mem_ops = \<lparr>sListByTarget = mem_ListByTarget, sUpsert = mem_Upsert, sGet = mem_Get,
     sListOpen = mem_ListOpen, sListAll = mem_ListAll\<rparr>"

subsection \<open>The record store contract\<close>

definition no_nul :: "string \<Rightarrow> bool" where
  "no_nul s \<longleftrightarrow> CHR 0x00 \<notin> set s"

definition mem_invar :: "mem_store \<Rightarrow> bool" where
  "mem_invar m \<longleftrightarrow> distinct (map fst (msRecs m)) \<and>
     (\<forall>(k, r) \<in> set (msRecs m). k = mem_key (fModule r) (fFingerprint r) \<and> no_nul (fModule r))"

definition mem_view :: "mem_store \<Rightarrow> store_view" where
  "mem_view m k =
     (case map_of (msRecs m) (mem_key (fst k) (snd k)) of
        None \<Rightarrow> None
      | Some r \<Rightarrow> if rkey r = k then Some r else None)"

lemma mem_key_inj:
  assumes "no_nul m" "no_nul m'" "mem_key m fp = mem_key m' fp'"
  shows "m = m' \<and> fp = fp'"
  using assms
proof (induction m arbitrary: m')
  case Nil
  then show ?case by (cases m') (auto simp: mem_key_def no_nul_def)
next
  case (Cons c m)
  then show ?case by (cases m') (auto simp: mem_key_def no_nul_def)
qed

lemma mem_invar_new [simp]: "mem_invar NewMemStore"
  by (simp add: mem_invar_def NewMemStore_def)

lemma mem_view_new [simp]: "mem_view NewMemStore = Map.empty"
  by (rule ext) (simp add: mem_view_def NewMemStore_def)

lemma mem_view_Some:
  assumes "mem_invar m"
  shows "mem_view m k = Some r \<longleftrightarrow> r \<in> snd ` set (msRecs m) \<and> rkey r = k"
proof -
  have d: "distinct (map fst (msRecs m))" using assms by (simp add: mem_invar_def)
  have "mem_view m k = Some r \<longleftrightarrow>
      (mem_key (fst k) (snd k), r) \<in> set (msRecs m) \<and> rkey r = k"
    unfolding mem_view_def map_of_eq_Some_iff [OF d, symmetric] by (auto split: option.splits)
  also have "\<dots> \<longleftrightarrow> r \<in> snd ` set (msRecs m) \<and> rkey r = k"
    using assms by (force simp: mem_invar_def rkey_def)
  finally show ?thesis .
qed

lemma mem_list_distinct:
  assumes "mem_invar m"
  shows "distinct (map fFingerprint (filter (\<lambda>r. fModule r = md \<and> P r) (map snd (msRecs m))))"
proof -
  have "distinct (map fst (filter (\<lambda>p. fModule (snd p) = md \<and> P (snd p)) (msRecs m)))"
    using assms by (auto simp: mem_invar_def distinct_map_filter)
  moreover have "map fst (filter (\<lambda>p. fModule (snd p) = md \<and> P (snd p)) (msRecs m)) =
      map (mem_key md) (map fFingerprint (filter (\<lambda>r. fModule r = md \<and> P r) (map snd (msRecs m))))"
    using assms by (force simp: mem_invar_def filter_map comp_def)
  ultimately show ?thesis by (simp only: distinct_map)
qed

lemma mem_upsert_invar:
  assumes "mem_invar m" "no_nul (fModule r)"
  shows "mem_invar (snd (mem_Upsert r m))"
  using assms by (auto simp: mem_invar_def mem_Upsert_def distinct_update dest!: set_updateD)

lemma mem_upsert_view:
  assumes "mem_invar m" "no_nul (fModule r)"
  shows "mem_view (snd (mem_Upsert r m)) = (mem_view m)(rkey r \<mapsto> r)"
proof
  fix k
  have "map_of (msRecs (snd (mem_Upsert r m))) =
      (map_of (msRecs m))(mem_key (fModule r) (fFingerprint r) \<mapsto> r)"
    by (simp add: mem_Upsert_def update_conv')
  moreover have "rkey r' = k \<Longrightarrow> k \<noteq> rkey r \<Longrightarrow> no_nul (fModule r') \<Longrightarrow>
      mem_key (fst k) (snd k) \<noteq> mem_key (fModule r) (fFingerprint r)" for r'
    using mem_key_inj [OF _ assms(2)] by (cases k) (auto simp: rkey_def)
  ultimately show "mem_view (snd (mem_Upsert r m)) k = ((mem_view m)(rkey r \<mapsto> r)) k"
    using assms(1)
    by (auto simp: mem_view_def rkey_def mem_invar_def split: option.splits dest!: map_of_SomeD)
qed

interpretation mem: record_store mem_ops mem_view mem_invar "\<lambda>r. r" no_nul
proof unfold_locales
  fix m :: mem_store and md fp r
  assume "mem_invar m" "mem_view m (md, fp) = Some r"
  then show "fModule r = md \<and> fFingerprint r = fp" by (simp add: mem_view_Some rkey_def)
next
  fix m m' :: mem_store and md t rs
  assume a: "mem_invar m" "sListByTarget mem_ops md t m = (Inr rs, m')"
  then have rs: "rs = filter (\<lambda>r. fModule r = md \<and> fTarget r = t) (map snd (msRecs m))"
    by (auto simp add: mem_ops_def mem_ListByTarget_def)
  then show "set rs = {r. \<exists>fp. mem_view m (md, fp) = Some r \<and> fTarget r = t}"
    using a(1) by (auto simp: mem_view_Some rkey_def)
  show "distinct (map fFingerprint rs)" unfolding rs by (rule mem_list_distinct [OF a(1)])
next
  fix m m' :: mem_store and r err
  assume "mem_invar m" "no_nul (fModule r)" "sUpsert mem_ops r m = (err, m')"
  then show "mem_invar m'" using mem_upsert_invar [of m r] by (simp add: mem_ops_def)
next
  fix m m' :: mem_store and r
  assume "mem_invar m" "no_nul (fModule r)" "sUpsert mem_ops r m = (None, m')"
  then show "mem_view m' = (mem_view m)(rkey r \<mapsto> r)"
    using mem_upsert_view [of m r] by (simp add: mem_ops_def)
qed (auto simp: mem_ops_def mem_ListByTarget_def mem_Upsert_def)

interpretation memr: readable_store mem_ops mem_view mem_invar "\<lambda>r. r" no_nul
proof unfold_locales
  fix m m' :: mem_store and md fp res
  assume inv: "mem_invar m" "no_nul md" and get: "sGet mem_ops md fp m = (res, m')"
  have "map_of (msRecs m) (mem_key md fp) = Some r \<Longrightarrow> rkey r = (md, fp)" for r
    using inv mem_key_inj [of md "fModule r" fp "fFingerprint r"]
    by (fastforce simp: mem_invar_def rkey_def dest: map_of_SomeD)
  then show "mem_invar m' \<and> mem_view m' = mem_view m \<and> (\<forall>x. res = Inr x \<longrightarrow> x = mem_view m (md, fp))"
    using inv get by (auto simp: mem_ops_def mem_Get_def mem_view_def split: option.split)
next
  fix m m' :: mem_store and md res
  assume a: "mem_invar m" "sListOpen mem_ops md m = (res, m')"
  then have r: "m' = m" "res = Inr (filter (\<lambda>r. fModule r = md \<and> fStatus r = StatusOpen) (map snd (msRecs m)))"
    by (auto simp: mem_ops_def mem_ListOpen_def StatusOpen_def)
  have "set (filter (\<lambda>r. fModule r = md \<and> fStatus r = StatusOpen) (map snd (msRecs m))) =
      {r. \<exists>fp. mem_view m (md, fp) = Some r \<and> fStatus r = StatusOpen}"
    using a(1) by (auto simp: mem_view_Some rkey_def)
  then show "mem_invar m' \<and> mem_view m' = mem_view m \<and> (\<forall>rs. res = Inr rs \<longrightarrow> distinct (map fFingerprint rs) \<and>
      set rs = {r. \<exists>fp. mem_view m (md, fp) = Some r \<and> fStatus r = StatusOpen})"
    using a(1) mem_list_distinct [OF a(1)] unfolding r by simp
next
  fix m m' :: mem_store and md res
  assume a: "mem_invar m" "sListAll mem_ops md m = (res, m')"
  then have r: "m' = m" "res = Inr (filter (\<lambda>r. fModule r = md) (map snd (msRecs m)))"
    by (auto simp: mem_ops_def mem_ListAll_def)
  have "set (filter (\<lambda>r. fModule r = md) (map snd (msRecs m))) = {r. \<exists>fp. mem_view m (md, fp) = Some r}"
    using a(1) by (auto simp: mem_view_Some rkey_def)
  moreover have "distinct (map fFingerprint (filter (\<lambda>r. fModule r = md) (map snd (msRecs m))))"
    using mem_list_distinct [OF a(1), of md "\<lambda>_. True"] by simp
  ultimately show "mem_invar m' \<and> mem_view m' = mem_view m \<and> (\<forall>rs. res = Inr rs \<longrightarrow>
      distinct (map fFingerprint rs) \<and> set rs = {r. \<exists>fp. mem_view m (md, fp) = Some r})"
    using a(1) unfolding r by simp
qed

subsection \<open>The saved targets\<close>

definition mem_targets :: "string \<Rightarrow> mem_store \<Rightarrow> (string \<times> string) list" where
  "mem_targets module m =
     (case msTargets m of None \<Rightarrow> []
      | Some ts \<Rightarrow> (case map_of ts module of None \<Rightarrow> [] | Some l \<Rightarrow> l))"

definition mem_SaveTarget ::
    "string \<Rightarrow> string \<Rightarrow> string \<Rightarrow> mem_store \<Rightarrow> gerror option \<times> mem_store" where
  "mem_SaveTarget module raw canonical m =
     (let ts = (case msTargets m of None \<Rightarrow> [] | Some ts \<Rightarrow> ts);
          m = m\<lparr>msTargets := Some ts\<rparr>
      in if \<exists>t \<in> set (mem_targets module m). snd t = canonical then (None, m)
         else (None, m\<lparr>msTargets :=
           Some (AList.update module (mem_targets module m @ [(raw, canonical)]) ts)\<rparr>))"

text \<open>Writing an entry of a nil map panics; reading one does not.\<close>

definition mem_DeleteTarget ::
    "string \<Rightarrow> string \<Rightarrow> mem_store \<Rightarrow> (gerror option \<times> mem_store) outcome" where
  "mem_DeleteTarget module canonical m =
     (let out = filter (\<lambda>t. snd t \<noteq> canonical) (mem_targets module m)
      in case msTargets m of
           None \<Rightarrow> Panic ''assignment to entry in nil map''
         | Some ts \<Rightarrow> Done (None, m\<lparr>msTargets := Some (AList.update module out ts)\<rparr>))"

definition mem_ListSavedTargets ::
    "string \<Rightarrow> mem_store \<Rightarrow> (gerror + string list) \<times> mem_store" where
  "mem_ListSavedTargets module m = (Inr (map fst (mem_targets module m)), m)"

definition mem_target_ops :: "mem_store target_ops" where
  "mem_target_ops = \<lparr>tsSave = mem_SaveTarget, tsDelete = mem_DeleteTarget,
     tsList = mem_ListSavedTargets\<rparr>"

interpretation memt: target_store mem_target_ops "\<lambda>m md. mem_targets md m"
  by unfold_locales
    (auto simp: mem_target_ops_def mem_SaveTarget_def mem_DeleteTarget_def mem_ListSavedTargets_def
      mem_targets_def save_pair_def Let_def fun_eq_iff update_conv' mem_snd_image split: option.splits if_splits,
      force)

text \<open>Once a target was saved nothing in memory fails.\<close>

interpretation memapp: app_store mem_ops mem_view mem_invar "\<lambda>r. r" no_nul mem_target_ops
    "\<lambda>m md. mem_targets md m" "\<lambda>m. msTargets m \<noteq> None"
  by unfold_locales
    (auto simp: mem_target_ops_def mem_ops_def mem_SaveTarget_def mem_DeleteTarget_def
      mem_ListSavedTargets_def mem_ListByTarget_def mem_Get_def mem_ListOpen_def mem_ListAll_def mem_Upsert_def mem_view_def
      mem_invar_def mem_targets_def Let_def fun_eq_iff split: option.splits if_splits)

subsection \<open>Properties\<close>

text \<open>
  Deleting a saved target of a module that has none is not an error for the database, but in
  an in-memory store that never saved a target it writes to a nil map and panics; once any target
  was saved it does not.
\<close>

theorem mem_DeleteTarget_panics_iff:
  "(\<exists>e. mem_DeleteTarget module canonical m = Panic e) \<longleftrightarrow> msTargets m = None"
  by (auto simp: mem_DeleteTarget_def Let_def split: option.splits)

end
