(* ===== verification/Go_Json_Stable.thy ===== *)
theory Go_Json_Stable
  imports Go_Json_Roundtrip
begin

text \<open>
  What the decoder returns needs no second trip: a document that was read is no deeper than
  \<open>max_nesting\<close> and its strings are UTF-8, so a map decoded from it can be marshalled, and reading
  that text gives the same map again.
\<close>

lemma repair_of_runes [simp]: "repair (of_runes rs) = of_runes rs"
proof -
  define f where "f = (\<lambda>r. if scalar r then r else RuneError)"
  have "list_all scalar (map f rs)" by (induction rs) (auto simp: f_def scalar_def RuneError_def)
  moreover have "of_runes (map f rs) = of_runes rs"
    by (induction rs) (simp_all add: f_def encode_rune_def scalar_def RuneError_def)
  ultimately show ?thesis by (metis repair_def runes_of_runes)
qed

lemma string_lit_runes: "string_lit s = Some (t, r) \<Longrightarrow> \<exists>rs. t = of_runes rs"
proof (induction s arbitrary: t rule: string_lit.induct)
  case (1 s)
  show ?case
  proof (cases s)
    case Nil
    with "1.prems" show ?thesis by (simp add: string_lit.simps)
  next
    case (Cons c s')
    consider "c = CHR 0x22" | "c \<noteq> CHR 0x22" "c = backslash" | "c \<noteq> CHR 0x22" "c \<noteq> backslash" by blast
    then show ?thesis
    proof cases
      case 1
      with "1.prems" Cons have "t = of_runes []" by (subst (asm) string_lit.simps) simp
      then show ?thesis ..
    next
      case 2
      with "1.prems" Cons obtain ru u t' where u: "unescape s' = Some (ru, u)"
        "string_lit u = Some (t', r)" "t = encode_rune ru @ t'"
        by (subst (asm) string_lit.simps) (auto split: option.splits)
      then obtain rs where "t' = of_runes rs" using "1.IH"(1) [OF Cons 2 u(1) refl] by blast
      then have "t = of_runes (ru # rs)" using u(3) by simp
      then show ?thesis ..
    next
      case 3
      obtain ru w where d: "decode_rune s = (ru, w)" by (cases "decode_rune s")
      with 3 "1.prems" Cons have n: "\<not> byte c < 32"
        and "\<exists>t'. string_lit (drop w s) = Some (t', r) \<and> t = encode_rune ru @ t'"
        by (simp_all add: string_lit.simps [of "c # s'"] split: if_splits) auto
      then obtain t' where t: "string_lit (drop w s) = Some (t', r)" "t = encode_rune ru @ t'" by blast
      then obtain rs where "t' = of_runes rs" using "1.IH"(2) [OF Cons 3 n d [symmetric] refl] by blast
      then have "t = of_runes (ru # rs)" using t(2) by simp
      then show ?thesis ..
    qed
  qed
qed

subsection \<open>Documents\<close>

text \<open>At most so deep, and every string is UTF-8.\<close>

fun sound_json :: "nat \<Rightarrow> json \<Rightarrow> bool" where
  "sound_json n (JStr s _) \<longleftrightarrow> repair s = s"
| "sound_json n (JArr vs) \<longleftrightarrow> 0 < n \<and> (\<forall>v \<in> set vs. sound_json (n - 1) v)"
| "sound_json n (JObj kvs) \<longleftrightarrow> 0 < n \<and> (\<forall>(k, v) \<in> set kvs. repair k = k \<and> sound_json (n - 1) v)"
| "sound_json n _ \<longleftrightarrow> True"

fun sound_frame :: "nat \<Rightarrow> frame \<Rightarrow> bool" where
  "sound_frame n (InArr vs) \<longleftrightarrow> (\<forall>v \<in> set vs. sound_json n v)"
| "sound_frame n (InObj kvs) \<longleftrightarrow> (\<forall>(k, v) \<in> set kvs. repair k = k \<and> sound_json n v)"
| "sound_frame n (InField kvs name) \<longleftrightarrow>
     repair name = name \<and> (\<forall>(k, v) \<in> set kvs. repair k = k \<and> sound_json n v)"

fun sound_stack :: "frame list \<Rightarrow> bool" where
  "sound_stack [] \<longleftrightarrow> True"
| "sound_stack (f # stk) \<longleftrightarrow>
     length stk < max_nesting \<and> sound_frame (max_nesting - Suc (length stk)) f \<and> sound_stack stk"

fun sound_mode :: "mode \<Rightarrow> frame list \<Rightarrow> bool" where
  "sound_mode (After v) stk \<longleftrightarrow> sound_json (max_nesting - length stk) v"
| "sound_mode _ stk \<longleftrightarrow> True"

fun sound_token :: "token \<Rightarrow> bool" where
  "sound_token (Scalar v) \<longleftrightarrow> (\<forall>n. sound_json n v)"
| "sound_token (Punct c) \<longleftrightarrow> True"

lemma next_token_sound:
  assumes "next_token s = Some (k, r)"
  shows "sound_token k"
proof -
  have "repair t = t" if "string_lit u = Some (t, v)" for u t v
    using string_lit_runes [OF that] by auto
  then show ?thesis
    using assms by (auto simp: next_token_def split: list.splits if_splits)
qed

lemma begin_value_sound:
  assumes "begin_value k stk = Some (m, stk')" "sound_token k" "sound_stack stk"
  shows "sound_mode m stk' \<and> sound_stack stk'"
  using assms by (cases k) (auto simp: open_frame_def split: if_splits)

lemma scan_step_sound:
  assumes "scan_step m k stk = Some (m', stk')" "sound_token k" "sound_mode m stk" "sound_stack stk"
  shows "sound_mode m' stk' \<and> sound_stack stk'"
proof (cases m)
  case WantValue
  with assms show ?thesis using begin_value_sound by auto
next
  case WantElem
  with assms obtain vs stk1 where stk: "stk = InArr vs # stk1"
    by (auto split: list.splits frame.splits)
  with WantElem assms begin_value_sound [of k stk m' stk'] show ?thesis
    by (auto simp: Suc_diff_Suc split: if_splits)
next
  case WantKey
  with assms show ?thesis
    by (auto split: token.splits json.splits list.splits frame.splits)
next
  case WantFirstKey
  with assms show ?thesis
    by (auto simp: Suc_diff_Suc split: token.splits json.splits list.splits frame.splits if_splits)
next
  case WantColon
  with assms show ?thesis by (auto split: if_splits)
next
  case (After v)
  then obtain c f stk1 where k: "k = Punct c" and stk: "stk = f # stk1"
    using assms(1) by (auto split: token.splits list.splits)
  show ?thesis
  proof (cases f)
    case (InArr vs)
    with assms After k stk show ?thesis by (auto split: if_splits)
  next
    case (InField kvs name)
    with assms After k stk show ?thesis by (auto split: if_splits)
  qed (use assms After k stk in auto)
qed

lemma scan_sound:
  "scan m stk s = Some (v, r) \<Longrightarrow> sound_mode m stk \<Longrightarrow> sound_stack stk \<Longrightarrow> sound_json max_nesting v"
proof (induction m stk s rule: scan.induct)
  case (1 m stk s)
  show ?case
  proof (cases "final_value m stk")
    case (Some w)
    then have "v = w" "m = After w" "stk = []"
      using "1.prems"(1) by (auto simp: scan.simps [of m stk s] final_value_def split: mode.splits list.splits)
    then show ?thesis using "1.prems"(2) by simp
  next
    case None
    with "1.prems"(1) obtain k r' m' stk' where n: "next_token (skip_space s) = Some (k, r')"
      "scan_step m k stk = Some (m', stk')" "scan m' stk' r' = Some (v, r)"
      by (subst (asm) scan.simps) (auto split: option.splits prod.splits)
    from scan_step_sound [OF n(2) next_token_sound [OF n(1)] "1.prems"(2,3)]
    show ?thesis using "1.IH" [OF None n(1) refl n(2) refl n(3)] by blast
  qed
qed

lemma json_parse_sound: "json_parse s = Some v \<Longrightarrow> sound_json max_nesting v"
  using scan_sound [of WantValue "[]" s v]
  by (auto simp: json_parse_def json_read_def split: option.splits if_splits)

subsection \<open>Values\<close>

lemma generic_members:
  assumes "\<forall>(k, v) \<in> set m. repair k = k \<and> generic v = v" "distinct (map fst m)" "sorted (map fst m)"
  shows "generic (GMap m) = GMap m"
proof -
  have "\<forall>p \<in> set m. repair (fst p) = fst p \<and> generic (snd p) = snd p" using assms(1) by auto
  note ids = map_pairs_id [OF this]
  show ?thesis
    unfolding generic.simps map_prod_id split_def conjunct1 [OF ids]
    by (simp only: sort_key_id_if_sorted [OF assms(3)] conjunct2 [OF ids] members_id [OF assms(2,3)])
qed

lemma all_some_set: "all_some xs = Some ys \<Longrightarrow> y \<in> set ys \<Longrightarrow> Some y \<in> set xs"
  by (drule all_some_SomeD) simp

lemma any_of_stable:
  "any_of j = Some v \<Longrightarrow> sound_json n j \<Longrightarrow>
     generic v = v \<and> go_value v \<and> shallow n v \<and> json_marshal v \<noteq> None"
proof (induction j arbitrary: v n)
  case (JNum s)
  then obtain t where t: "number_text s = Some t" "v = GFloat t" by auto
  with number_text_stable [OF t(1)] number_finite [of t] show ?case by simp
next
  case (JArr js)
  then obtain vs where vs: "all_some (map any_of js) = Some vs" "v = GList vs" by auto
  have el: "generic x = x \<and> go_value x \<and> shallow (n - 1) x \<and> json_marshal x \<noteq> None" if x: "x \<in> set vs" for x
  proof -
    obtain j where j: "j \<in> set js" "any_of j = Some x" using all_some_set [OF vs(1) x] by auto
    moreover have "sound_json (n - 1) j" using JArr.prems(2) j(1) by simp
    ultimately show ?thesis using JArr.IH by blast
  qed
  have "map generic vs = vs" using el by (simp add: map_idI)
  moreover have "0 < n" using JArr.prems(2) by simp
  ultimately show ?case using el vs(2) unfolding json_marshal_None by auto
next
  case (JObj kvs)
  then obtain ps where ps: "all_some (map (\<lambda>(k, v). map_option (Pair k) v) (map (map_prod id any_of) kvs)) = Some ps"
    "v = GMap (members ps)" by auto
  have el: "repair k = k \<and> generic x = x \<and> go_value x \<and> shallow (n - 1) x \<and> json_marshal x \<noteq> None"
    if "(k, x) \<in> set (members ps)" for k x
  proof -
    have "(k, x) \<in> set ps" using members_props(3) that by blast
    from all_some_set [OF ps(1) this]
    have "Some (k, x) \<in> (\<lambda>p. map_option (Pair (fst p)) (any_of (snd p))) ` set kvs"
      by (simp add: image_image split_def)
    then obtain p where p: "Some (k, x) = map_option (Pair (fst p)) (any_of (snd p))" "p \<in> set kvs"
      by (rule imageE)
    obtain k' j where pp: "p = (k', j)" by (cases p)
    have j: "(k, j) \<in> set kvs" "any_of j = Some x" using p(2) p(1) [symmetric] by (auto simp: pp)
    moreover have "repair k = k \<and> sound_json (n - 1) j" using JObj.prems(2) j(1) by auto
    moreover have "j \<in> Basic_BNFs.snds (k, j)" by simp
    ultimately show ?thesis using JObj.IH [of "(k, j)" j] by blast
  qed
  have "generic v = v"
    unfolding ps(2) by (rule generic_members) (use el members_props(1,2) in auto)
  moreover have "go_value v" using el members_props(1) [of ps] by (auto simp: ps(2))
  moreover have "shallow n v" using el JObj.prems(2) by (auto simp: ps(2))
  moreover have "json_marshal v \<noteq> None" using el unfolding ps(2) json_marshal_None by auto
  ultimately show ?case by blast
qed auto

theorem unmarshal_map_stable:
  assumes "unmarshal_map s = Some (Some kvs)"
  shows "go_map kvs" "generic_map kvs = kvs"
proof -
  obtain js where j: "json_parse s = Some (JObj js)" "any_of (JObj js) = Some (GMap kvs)"
    using assms by (auto simp: unmarshal_map_def simp del: any_of.simps
        split: option.splits json.splits goval.splits)
  from any_of_stable [OF j(2) json_parse_sound [OF j(1)]] show "go_map kvs" "generic_map kvs = kvs"
    unfolding generic_GMap go_map_def by blast+
qed

end
