(* ===== verification/Store_Sqlite.thy ===== *)
theory Store_Sqlite
  imports Store_Interface Go_Json_Stable
begin

text \<open>
  \<open>store/sqlite.go\<close>: the production store. The database is its two tables in rowid order, and
  each method is the effect of the SQL statement it executes. The driver and the connection are
  outside the code: \<open>dbFaults\<close> is the sequence of errors they will report, one entry for each
  statement to come (none once the list is used up), so every statement has its error path.
  Timestamps are instants, so the \<open>UTC()\<close> conversions are the identity.

  The interpretation shows that the same contract as the in-memory store's holds, with the
  evidence normalised by one trip through its JSON text; evidence that was read from a row makes
  further trips unchanged. The order of rows with equal \<open>last_seen\<close>, which SQL leaves open, is the
  rowid order.
\<close>

record find_row =
  cId :: string
  cFingerprint :: string
  cModule :: string
  cTarget :: string
  cCheckId :: string
  cTitle :: string
  cSeverity :: string
  cStatus :: string
  cRemediation :: string
  cEvidence :: "string option"
  cGroupId :: "string option"
  cFirstSeen :: gtime
  cLastSeen :: gtime
  cResolvedAt :: "gtime option"
  cAbsentStreak :: int

record target_row =
  trModule :: string
  trRaw :: string
  trCanonical :: string

record sq_db =
  dbFindings :: "find_row list"
  dbTargets :: "target_row list"
  dbFaults :: "gerror option list"

text \<open>The driver's verdict on the next statement.\<close>

definition next_fault :: "sq_db \<Rightarrow> gerror option \<times> sq_db" where
  "next_fault db =
     (case dbFaults db of [] \<Rightarrow> (None, db) | e # es \<Rightarrow> (e, db\<lparr>dbFaults := es\<rparr>))"

subsection \<open>The schema\<close>

text \<open>
  The database has its two tables already, or has them, empty, after the schema statement; either
  way the statement, which only creates what is missing, changes no row. So does \<open>VACUUM\<close>.
\<close>

definition sq_migrate :: "sq_db \<Rightarrow> gerror option \<times> sq_db" where
  "sq_migrate db = next_fault db"

definition NewSQLiteStore :: "sq_db \<Rightarrow> gerror + sq_db" where
  "NewSQLiteStore db =
     (case sq_migrate db of
        (Some e, _) \<Rightarrow> Inl (''sqlite migrate: '' @ e)
      | (None, db) \<Rightarrow> Inr db)"

definition sq_Vacuum :: "sq_db \<Rightarrow> gerror option \<times> sq_db" where
  "sq_Vacuum db = next_fault db"

subsection \<open>Rows and records\<close>

definition marshalEvidence :: "evidence \<Rightarrow> gerror + string option" where
  "marshalEvidence ev =
     (case ev of
        None \<Rightarrow> Inr None
      | Some kvs \<Rightarrow>
          (case json_marshal (GMap kvs) of
             None \<Rightarrow> Inl ''marshal evidence: unsupported value''
           | Some b \<Rightarrow> Inr (Some b)))"

definition unmarshalEvidence :: "string option \<Rightarrow> evidence" where
  "unmarshalEvidence col =
     (case col of
        None \<Rightarrow> None
      | Some t \<Rightarrow>
          (if t = [] then None
           else (case unmarshal_map t of
                   None \<Rightarrow> Some [(''_error'', GStr ''stored evidence unreadable'')]
                 | Some ev \<Rightarrow> ev)))"

definition scanRecord :: "find_row \<Rightarrow> srecord" where
  "scanRecord w =
     \<lparr>fFingerprint = cFingerprint w, fTarget = cTarget w, fCheck = cCheckId w, fTitle = cTitle w,
      fSeverity = cSeverity w, fRemediation = cRemediation w,
      fEvidence = unmarshalEvidence (cEvidence w),
      fID = cId w, fModule = cModule w, fStatus = cStatus w, fGroupID = cGroupId w,
      fFirstSeen = cFirstSeen w, fLastSeen = cLastSeen w, fResolvedAt = cResolvedAt w,
      rAbsentStreak = cAbsentStreak w\<rparr>"

text \<open>The values bound to the placeholders of the insert.\<close>

definition row_of :: "srecord \<Rightarrow> string option \<Rightarrow> find_row" where
  "row_of r evidence =
     \<lparr>cId = fID r, cFingerprint = fFingerprint r, cModule = fModule r, cTarget = fTarget r,
      cCheckId = fCheck r, cTitle = fTitle r, cSeverity = fSeverity r, cStatus = fStatus r,
      cRemediation = fRemediation r, cEvidence = evidence, cGroupId = fGroupID r,
      cFirstSeen = fFirstSeen r, cLastSeen = fLastSeen r, cResolvedAt = fResolvedAt r,
      cAbsentStreak = rAbsentStreak r\<rparr>"

definition row_key :: "find_row \<Rightarrow> string \<times> string" where
  "row_key w = (cModule w, cFingerprint w)"

text \<open>\<open>DO UPDATE SET\<close>: every column but the id, the key, the target, the check and the first sight.\<close>

definition update_row :: "find_row \<Rightarrow> find_row \<Rightarrow> find_row" where
  "update_row old excluded =
     old\<lparr>cTitle := cTitle excluded, cSeverity := cSeverity excluded, cStatus := cStatus excluded,
       cRemediation := cRemediation excluded, cEvidence := cEvidence excluded,
       cGroupId := cGroupId excluded, cLastSeen := cLastSeen excluded,
       cResolvedAt := cResolvedAt excluded, cAbsentStreak := cAbsentStreak excluded\<rparr>"

subsection \<open>The statements\<close>

text \<open>
  \<open>INSERT ... ON CONFLICT(module, fingerprint) DO UPDATE\<close>: the conflict target is tried first,
  then the primary key.
\<close>

definition insert_row :: "find_row \<Rightarrow> find_row list \<Rightarrow> gerror + find_row list" where
  "insert_row w rows =
     (if row_key w \<in> row_key ` set rows
      then Inr (map (\<lambda>old. if row_key old = row_key w then update_row old w else old) rows)
      else if cId w \<in> cId ` set rows then Inl ''UNIQUE constraint failed: findings.id''
      else Inr (rows @ [w]))"

definition sq_Upsert :: "srecord \<Rightarrow> sq_db \<Rightarrow> gerror option \<times> sq_db" where
  "sq_Upsert r db =
     (case marshalEvidence (fEvidence r) of
        Inl e \<Rightarrow> (Some e, db)
      | Inr evidence \<Rightarrow>
          (case next_fault db of
             (Some e, db) \<Rightarrow> (Some e, db)
           | (None, db) \<Rightarrow>
               (case insert_row (row_of r evidence) (dbFindings db) of
                  Inl e \<Rightarrow> (Some e, db)
                | Inr rows \<Rightarrow> (None, db\<lparr>dbFindings := rows\<rparr>))))"

definition sq_select ::
    "(find_row list \<Rightarrow> find_row list) \<Rightarrow> sq_db
     \<Rightarrow> (gerror + srecord list) \<times> sq_db" where
  "sq_select query db =
     (case next_fault db of
        (Some e, db) \<Rightarrow> (Inl e, db)
      | (None, db) \<Rightarrow> (Inr (map scanRecord (query (dbFindings db))), db))"

definition sq_ListByTarget ::
    "string \<Rightarrow> string \<Rightarrow> sq_db \<Rightarrow> (gerror + srecord list) \<times> sq_db"
  where
  "sq_ListByTarget mod_id target =
     sq_select (filter (\<lambda>w. cModule w = mod_id \<and> cTarget w = target))"

definition sq_ListOpen ::
    "string \<Rightarrow> sq_db \<Rightarrow> (gerror + srecord list) \<times> sq_db" where
  "sq_ListOpen mod_id =
     sq_select (filter (\<lambda>w. cModule w = mod_id \<and> cStatus w = StatusOpen))"

definition sq_ListAll ::
    "string \<Rightarrow> sq_db \<Rightarrow> (gerror + srecord list) \<times> sq_db" where
  "sq_ListAll mod_id =
     sq_select (\<lambda>rows. sort_key (\<lambda>w. - cLastSeen w) (filter (\<lambda>w. cModule w = mod_id) rows))"

definition sq_Get ::
    "string \<Rightarrow> string \<Rightarrow> sq_db \<Rightarrow> (gerror + srecord option) \<times> sq_db"
  where
  "sq_Get mod_id fingerprint db =
     (case sq_select (filter (\<lambda>w. cModule w = mod_id \<and> cFingerprint w = fingerprint)) db of
        (Inl e, db) \<Rightarrow> (Inl e, db)
      | (Inr [], db) \<Rightarrow> (Inr None, db)
      | (Inr (r # _), db) \<Rightarrow> (Inr (Some r), db))"

definition sq_PruneResolvedBefore :: "gtime \<Rightarrow> sq_db \<Rightarrow> (gerror + nat) \<times> sq_db" where
  "sq_PruneResolvedBefore cutoff db =
     (case next_fault db of
        (Some e, db) \<Rightarrow> (Inl e, db)
      | (None, db) \<Rightarrow>
          (let gone = (\<lambda>w. cStatus w = StatusResolved \<and>
             (case cResolvedAt w of None \<Rightarrow> False | Some t \<Rightarrow> t < cutoff))
           in (Inr (length (filter gone (dbFindings db))),
               db\<lparr>dbFindings := filter (\<lambda>w. \<not> gone w) (dbFindings db)\<rparr>)))"

definition sq_ops :: "sq_db store_ops" where
  "sq_ops = \<lparr>sListByTarget = sq_ListByTarget, sUpsert = sq_Upsert, sGet = sq_Get,
     sListOpen = sq_ListOpen, sListAll = sq_ListAll\<rparr>"

subsection \<open>Saved targets\<close>

definition sq_SaveTarget ::
    "string \<Rightarrow> string \<Rightarrow> string \<Rightarrow> sq_db \<Rightarrow> gerror option \<times> sq_db" where
  "sq_SaveTarget mod_id raw canonical db =
     (case next_fault db of
        (Some e, db) \<Rightarrow> (Some e, db)
      | (None, db) \<Rightarrow>
          (if \<exists>t \<in> set (dbTargets db). trModule t = mod_id \<and> trCanonical t = canonical
           then (None, db)
           else (None, db\<lparr>dbTargets := dbTargets db @
                   [\<lparr>trModule = mod_id, trRaw = raw, trCanonical = canonical\<rparr>]\<rparr>)))"

definition sq_DeleteTarget ::
    "string \<Rightarrow> string \<Rightarrow> sq_db \<Rightarrow> (gerror option \<times> sq_db) outcome" where
  "sq_DeleteTarget mod_id canonical db =
     (case next_fault db of
        (Some e, db) \<Rightarrow> Done (Some e, db)
      | (None, db) \<Rightarrow>
          Done (None, db\<lparr>dbTargets :=
            filter (\<lambda>t. \<not> (trModule t = mod_id \<and> trCanonical t = canonical)) (dbTargets db)\<rparr>))"

definition sq_ListSavedTargets :: "string \<Rightarrow> sq_db \<Rightarrow> (gerror + string list) \<times> sq_db" where
  "sq_ListSavedTargets mod_id db =
     (case next_fault db of
        (Some e, db) \<Rightarrow> (Inl e, db)
      | (None, db) \<Rightarrow>
          (Inr (map trRaw (filter (\<lambda>t. trModule t = mod_id) (dbTargets db))), db))"

definition sq_target_ops :: "sq_db target_ops" where
  "sq_target_ops = \<lparr>tsSave = sq_SaveTarget, tsDelete = sq_DeleteTarget,
     tsList = sq_ListSavedTargets\<rparr>"

subsection \<open>The contracts\<close>

text \<open>The table's two uniqueness constraints.\<close>

definition sq_invar :: "sq_db \<Rightarrow> bool" where
  "sq_invar db \<longleftrightarrow> distinct (map row_key (dbFindings db)) \<and> distinct (map cId (dbFindings db))"

definition sq_view :: "sq_db \<Rightarrow> store_view" where
  "sq_view db = map_of (map (\<lambda>w. (row_key w, scanRecord w)) (dbFindings db))"

text \<open>What a record comes back as: its evidence went through JSON.\<close>

definition sq_norm :: "srecord \<Rightarrow> srecord" where
  "sq_norm r =
     r\<lparr>fEvidence := (case marshalEvidence (fEvidence r) of
        Inl e \<Rightarrow> fEvidence r | Inr col \<Rightarrow> unmarshalEvidence col)\<rparr>"

lemma scanRecord_fields [simp]:
  "fFingerprint (scanRecord w) = cFingerprint w" "fTarget (scanRecord w) = cTarget w"
  "fModule (scanRecord w) = cModule w" "fID (scanRecord w) = cId w"
  "fCheck (scanRecord w) = cCheckId w" "fFirstSeen (scanRecord w) = cFirstSeen w"
  "rkey (scanRecord w) = row_key w"
  by (simp_all add: scanRecord_def rkey_def row_key_def)

lemma row_of_fields [simp]:
  "row_key (row_of r ev) = rkey r" "cId (row_of r ev) = fID r"
  by (simp_all add: row_of_def row_key_def rkey_def)

lemma update_row_fields [simp]:
  "row_key (update_row old w) = row_key old" "cId (update_row old w) = cId old"
  by (simp_all add: update_row_def row_key_def)

lemma scan_row_of:
  "marshalEvidence (fEvidence r) = Inr ev \<Longrightarrow> scanRecord (row_of r ev) = sq_norm r"
  by (simp add: scanRecord_def row_of_def sq_norm_def)

lemma scan_update_row:
  assumes "marshalEvidence (fEvidence r) = Inr ev" "row_key old = rkey r"
    and "same_identity (scanRecord old) r"
  shows "scanRecord (update_row old (row_of r ev)) = sq_norm r"
  using assms
  by (simp add: scanRecord_def update_row_def row_of_def sq_norm_def same_identity_def
      row_key_def rkey_def)

lemma next_fault_tables [simp]:
  "next_fault db = (e, db') \<Longrightarrow> dbFindings db' = dbFindings db"
  "next_fault db = (e, db') \<Longrightarrow> dbTargets db' = dbTargets db"
  by (auto simp: next_fault_def split: list.splits)

lemma next_fault_contract [simp]:
  "next_fault db = (e, db') \<Longrightarrow> sq_view db' = sq_view db"
  "next_fault db = (e, db') \<Longrightarrow> sq_invar db' = sq_invar db"
  by (simp_all add: sq_view_def sq_invar_def)

lemma sq_view_Some:
  assumes "sq_invar db"
  shows "sq_view db k = Some r \<longleftrightarrow>
    (\<exists>w \<in> set (dbFindings db). row_key w = k \<and> r = scanRecord w)"
proof -
  have d: "distinct (map fst (map (\<lambda>w. (row_key w, scanRecord w)) (dbFindings db)))"
    using assms by (simp add: sq_invar_def comp_def)
  show ?thesis unfolding sq_view_def map_of_eq_Some_iff [OF d] by auto
qed

lemma insert_row_invar:
  assumes "insert_row w rows = Inr rows'" "distinct (map row_key rows)" "distinct (map cId rows)"
  shows "distinct (map row_key rows')" "distinct (map cId rows')"
proof -
  have "map row_key (map (\<lambda>old. if row_key old = row_key w then update_row old w else old) rows)
      = map row_key rows"
    "map cId (map (\<lambda>old. if row_key old = row_key w then update_row old w else old) rows)
      = map cId rows"
    by (simp_all add: comp_def)
  with assms show "distinct (map row_key rows')" "distinct (map cId rows')"
    by (auto simp: insert_row_def simp del: map_map split: if_splits)
qed

lemma insert_row_view:
  assumes ins: "insert_row (row_of r ev) rows = Inr rows'"
    and m: "marshalEvidence (fEvidence r) = Inr ev"
    and kept: "\<And>old. old \<in> set rows \<Longrightarrow> row_key old = rkey r \<Longrightarrow> same_identity (scanRecord old) r"
  shows "map_of (map (\<lambda>w. (row_key w, scanRecord w)) rows') =
    (map_of (map (\<lambda>w. (row_key w, scanRecord w)) rows))(rkey r \<mapsto> sq_norm r)"
proof (cases "rkey r \<in> row_key ` set rows")
  case True
  let ?u = "\<lambda>old. if row_key old = rkey r then update_row old (row_of r ev) else old"
  have "map_of (map (\<lambda>w. (row_key w, scanRecord w)) (map ?u rows)) =
      (map_of (map (\<lambda>w. (row_key w, scanRecord w)) rows))(rkey r \<mapsto> sq_norm r)"
    using True kept
  proof (induction rows)
    case (Cons w ws)
    show ?case
    proof (cases "rkey r \<in> row_key ` set ws")
      case True
      then have ih: "map_of (map (\<lambda>w. (row_key w, scanRecord w)) (map ?u ws)) =
          (map_of (map (\<lambda>w. (row_key w, scanRecord w)) ws))(rkey r \<mapsto> sq_norm r)"
        by (rule Cons.IH) (use Cons.prems in auto)
      have "scanRecord (?u w) = (if row_key w = rkey r then sq_norm r else scanRecord w)"
        using Cons.prems(2) [of w] m by (simp add: scan_update_row)
      then show ?thesis
        by (intro ext) (use ih in \<open>auto simp: fun_upd_def simp del: map_map\<close>)
    next
      case False
      then have "row_key w = rkey r" using Cons.prems(1) by auto
      moreover have "map ?u ws = ws" using False by (intro map_idI) (metis image_eqI)
      ultimately show ?thesis
        using Cons.prems(2) [of w] m by (auto simp: scan_update_row)
    qed
  qed simp
  with ins True show ?thesis by (simp add: insert_row_def)
next
  case False
  then have "map_of (map (\<lambda>w. (row_key w, scanRecord w)) rows) (rkey r) = None"
    by (auto simp: map_of_eq_None_iff)
  moreover have "rows' = rows @ [row_of r ev]"
    using ins False by (auto simp: insert_row_def split: if_splits)
  ultimately show ?thesis
    using m by (auto simp: map_add_def fun_eq_iff scan_row_of split: option.splits)
qed

lemma sq_upsert_invar: "sq_invar db \<Longrightarrow> sq_Upsert r db = (err, db') \<Longrightarrow> sq_invar db'"
  by (auto simp: sq_Upsert_def sq_invar_def insert_row_invar
      split: sum.splits prod.splits option.splits)

lemma sq_upsert_fails: "sq_Upsert r db = (Some e, db') \<Longrightarrow> sq_view db' = sq_view db"
  by (auto simp: sq_Upsert_def split: sum.splits prod.splits option.splits)

lemma sq_upsert_ok:
  assumes "sq_invar db" "identity_kept (sq_view db) r" "sq_Upsert r db = (None, db')"
  shows "sq_view db' = (sq_view db)(rkey r \<mapsto> sq_norm r)"
proof -
  obtain ev db1 rows where m: "marshalEvidence (fEvidence r) = Inr ev"
    and f: "next_fault db = (None, db1)"
    and ins: "insert_row (row_of r ev) (dbFindings db1) = Inr rows"
    and db': "db' = db1\<lparr>dbFindings := rows\<rparr>"
    using assms(3) by (auto simp: sq_Upsert_def split: sum.splits prod.splits option.splits)
  have "same_identity (scanRecord old) r" if "old \<in> set (dbFindings db1)" "row_key old = rkey r" for old
  proof -
    have "sq_view db (rkey r) = Some (scanRecord old)"
      using that f unfolding sq_view_Some [OF assms(1)] by (metis next_fault_tables(1))
    then show ?thesis using assms(2) by (simp add: identity_kept_def)
  qed
  from insert_row_view [OF ins m this] f db' show ?thesis
    by (simp add: sq_view_def)
qed

lemma sq_select_keeps:
  "sq_select q db = (res, db') \<Longrightarrow> sq_view db' = sq_view db \<and> sq_invar db' = sq_invar db"
  by (auto simp: sq_select_def split: prod.splits option.splits)

lemma sq_select_rows:
  "sq_select q db = (Inr rs, db') \<Longrightarrow> rs = map scanRecord (q (dbFindings db))"
  by (auto simp: sq_select_def split: prod.splits option.splits)

lemma unmarshal_marshalEvidence:
  assumes "go_map kvs"
  shows "\<exists>t. marshalEvidence (Some kvs) = Inr (Some t) \<and> unmarshalEvidence (Some t) = Some (generic_map kvs)"
proof -
  obtain t where t: "json_marshal (GMap kvs) = Some t" "t \<noteq> []" "unmarshal_map t = Some (Some (generic_map kvs))"
    using go_map_text [OF assms] by blast
  have "marshalEvidence (Some kvs) = Inr (Some t)"
    unfolding marshalEvidence_def option.case t(1) ..
  moreover have "unmarshalEvidence (Some t) = Some (generic_map kvs)"
    unfolding unmarshalEvidence_def option.case t(3) using t(2) by (rule if_not_P)
  ultimately show ?thesis by blast
qed

lemma sq_norm_none: "fEvidence r = None \<Longrightarrow> sq_norm r = r"
  by (simp add: sq_norm_def marshalEvidence_def unmarshalEvidence_def)

lemma sq_norm_some:
  assumes "fEvidence r = Some kvs" "go_map kvs"
  shows "sq_norm r = r\<lparr>fEvidence := Some (generic_map kvs)\<rparr>"
proof -
  obtain t where t: "marshalEvidence (Some kvs) = Inr (Some t)" "unmarshalEvidence (Some t) = Some (generic_map kvs)"
    using unmarshal_marshalEvidence [OF assms(2)] by blast
  show ?thesis unfolding sq_norm_def assms(1) t(1) sum.case t(2) ..
qed

lemma unmarshalEvidence_stable:
  assumes "unmarshalEvidence col = Some kvs"
  shows "go_map kvs \<and> generic_map kvs = kvs"
proof (cases "kvs = [(''_error'', GStr ''stored evidence unreadable'')]")
  case True
  have "go_map kvs" unfolding True by (simp add: go_map_def max_nesting_def encode_object_def)
  moreover have "generic_map kvs = kvs"
    unfolding True by (simp add: generic_map_def members_def repair_ascii byte_def)
  ultimately show ?thesis by blast
next
  case False
  with assms obtain t where "unmarshal_map t = Some (Some kvs)"
    by (auto simp: unmarshalEvidence_def split: option.splits if_splits)
  from unmarshal_map_stable [OF this] show ?thesis by blast
qed

text \<open>What was read from a row is written back as it is.\<close>

lemma sq_norm_read:
  assumes "fEvidence r = unmarshalEvidence col"
  shows "sq_norm r = r"
proof (cases "fEvidence r")
  case (Some kvs)
  with assms unmarshalEvidence_stable [of col kvs] have "go_map kvs" "generic_map kvs = kvs" by simp_all
  with sq_norm_some [OF Some] Some show ?thesis by simp
qed (rule sq_norm_none)

lemma sq_norm_view:
  assumes "sq_invar db" "sq_view db k = Some r" "fEvidence r' = fEvidence r"
  shows "sq_norm r' = r'"
proof -
  obtain w where "r = scanRecord w" using assms(1,2) by (auto simp: sq_view_Some)
  then have "fEvidence r' = unmarshalEvidence (cEvidence w)" using assms(3) by (simp add: scanRecord_def)
  then show ?thesis by (rule sq_norm_read)
qed

interpretation sq: record_store "sq_ops" "sq_view" sq_invar "sq_norm" "\<lambda>_. True"
proof unfold_locales
  fix db :: sq_db and m fp r
  assume "sq_invar db" "sq_view db (m, fp) = Some r"
  then show "fModule r = m \<and> fFingerprint r = fp" by (auto simp: sq_view_Some row_key_def)
next
  fix db db' :: sq_db and m t res
  assume "sq_invar db" "sListByTarget sq_ops m t db = (res, db')"
  then show "sq_invar db' \<and> sq_view db' = sq_view db"
    by (auto simp: sq_ops_def sq_ListByTarget_def dest: sq_select_keeps)
next
  fix db db' :: sq_db and m t rs
  assume a: "sq_invar db" "sListByTarget sq_ops m t db = (Inr rs, db')"
  then have rs: "rs = map (scanRecord)
      (filter (\<lambda>w. cModule w = m \<and> cTarget w = t) (dbFindings db))"
    by (auto simp: sq_ops_def sq_ListByTarget_def dest: sq_select_rows)
  show "set rs = {r. \<exists>fp. sq_view db (m, fp) = Some r \<and> fTarget r = t}"
    unfolding rs sq_view_Some [OF a(1)] by (auto simp: row_key_def)
  have "inj_on cFingerprint (set (filter (\<lambda>w. cModule w = m \<and> cTarget w = t) (dbFindings db)))"
    using a(1) by (auto simp: sq_invar_def distinct_map inj_on_def row_key_def)
  then show "distinct (map fFingerprint rs)"
    using a(1) by (simp add: rs comp_def distinct_map sq_invar_def)
next
  fix db db' :: sq_db and r
  assume "sq_invar db" "identity_kept (sq_view db) r" "sUpsert sq_ops r db = (None, db')"
  then show "sq_view db' = (sq_view db)(rkey r \<mapsto> sq_norm r)"
    by (simp add: sq_ops_def sq_upsert_ok)
next
  fix db :: sq_db and k and r r' :: srecord
  assume "sq_invar db" "sq_view db k = Some r" "fEvidence r' = fEvidence r"
  then show "sq_norm r' = r'" by (rule sq_norm_view)
qed (auto simp: sq_ops_def sq_norm_def intro: sq_upsert_invar sq_upsert_fails)

lemma sq_rows_distinct: "sq_invar db \<Longrightarrow> distinct (map cFingerprint (filter (\<lambda>w. cModule w = m \<and> P w) (dbFindings db)))"
  by (auto simp: sq_invar_def distinct_map inj_on_def row_key_def)

interpretation sqr: readable_store "sq_ops" "sq_view" sq_invar "sq_norm" "\<lambda>_. True"
proof unfold_locales
  fix db db' :: sq_db and m fp res
  assume inv: "sq_invar db" and get: "sGet sq_ops m fp db = (res, db')"
  let ?rows = "filter (\<lambda>w. cModule w = m \<and> cFingerprint w = fp) (dbFindings db)"
  obtain sel where sel: "sq_select (filter (\<lambda>w. cModule w = m \<and> cFingerprint w = fp)) db = (sel, db')"
    and res: "res = (case sel of Inl e \<Rightarrow> Inl e | Inr [] \<Rightarrow> Inr None | Inr (r # _) \<Rightarrow> Inr (Some r))"
    using get by (auto simp: sq_ops_def sq_Get_def split: prod.splits sum.splits list.splits)
  have "x = sq_view db (m, fp)" if "res = Inr x" for x
  proof (cases ?rows)
    case Nil
    then have "w \<in> set (dbFindings db) \<Longrightarrow> row_key w \<noteq> (m, fp)" for w
      by (auto simp: filter_empty_conv row_key_def)
    then have "sq_view db (m, fp) = None" using sq_view_Some [OF inv] by (metis not_None_eq)
    moreover have "x = None"
      using that res sel Nil by (auto simp: sq_select_def split: prod.splits option.splits)
    ultimately show ?thesis by simp
  next
    case (Cons w ws)
    then have "w \<in> set ?rows" by simp
    then have "w \<in> set (dbFindings db)" "row_key w = (m, fp)" by (simp_all add: row_key_def)
    then have "sq_view db (m, fp) = Some (scanRecord w)" using sq_view_Some [OF inv] by blast
    moreover have "x = Some (scanRecord w)"
      using that res sel Cons by (auto simp: sq_select_def split: prod.splits option.splits)
    ultimately show ?thesis by simp
  qed
  then show "sq_invar db' \<and> sq_view db' = sq_view db \<and> (\<forall>x. res = Inr x \<longrightarrow> x = sq_view db (m, fp))"
    using sq_select_keeps [OF sel] inv by blast
next
  fix db db' :: sq_db and m res
  assume a: "sq_invar db" "sListOpen sq_ops m db = (res, db')"
  then have sel: "sq_select (filter (\<lambda>w. cModule w = m \<and> cStatus w = StatusOpen)) db = (res, db')"
    by (simp add: sq_ops_def sq_ListOpen_def)
  have "distinct (map fFingerprint rs) \<and> set rs = {r. \<exists>fp. sq_view db (m, fp) = Some r \<and> fStatus r = StatusOpen}"
    if "res = Inr rs" for rs
  proof -
    have rs: "rs = map scanRecord (filter (\<lambda>w. cModule w = m \<and> cStatus w = StatusOpen) (dbFindings db))"
      using sq_select_rows sel that by blast
    have "fStatus (scanRecord w) = cStatus w" for w by (simp add: scanRecord_def)
    then show ?thesis
      using sq_rows_distinct [OF a(1), of m] unfolding rs sq_view_Some [OF a(1)] by (auto simp: comp_def row_key_def)
  qed
  then show "sq_invar db' \<and> sq_view db' = sq_view db \<and> (\<forall>rs. res = Inr rs \<longrightarrow>
      distinct (map fFingerprint rs) \<and>
      set rs = {r. \<exists>fp. sq_view db (m, fp) = Some r \<and> fStatus r = StatusOpen})"
    using sq_select_keeps [OF sel] a(1) by blast
next
  fix db db' :: sq_db and m res
  assume a: "sq_invar db" "sListAll sq_ops m db = (res, db')"
  then have sel: "sq_select (\<lambda>rows. sort_key (\<lambda>w. - cLastSeen w) (filter (\<lambda>w. cModule w = m) rows)) db = (res, db')"
    by (simp add: sq_ops_def sq_ListAll_def)
  have "distinct (map fFingerprint rs) \<and> set rs = {r. \<exists>fp. sq_view db (m, fp) = Some r}"
    if "res = Inr rs" for rs
  proof -
    let ?ws = "sort_key (\<lambda>w. - cLastSeen w) (filter (\<lambda>w. cModule w = m) (dbFindings db))"
    have rs: "rs = map scanRecord ?ws" using sq_select_rows sel that by blast
    have "distinct (map cFingerprint (filter (\<lambda>w. cModule w = m) (dbFindings db)))"
      using sq_rows_distinct [OF a(1), of m "\<lambda>_. True"] by simp
    then have "distinct (map cFingerprint ?ws)" by (simp add: distinct_map)
    then show ?thesis unfolding rs sq_view_Some [OF a(1)] by (auto simp: comp_def row_key_def)
  qed
  then show "sq_invar db' \<and> sq_view db' = sq_view db \<and> (\<forall>rs. res = Inr rs \<longrightarrow>
      distinct (map fFingerprint rs) \<and> set rs = {r. \<exists>fp. sq_view db (m, fp) = Some r})"
    using sq_select_keeps [OF sel] a(1) by blast
qed

definition sq_saved :: "sq_db \<Rightarrow> string \<Rightarrow> (string \<times> string) list" where
  "sq_saved db mod_id =
     map (\<lambda>t. (trRaw t, trCanonical t)) (filter (\<lambda>t. trModule t = mod_id) (dbTargets db))"

interpretation sqt: target_store sq_target_ops sq_saved
proof unfold_locales
  fix m raw c and db db' :: sq_db
  assume "tsSave sq_target_ops m raw c db = (None, db')"
  then show "sq_saved db' = (sq_saved db)(m := save_pair raw c (sq_saved db m))"
    by (auto simp: sq_target_ops_def sq_SaveTarget_def sq_saved_def save_pair_def fun_eq_iff
        image_iff split: prod.splits option.splits if_splits)
next
  fix m c and db db' :: sq_db
  assume "tsDelete sq_target_ops m c db = Done (None, db')"
  then have t: "dbTargets db' = filter (\<lambda>t. \<not> (trModule t = m \<and> trCanonical t = c)) (dbTargets db)"
    by (auto simp: sq_target_ops_def sq_DeleteTarget_def split: prod.splits option.splits)
  have flt: "filter (\<lambda>t. trModule t = x) (filter (\<lambda>t. \<not> (trModule t = m \<and> trCanonical t = c)) ts) =
      (if x = m then filter (\<lambda>t. trCanonical t \<noteq> c) (filter (\<lambda>t. trModule t = m) ts)
       else filter (\<lambda>t. trModule t = x) ts)" for x ts
    by (induction ts) auto
  show "sq_saved db' = (sq_saved db)(m := filter (\<lambda>p. snd p \<noteq> c) (sq_saved db m))"
    by (rule ext) (simp add: sq_saved_def t flt filter_map comp_def del: filter_filter de_Morgan_conj)
next
  fix m rs and db db' :: sq_db
  assume "tsList sq_target_ops m db = (Inr rs, db')"
  then show "sq_saved db' = sq_saved db \<and> rs = map fst (sq_saved db m)"
    by (auto simp: sq_target_ops_def sq_ListSavedTargets_def sq_saved_def fun_eq_iff comp_def
        split: prod.splits option.splits)
qed

text \<open>A database whose driver has no more errors to report is reliable.\<close>

lemma next_fault_reliable: "next_fault db = (e, db') \<Longrightarrow> dbFaults db = [] \<Longrightarrow> e = None \<and> db' = db"
  by (simp add: next_fault_def)

lemma sq_saved_tables: "dbTargets db' = dbTargets db \<Longrightarrow> sq_saved db' = sq_saved db"
  by (simp add: sq_saved_def fun_eq_iff)

lemma sq_select_saved:
  "sq_select q db = (lst, db') \<Longrightarrow> sq_saved db' = sq_saved db \<and> (dbFaults db = [] \<longrightarrow> dbFaults db' = [])"
  by (auto simp: sq_select_def split: prod.splits option.splits intro: sq_saved_tables dest: next_fault_reliable)

lemma sq_upsert_saved:
  "sq_Upsert r db = (e, db') \<Longrightarrow> sq_saved db' = sq_saved db \<and> (dbFaults db = [] \<longrightarrow> dbFaults db' = [])"
  by (auto simp: sq_Upsert_def split: prod.splits option.splits sum.splits intro: sq_saved_tables
      dest: next_fault_reliable)

lemma sq_same_findings:
  "dbFindings db' = dbFindings db \<Longrightarrow> sq_view db' = sq_view db \<and> (sq_invar db' \<longleftrightarrow> sq_invar db)"
  by (simp add: sq_view_def sq_invar_def)

interpretation sqapp: app_store "sq_ops" "sq_view" sq_invar "sq_norm" "\<lambda>_. True" sq_target_ops
    sq_saved "\<lambda>db. dbFaults db = []"
proof unfold_locales
  fix m raw c e and db db' :: sq_db
  assume s: "tsSave sq_target_ops m raw c db = (e, db')"
  then have "dbFindings db' = dbFindings db"
    by (auto simp: sq_target_ops_def sq_SaveTarget_def split: prod.splits option.splits if_splits)
  then show "sq_view db' = sq_view db \<and> (sq_invar db' \<longleftrightarrow> sq_invar db)" by (rule sq_same_findings)
  show "e = None \<and> dbFaults db' = []" if "dbFaults db = []"
    using s that by (auto simp: sq_target_ops_def sq_SaveTarget_def next_fault_def split: if_splits)
next
  fix m c e and db db' :: sq_db
  assume "tsDelete sq_target_ops m c db = Done (e, db')"
  then have "dbFindings db' = dbFindings db"
    by (auto simp: sq_target_ops_def sq_DeleteTarget_def split: prod.splits option.splits)
  then show "sq_view db' = sq_view db \<and> (sq_invar db' \<longleftrightarrow> sq_invar db)" by (rule sq_same_findings)
next
  fix m fp res and db db' :: sq_db
  assume "sGet sq_ops m fp db = (res, db')"
  then show "sq_saved db' = sq_saved db \<and> (dbFaults db = [] \<longrightarrow> dbFaults db' = [])"
    by (auto simp: sq_ops_def sq_Get_def split: prod.splits sum.splits list.splits dest: sq_select_saved)
next
  fix m lst and db db' :: sq_db
  assume "sListOpen sq_ops m db = (lst, db') \<or> sListAll sq_ops m db = (lst, db')"
  then show "sq_saved db' = sq_saved db \<and> (dbFaults db = [] \<longrightarrow> dbFaults db' = [])"
    using sq_select_saved by (auto simp: sq_ops_def sq_ListOpen_def sq_ListAll_def)
next
  fix m t lst and db db' :: sq_db
  assume "sListByTarget sq_ops m t db = (lst, db')"
  then show "sq_saved db' = sq_saved db \<and> (dbFaults db = [] \<longrightarrow> dbFaults db' = [])"
    using sq_select_saved by (auto simp: sq_ops_def sq_ListByTarget_def)
next
  fix r e and db db' :: sq_db
  assume "sUpsert sq_ops r db = (e, db')"
  then show "sq_saved db' = sq_saved db \<and> (dbFaults db = [] \<longrightarrow> dbFaults db' = [])"
    using sq_upsert_saved by (simp add: sq_ops_def)
next
  fix m c and db :: sq_db
  assume "dbFaults db = []"
  then show "\<exists>db'. tsDelete sq_target_ops m c db = Done (None, db') \<and> dbFaults db' = []"
    by (simp add: sq_target_ops_def sq_DeleteTarget_def next_fault_def)
next
  fix m names and db db' :: sq_db
  assume "dbFaults db = []" "tsList sq_target_ops m db = (names, db')"
  then show "(\<exists>raws. names = Inr raws) \<and> dbFaults db' = []"
    by (auto simp: sq_target_ops_def sq_ListSavedTargets_def next_fault_def)
qed

subsection \<open>Evidence in the database\<close>

end
