(* ===== verification/Store_Reconcile.thy ===== *)
theory Store_Reconcile
  imports Store_Memory Store_Sqlite
begin

text \<open>
  \<open>store/reconcile.go\<close>: the reconcile engine over any store. \<open>newID\<close> is the engine's id
  generator over its own state \<open>'g\<close>, \<open>now\<close> the time its clock returned for the call. The two
  loops of \<open>Reconcile\<close> are recursive functions that carry the loop's variables and stop at the
  first error, keeping the partial result the code returns with it. The second half works in
  the locale of the store contract: one lemma per loop describes the store view and the result
  the loop leaves, and \<open>reconcile_ok\<close> puts them together.
\<close>

record reconcile_result =
  NewlyOpen :: "finding list"
  Resolved :: "finding list"
  Rejected :: "(finding \<times> ingest_error) list"

definition empty_result :: reconcile_result where
  "empty_result = \<lparr>NewlyOpen = [], Resolved = [], Rejected = []\<rparr>"

text \<open>\<open>capEvidence\<close>.\<close>

definition capEvidence :: "finding \<Rightarrow> finding" where
  "capEvidence f =
     (case fEvidence f of
        None \<Rightarrow> f
      | Some ev \<Rightarrow>
          (case json_marshal (GMap ev) of
             None \<Rightarrow>
               f\<lparr>fEvidence := Some [(''_error'', GStr ''evidence not serialisable; dropped'')]\<rparr>
           | Some b \<Rightarrow>
               if length b > MaxEvidenceBytes then
                 f\<lparr>fEvidence := Some [
                    (''_truncated'', GBool True),
                    (''_original_bytes'', GInt (int (length b))),
                    (''_note'', GStr ''evidence exceeded MaxEvidenceBytes and was dropped'')]\<rparr>
               else f))"

text \<open>The record built for a new finding, and the one built from a known record.\<close>

definition opened_record :: "gtime \<Rightarrow> module_info \<Rightarrow> string \<Rightarrow> finding \<Rightarrow> srecord" where
  "opened_record now md fid f =
     (new_record f)\<lparr>fID := fid, fModule := miID md, fStatus := StatusOpen, fFirstSeen := now,
       fLastSeen := now, rAbsentStreak := 0\<rparr>"

definition merged_record :: "gtime \<Rightarrow> srecord \<Rightarrow> finding \<Rightarrow> srecord" where
  "merged_record now prev f =
     (let reopened = fStatus prev = StatusResolved;
          merged = prev\<lparr>fTitle := fTitle f, fSeverity := fSeverity f,
            fRemediation := fRemediation f, fEvidence := fEvidence f, fLastSeen := now,
            rAbsentStreak := 0\<rparr>
      in if reopened then merged\<lparr>fStatus := StatusOpen, fResolvedAt := None\<rparr> else merged)"

text \<open>The record built for a finding the scan did not report.\<close>

definition absent_record :: "gtime \<Rightarrow> module_info \<Rightarrow> srecord \<Rightarrow> srecord" where
  "absent_record now md r =
     (let r = r\<lparr>rAbsentStreak := rAbsentStreak r + 1\<rparr>
      in if rAbsentStreak r \<ge> ResolveAfterOrDefault md
         then r\<lparr>fStatus := StatusResolved, fResolvedAt := Some now\<rparr> else r)"

subsection \<open>The loop over the fresh findings\<close>

text \<open>
  One iteration: the error it returns with, if any, and the loop's variables after it. A
  \<open>continue\<close> is an iteration without an error.
\<close>

definition ingest_one ::
    "'s store_ops \<Rightarrow> (gtime \<Rightarrow> 'g \<Rightarrow> (gerror + string) \<times> 'g) \<Rightarrow> gtime \<Rightarrow> module_info
     \<Rightarrow> (string \<rightharpoonup> srecord) \<Rightarrow> finding \<Rightarrow> string list \<Rightarrow> reconcile_result \<Rightarrow> 's \<Rightarrow> 'g
     \<Rightarrow> gerror option \<times> string list \<times> reconcile_result \<times> 's \<times> 'g" where
  "ingest_one ops newID now md byFP f seen res s g =
     (case ValidateForIngest f of
        Some e \<Rightarrow> (None, seen, res\<lparr>Rejected := Rejected res @ [(f, e)]\<rparr>, s, g)
      | None \<Rightarrow>
          (let f = capEvidence f; seen = fFingerprint f # seen
           in case byFP (fFingerprint f) of
                None \<Rightarrow>
                  (case newID now g of
                     (Inl e, g) \<Rightarrow> (Some e, seen, res, s, g)
                   | (Inr fid, g) \<Rightarrow>
                       (let rec = opened_record now md fid f
                        in case sUpsert ops rec s of
                             (Some e, s) \<Rightarrow> (Some e, seen, res, s, g)
                           | (None, s) \<Rightarrow>
                               (None, seen, res\<lparr>NewlyOpen := NewlyOpen res @ [finding_of rec]\<rparr>,
                                s, g)))
              | Some prev \<Rightarrow>
                  (let merged = merged_record now prev f
                   in case sUpsert ops merged s of
                        (Some e, s) \<Rightarrow> (Some e, seen, res, s, g)
                      | (None, s) \<Rightarrow>
                          (None, seen,
                           if fStatus prev = StatusResolved
                           then res\<lparr>NewlyOpen := NewlyOpen res @ [finding_of merged]\<rparr>
                           else res, s, g))))"

fun ingest ::
    "'s store_ops \<Rightarrow> (gtime \<Rightarrow> 'g \<Rightarrow> (gerror + string) \<times> 'g) \<Rightarrow> gtime \<Rightarrow> module_info
     \<Rightarrow> (string \<rightharpoonup> srecord) \<Rightarrow> finding list \<Rightarrow> string list \<Rightarrow> reconcile_result \<Rightarrow> 's \<Rightarrow> 'g
     \<Rightarrow> gerror option \<times> string list \<times> reconcile_result \<times> 's \<times> 'g" where
  "ingest ops newID now md byFP [] seen res s g = (None, seen, res, s, g)"
| "ingest ops newID now md byFP (f # fs) seen res s g =
     (case ingest_one ops newID now md byFP f seen res s g of
        (Some e, seen, res, s, g) \<Rightarrow> (Some e, seen, res, s, g)
      | (None, seen, res, s, g) \<Rightarrow> ingest ops newID now md byFP fs seen res s g)"

subsection \<open>The loop over the records the scan did not report\<close>

definition resolve_one ::
    "'s store_ops \<Rightarrow> gtime \<Rightarrow> module_info \<Rightarrow> string list \<Rightarrow> srecord \<Rightarrow> reconcile_result \<Rightarrow> 's
     \<Rightarrow> gerror option \<times> reconcile_result \<times> 's" where
  "resolve_one ops now md seen r res s =
     (if fFingerprint r \<in> set seen then (None, res, s)
      else if fStatus r = StatusResolved \<or> fStatus r = StatusSuppressed then (None, res, s)
      else
        (let r' = absent_record now md r;
             res = (if rAbsentStreak r + 1 \<ge> ResolveAfterOrDefault md
                    then res\<lparr>Resolved := Resolved res @ [finding_of r']\<rparr> else res)
         in case sUpsert ops r' s of (err, s) \<Rightarrow> (err, res, s)))"

fun auto_resolve ::
    "'s store_ops \<Rightarrow> gtime \<Rightarrow> module_info \<Rightarrow> string list \<Rightarrow> srecord list \<Rightarrow> reconcile_result \<Rightarrow> 's
     \<Rightarrow> gerror option \<times> reconcile_result \<times> 's" where
  "auto_resolve ops now md seen [] res s = (None, res, s)"
| "auto_resolve ops now md seen (r # rs) res s =
     (case resolve_one ops now md seen r res s of
        (Some e, res, s) \<Rightarrow> (Some e, res, s)
      | (None, res, s) \<Rightarrow> auto_resolve ops now md seen rs res s)"

text \<open>\<open>byFP\<close>: the listed records by fingerprint, a later one replacing an earlier one.\<close>

definition index_by_fp :: "srecord list \<Rightarrow> (string \<rightharpoonup> srecord)" where
  "index_by_fp existing = foldl (\<lambda>m r. m(fFingerprint r \<mapsto> r)) Map.empty existing"

definition Reconcile ::
    "'s store_ops \<Rightarrow> (gtime \<Rightarrow> 'g \<Rightarrow> (gerror + string) \<times> 'g) \<Rightarrow> gtime \<Rightarrow> module_info \<Rightarrow> string
     \<Rightarrow> finding list \<Rightarrow> 's \<Rightarrow> 'g \<Rightarrow> gerror option \<times> reconcile_result \<times> 's \<times> 'g" where
  "Reconcile ops newID now md target fresh s g =
     (case sListByTarget ops (miID md) target s of
        (Inl e, s) \<Rightarrow> (Some e, empty_result, s, g)
      | (Inr existing, s) \<Rightarrow>
          (case ingest ops newID now md (index_by_fp existing) fresh [] empty_result s g of
             (Some e, seen, res, s, g) \<Rightarrow> (Some e, res, s, g)
           | (None, seen, res, s, g) \<Rightarrow>
               (case auto_resolve ops now md seen existing res s of
                  (err, res, s) \<Rightarrow> (err, res, s, g))))"

text \<open>A scan touches the store through these two operations only.\<close>

lemma Reconcile_keeps:
  assumes list: "\<And>m t s. P s \<Longrightarrow> P (snd (sListByTarget ops m t s))"
    and upsert: "\<And>r s. P s \<Longrightarrow> P (snd (sUpsert ops r s))"
    and "P s" "Reconcile ops newID now md target fresh s g = (e, res, s', g')"
  shows "P s'"
proof -
  have up: "P s'" if "P s" "sUpsert ops r s = (e, s')" for r s e s' using upsert [OF that(1), of r] that(2) by simp
  have one: "P s'" if "P s" "ingest_one ops newID now md m f seen res s g = (e, seen', res', s', g')"
    for m f seen res s g e seen' res' s' g'
    using that by (auto simp: ingest_one_def Let_def split: option.splits prod.splits sum.splits dest: up)
  have all: "P s'" if "P s" "ingest ops newID now md m fs seen res s g = (e, seen', res', s', g')"
    for m fs seen res s g e seen' res' s' g'
    using that
    by (induction fs arbitrary: seen res s g) (auto split: prod.splits option.splits dest: one)
  have res: "P s'" if "P s" "resolve_one ops now md seen r res s = (e, res', s')" for seen r res s e res' s'
    using that by (auto simp: resolve_one_def Let_def split: if_splits prod.splits dest: up)
  have resolve: "P s'" if "P s" "auto_resolve ops now md seen rs res s = (e, res', s')" for seen rs res s e res' s'
    using that by (induction rs arbitrary: res s) (auto split: prod.splits option.splits dest: res)
  obtain lst s1 where l: "sListByTarget ops (miID md) target s = (lst, s1)" by fastforce
  then have "P s1" using list [OF assms(3), of "miID md" target] by simp
  then show ?thesis
    using assms(4) by (auto simp: Reconcile_def l split: sum.splits prod.splits option.splits dest: all resolve)
qed

subsection \<open>What one record goes through\<close>

lemma capEvidence_fields [simp]:
  "fFingerprint (capEvidence f) = fFingerprint f" "fTarget (capEvidence f) = fTarget f"
  "fCheck (capEvidence f) = fCheck f" "fTitle (capEvidence f) = fTitle f"
  "fSeverity (capEvidence f) = fSeverity f" "fRemediation (capEvidence f) = fRemediation f"
  "fGroupID (capEvidence f) = fGroupID f" "fResolvedAt (capEvidence f) = fResolvedAt f"
  by (auto simp: capEvidence_def split: option.splits)

lemma opened_record_fields [simp]:
  "fFingerprint (opened_record now md i f) = fFingerprint f"
  "fTarget (opened_record now md i f) = fTarget f"
  "fModule (opened_record now md i f) = miID md"
  "fStatus (opened_record now md i f) = StatusOpen"
  "fID (opened_record now md i f) = i"
  "fFirstSeen (opened_record now md i f) = now"
  "fLastSeen (opened_record now md i f) = now"
  "rAbsentStreak (opened_record now md i f) = 0"
  by (simp_all add: opened_record_def)

lemma merged_record_fields [simp]:
  "fFingerprint (merged_record now r f) = fFingerprint r"
  "fTarget (merged_record now r f) = fTarget r"
  "fModule (merged_record now r f) = fModule r"
  "fStatus (merged_record now r f) = (if fStatus r = StatusResolved then StatusOpen else fStatus r)"
  "fID (merged_record now r f) = fID r" "fCheck (merged_record now r f) = fCheck r"
  "fFirstSeen (merged_record now r f) = fFirstSeen r"
  "fLastSeen (merged_record now r f) = now"
  "fSeverity (merged_record now r f) = fSeverity f"
  "fResolvedAt (merged_record now r f) =
     (if fStatus r = StatusResolved then None else fResolvedAt r)"
  "rAbsentStreak (merged_record now r f) = 0"
  by (simp_all add: merged_record_def Let_def)

lemma absent_record_fields [simp]:
  "fEvidence (absent_record now md r) = fEvidence r"
  "fFingerprint (absent_record now md r) = fFingerprint r"
  "fTarget (absent_record now md r) = fTarget r"
  "fModule (absent_record now md r) = fModule r"
  "fStatus (absent_record now md r) =
     (if rAbsentStreak r + 1 \<ge> ResolveAfterOrDefault md then StatusResolved else fStatus r)"
  "fID (absent_record now md r) = fID r" "fCheck (absent_record now md r) = fCheck r"
  "fFirstSeen (absent_record now md r) = fFirstSeen r"
  "fLastSeen (absent_record now md r) = fLastSeen r"
  "fSeverity (absent_record now md r) = fSeverity r"
  "fResolvedAt (absent_record now md r) =
     (if rAbsentStreak r + 1 \<ge> ResolveAfterOrDefault md then Some now else fResolvedAt r)"
  "rAbsentStreak (absent_record now md r) = rAbsentStreak r + 1"
  by (simp_all add: absent_record_def Let_def)

lemma rkey_records [simp]:
  "rkey (opened_record now md i f) = (miID md, fFingerprint f)"
  "rkey (merged_record now r f) = rkey r" "rkey (absent_record now md r) = rkey r"
  by (simp_all add: rkey_def)

lemma same_identity_records [simp]:
  "same_identity r (merged_record now r f)" "same_identity r (absent_record now md r)"
  by (simp_all add: same_identity_def)

text \<open>The findings of a scan that pass the ingest check, and the rejections of the others.\<close>

definition accepted :: "finding list \<Rightarrow> finding list" where
  "accepted fs = filter (\<lambda>f. ValidateForIngest f = None) fs"

definition rejections :: "finding list \<Rightarrow> (finding \<times> ingest_error) list" where
  "rejections fs = map (\<lambda>f. (f, the (ValidateForIngest f)))
     (filter (\<lambda>f. ValidateForIngest f \<noteq> None) fs)"

definition fps :: "finding list \<Rightarrow> string set" where
  "fps fs = fFingerprint ` set (accepted fs)"

lemma accepted_simps [simp]:
  "accepted [] = []"
  "accepted (f # fs) = (if ValidateForIngest f = None then f # accepted fs else accepted fs)"
  by (simp_all add: accepted_def)

lemma rejections_simps [simp]:
  "rejections [] = []"
  "rejections (f # fs) =
     (case ValidateForIngest f of None \<Rightarrow> rejections fs | Some e \<Rightarrow> (f, e) # rejections fs)"
  by (auto simp: rejections_def split: option.splits)

lemma fps_simps [simp]:
  "fps [] = {}"
  "fps (f # fs) = (if ValidateForIngest f = None then insert (fFingerprint f) (fps fs) else fps fs)"
  by (simp_all add: fps_def)

text \<open>Whether a reported finding is announced as newly open, given what the store knew.\<close>

definition announces :: "srecord option \<Rightarrow> bool" where
  "announces old = (case old of None \<Rightarrow> True | Some r \<Rightarrow> fStatus r = StatusResolved)"

text \<open>A reported finding takes the record \<open>old\<close> the store knew to \<open>new\<close>.\<close>

definition reported ::
    "(srecord \<Rightarrow> srecord) \<Rightarrow> gtime \<Rightarrow> module_info \<Rightarrow> finding \<Rightarrow> srecord option \<Rightarrow> srecord option \<Rightarrow> bool"
  where
  "reported canon now md f old new \<longleftrightarrow>
     (case old of
        None \<Rightarrow> \<exists>i. new = Some (canon (opened_record now md i (capEvidence f)))
      | Some r \<Rightarrow> new = Some (canon (merged_record now r (capEvidence f))))"

text \<open>Whether a record that was not reported is counted as absent.\<close>

definition lapses :: "srecord \<Rightarrow> bool" where
  "lapses r \<longleftrightarrow> fStatus r \<noteq> StatusResolved \<and> fStatus r \<noteq> StatusSuppressed"

definition resolves :: "module_info \<Rightarrow> srecord \<Rightarrow> bool" where
  "resolves md r \<longleftrightarrow> lapses r \<and> rAbsentStreak r + 1 \<ge> ResolveAfterOrDefault md"

subsection \<open>What the first loop leaves\<close>

text \<open>
  The loop over findings \<open>fs\<close> took the view \<open>v\<close> to \<open>v'\<close> and the result \<open>res\<close> to \<open>res'\<close>.
\<close>

definition ingest_post where
  "ingest_post canon now md fs (v :: store_view) (v' :: store_view) seen seen' res res' \<longleftrightarrow>
     set seen' = set seen \<union> fps fs \<and>
     Rejected res' = Rejected res @ rejections fs \<and>
     Resolved res' = Resolved res \<and>
     map fFingerprint (NewlyOpen res') = map fFingerprint (NewlyOpen res) @
       map fFingerprint (filter (\<lambda>f. announces (v (miID md, fFingerprint f))) (accepted fs)) \<and>
     (\<forall>x \<in> set (NewlyOpen res'). x \<in> set (NewlyOpen res) \<or> fStatus x = StatusOpen) \<and>
     (\<forall>m fp. m \<noteq> miID md \<or> fp \<notin> fps fs \<longrightarrow> v' (m, fp) = v (m, fp)) \<and>
     (\<forall>f \<in> set (accepted fs).
        reported canon now md f (v (miID md, fFingerprint f)) (v' (miID md, fFingerprint f)))"

lemma ingest_post_Nil: "ingest_post canon now md [] v v seen seen res res"
  by (simp add: ingest_post_def)

lemma ingest_post_rejected:
  assumes "ValidateForIngest f = Some e"
    and "ingest_post canon now md fs v v' seen seen' (res\<lparr>Rejected := Rejected res @ [(f, e)]\<rparr>) res'"
  shows "ingest_post canon now md (f # fs) v v' seen seen' res res'"
  using assms by (simp add: ingest_post_def)

lemma ingest_post_accepted:
  assumes valid: "ValidateForIngest f = None"
    and fresh: "fFingerprint f \<notin> fps fs"
    and v1: "v1 = v((miID md, fFingerprint f) \<mapsto> canon r)"
    and r: "reported canon now md f (v (miID md, fFingerprint f)) (Some (canon r))"
      "announces (v (miID md, fFingerprint f)) \<Longrightarrow> fStatus r = StatusOpen"
      "fFingerprint r = fFingerprint f"
    and res1: "res1 = (if announces (v (miID md, fFingerprint f))
      then res\<lparr>NewlyOpen := NewlyOpen res @ [finding_of r]\<rparr> else res)"
    and post: "ingest_post canon now md fs v1 v' (fFingerprint f # seen) seen' res1 res'"
  shows "ingest_post canon now md (f # fs) v v' seen seen' res res'"
proof -
  let ?k = "(miID md, fFingerprint f)"
  have same: "v1 (miID md, fp) = v (miID md, fp)" if "fp \<in> fps fs" for fp
    using that fresh v1 by auto
  have ne: "g \<in> set (accepted fs) \<Longrightarrow> fFingerprint g \<in> fps fs" for g
    by (simp add: fps_def)
  have "filter (\<lambda>g. announces (v1 (miID md, fFingerprint g))) (accepted fs) =
      filter (\<lambda>g. announces (v (miID md, fFingerprint g))) (accepted fs)"
    by (rule filter_cong) (simp_all add: ne same)
  moreover have "reported canon now md g (v (miID md, fFingerprint g)) (v' (miID md, fFingerprint g))"
    if "g \<in> set (accepted fs)" for g
  proof -
    have "reported canon now md g (v1 (miID md, fFingerprint g)) (v' (miID md, fFingerprint g))"
      using post that by (simp add: ingest_post_def)
    then show ?thesis by (simp only: same [OF ne [OF that]])
  qed
  moreover have "v' ?k = Some (canon r)"
    using post fresh v1 by (simp add: ingest_post_def)
  moreover have "v' (m, fp) = v (m, fp)" if "m \<noteq> miID md \<or> fp \<notin> fps (f # fs)" for m fp
    using post that v1 valid by (auto simp: ingest_post_def)
  ultimately show ?thesis
    using post r valid
    by (cases "announces (v ?k)") (auto simp: ingest_post_def res1)
qed

subsection \<open>What the second loop leaves\<close>

definition resolve_post where
  "resolve_post canon now md rs seen (v :: store_view) (v' :: store_view) res res' \<longleftrightarrow>
     NewlyOpen res' = NewlyOpen res \<and> Rejected res' = Rejected res \<and>
     Resolved res' = Resolved res @ map (\<lambda>r. finding_of (absent_record now md r))
       (filter (\<lambda>r. fFingerprint r \<notin> seen \<and> resolves md r) rs) \<and>
     (\<forall>m fp. (\<forall>r \<in> set rs. fFingerprint r \<notin> seen \<and> lapses r \<longrightarrow>
        (m, fp) \<noteq> (miID md, fFingerprint r)) \<longrightarrow> v' (m, fp) = v (m, fp)) \<and>
     (\<forall>r \<in> set rs. fFingerprint r \<notin> seen \<and> lapses r \<longrightarrow>
        v' (miID md, fFingerprint r) = Some (canon (absent_record now md r)))"

lemma resolve_post_skip:
  assumes "resolve_post canon now md rs seen v v' res res'" "fFingerprint r \<in> seen \<or> \<not> lapses r"
  shows "resolve_post canon now md (r # rs) seen v v' res res'"
  using assms by (auto simp: resolve_post_def resolves_def)

lemma resolve_post_lapse:
  assumes post: "resolve_post canon now md rs seen v1 v' res1 res'"
    and r: "fFingerprint r \<notin> seen" "lapses r" "fFingerprint r \<notin> fFingerprint ` set rs"
    and v1: "v1 = v((miID md, fFingerprint r) \<mapsto> canon (absent_record now md r))"
    and res1: "res1 = (if resolves md r
      then res\<lparr>Resolved := Resolved res @ [finding_of (absent_record now md r)]\<rparr> else res)"
  shows "resolve_post canon now md (r # rs) seen v v' res res'"
proof -
  have frame: "v' (m, fp) = v1 (m, fp)"
    if "\<forall>q \<in> set rs. fFingerprint q \<notin> seen \<and> lapses q \<longrightarrow> (m, fp) \<noteq> (miID md, fFingerprint q)"
    for m fp
    using post that unfolding resolve_post_def by blast
  have "v' (miID md, fFingerprint r) = v1 (miID md, fFingerprint r)"
    using r(3) by (intro frame) auto
  moreover have "v' (m, fp) = v (m, fp)"
    if "\<forall>q \<in> set (r # rs). fFingerprint q \<notin> seen \<and> lapses q \<longrightarrow> (m, fp) \<noteq> (miID md, fFingerprint q)"
    for m fp
  proof -
    have "v' (m, fp) = v1 (m, fp)" using that by (intro frame) simp
    moreover have "(m, fp) \<noteq> (miID md, fFingerprint r)" using that r by simp
    ultimately show ?thesis using v1 by auto
  qed
  ultimately show ?thesis
    using post r v1 by (cases "resolves md r") (auto simp: resolve_post_def res1)
qed

subsection \<open>The whole scan\<close>

lemma index_by_fp_map_of:
  assumes "distinct (map fFingerprint rs)"
  shows "index_by_fp rs = map_of (map (\<lambda>r. (fFingerprint r, r)) rs)"
proof -
  have "foldl (\<lambda>m r. m(fFingerprint r \<mapsto> r)) m0 rs = m0 ++ map_of (map (\<lambda>r. (fFingerprint r, r)) rs)"
    for m0 using assms
  proof (induction rs arbitrary: m0)
    case (Cons r rs)
    then have "map_of (map (\<lambda>r. (fFingerprint r, r)) rs) (fFingerprint r) = None"
      by (auto simp: map_of_eq_None_iff)
    with Cons show ?case by (auto simp: map_add_def fun_eq_iff)
  qed simp
  then show ?thesis by (simp add: index_by_fp_def)
qed

text \<open>
  What a scan's findings must satisfy: no fingerprint twice, and none that the store holds under
  another target.
\<close>

definition scan_ok :: "store_view \<Rightarrow> module_info \<Rightarrow> string \<Rightarrow> finding list \<Rightarrow> bool" where
  "scan_ok v md target fresh \<longleftrightarrow> distinct (map fFingerprint (accepted fresh)) \<and>
     (\<forall>fp \<in> fps fresh. \<forall>r. v (miID md, fp) = Some r \<longrightarrow> fTarget r = target)"

text \<open>The abstract effect of a scan, record by record.\<close>

definition scan_effect ::
    "(srecord \<Rightarrow> srecord) \<Rightarrow> gtime \<Rightarrow> module_info \<Rightarrow> string \<Rightarrow> finding list
     \<Rightarrow> store_view \<Rightarrow> store_view \<Rightarrow> bool" where
  "scan_effect canon now md target fresh v v' \<longleftrightarrow>
     (\<forall>f \<in> set (accepted fresh).
        reported canon now md f (v (miID md, fFingerprint f)) (v' (miID md, fFingerprint f))) \<and>
     (\<forall>m fp. m \<noteq> miID md \<or> fp \<notin> fps fresh \<longrightarrow>
        v' (m, fp) = map_option
          (\<lambda>r. if m = miID md \<and> fTarget r = target \<and> lapses r
               then absent_record now md r else r) (v (m, fp)))"

context record_store
begin

text \<open>An upsert of a record that is new at its key, or that keeps the identity of the known one.\<close>

lemma upsert_at:
  assumes "invar s" "module_ok m" "rkey r = (m, fp)"
    and "\<And>old. view s (m, fp) = Some old \<Longrightarrow> same_identity old r"
    and "sUpsert ops r s = (err, s1)"
  shows "invar s1" "view s1 = (if err = None then (view s)((m, fp) \<mapsto> canon r) else view s)"
proof -
  have m: "module_ok (fModule r)" using assms(2,3) by (simp add: rkey_def)
  have i: "identity_kept (view s) r" using assms(3,4) by (simp add: identity_kept_def)
  show "invar s1" by (rule upsert_invar [OF assms(1) m assms(5)])
  show "view s1 = (if err = None then (view s)((m, fp) \<mapsto> canon r) else view s)"
    using upsert_ok [OF assms(1) m i] upsert_fails [OF assms(1)] assms(3,5)
    by (cases err) auto
qed

lemma ingest_one_accepted:
  assumes run: "ingest_one ops newID now md byFP f seen res s g = (err, seen1, res1, s1, g1)"
    and inv: "invar s" "module_ok (miID md)" and valid: "ValidateForIngest f = None"
    and by_f: "byFP (fFingerprint f) = view s (miID md, fFingerprint f)"
  obtains r where "invar s1" "fFingerprint r = fFingerprint f"
    "reported canon now md f (view s (miID md, fFingerprint f)) (Some (canon r))"
    "announces (view s (miID md, fFingerprint f)) \<Longrightarrow> fStatus r = StatusOpen"
    "view s1 = (if err = None then (view s)((miID md, fFingerprint f) \<mapsto> canon r) else view s)"
    "seen1 = fFingerprint f # seen"
    "err = None \<Longrightarrow> res1 = (if announces (view s (miID md, fFingerprint f))
       then res\<lparr>NewlyOpen := NewlyOpen res @ [finding_of r]\<rparr> else res)"
proof (cases "view s (miID md, fFingerprint f)")
  case None
  show ?thesis
  proof (cases "newID now g")
    case (Pair idr g')
    show ?thesis
    proof (cases idr)
      case (Inl e)
      show ?thesis
        by (rule that [of "opened_record now md [] (capEvidence f)"])
          (use run inv valid by_f None Pair Inl in
            \<open>auto simp: ingest_one_def Let_def reported_def announces_def\<close>)
    next
      case (Inr i)
      let ?r = "opened_record now md i (capEvidence f)"
      have up: "sUpsert ops ?r s = (err, s1)" and
        out: "seen1 = fFingerprint f # seen"
        "err = None \<Longrightarrow> res1 = res\<lparr>NewlyOpen := NewlyOpen res @ [finding_of ?r]\<rparr>"
        using run valid by_f None Pair Inr
        by (auto simp: ingest_one_def Let_def split: prod.splits option.splits)
      show ?thesis
        using upsert_at [OF inv _ _ up, of "fFingerprint f"] None out
        by (intro that [of ?r]) (auto simp: reported_def announces_def)
    qed
  qed
next
  case (Some prev)
  let ?r = "merged_record now prev (capEvidence f)"
  have up: "sUpsert ops ?r s = (err, s1)" and
    out: "seen1 = fFingerprint f # seen"
    "err = None \<Longrightarrow> res1 = (if fStatus prev = StatusResolved
       then res\<lparr>NewlyOpen := NewlyOpen res @ [finding_of ?r]\<rparr> else res)"
    using run valid by_f Some
    by (auto simp: ingest_one_def Let_def split: prod.splits option.splits if_splits)
  have k: "rkey prev = (miID md, fFingerprint f)" by (rule view_rkey [OF inv(1) Some])
  show ?thesis
    using upsert_at [OF inv _ _ up, of "fFingerprint f"] Some out k
    by (intro that [of ?r]) (auto simp: reported_def announces_def rkey_def)
qed

lemma ingest_one_rejected:
  "ValidateForIngest f = Some e \<Longrightarrow> ingest_one ops newID now md byFP f seen res s g =
     (None, seen, res\<lparr>Rejected := Rejected res @ [(f, e)]\<rparr>, s, g)"
  by (simp add: ingest_one_def)

lemma ingest_ok:
  assumes "ingest ops newID now md byFP fs seen res s g = (None, seen', res', s', g')"
    and "invar s" "module_ok (miID md)"
    and "\<And>fp. fp \<in> fps fs \<Longrightarrow> byFP fp = view s (miID md, fp)"
    and "distinct (map fFingerprint (accepted fs))"
  shows "invar s' \<and> ingest_post canon now md fs (view s) (view s') seen seen' res res'"
  using assms
proof (induction fs arbitrary: seen res s g)
  case Nil
  then show ?case by (simp add: ingest_post_Nil)
next
  case (Cons f fs)
  let ?fp = "fFingerprint f"
  let ?k = "(miID md, ?fp)"
  obtain seen1 res1 s1 g1
    where one: "ingest_one ops newID now md byFP f seen res s g = (None, seen1, res1, s1, g1)"
      and rest: "ingest ops newID now md byFP fs seen1 res1 s1 g1 = (None, seen', res', s', g')"
    using Cons.prems(1) by (auto split: prod.splits option.splits)
  show ?case
  proof (cases "ValidateForIngest f")
    case (Some e)
    have "\<And>fp. fp \<in> fps fs \<Longrightarrow> byFP fp = view s (miID md, fp)"
      and "distinct (map fFingerprint (accepted fs))"
      using Cons.prems(4,5) Some by simp_all
    with Cons.IH [OF rest] one Some Cons.prems(2,3) show ?thesis
      by (simp add: ingest_one_rejected ingest_post_rejected)
  next
    case None
    have fresh: "?fp \<notin> fps fs" and dist: "distinct (map fFingerprint (accepted fs))"
      using Cons.prems(5) None by (auto simp: fps_def)
    have "byFP ?fp = view s ?k" using Cons.prems(4) None by simp
    from ingest_one_accepted [OF one Cons.prems(2,3) None this] obtain r
      where i1: "invar s1" and m: "fFingerprint r = ?fp"
        and rep: "reported canon now md f (view s ?k) (Some (canon r))"
        and st: "announces (view s ?k) \<Longrightarrow> fStatus r = StatusOpen"
        and v1: "view s1 = (view s)(?k \<mapsto> canon r)" and seen1: "seen1 = ?fp # seen"
        and res1: "res1 = (if announces (view s ?k)
          then res\<lparr>NewlyOpen := NewlyOpen res @ [finding_of r]\<rparr> else res)"
      by auto
    have "byFP fp = view s1 (miID md, fp)" if "fp \<in> fps fs" for fp
      using that fresh v1 Cons.prems(4) None by auto
    from Cons.IH [OF rest i1 Cons.prems(3) this dist]
    have "invar s'" and "ingest_post canon now md fs (view s1) (view s') seen1 seen' res1 res'"
      by simp_all
    then show ?thesis
      using ingest_post_accepted [OF None fresh v1 rep st m res1] seen1 by simp
  qed
qed

text \<open>
  Whatever the outcome of the first loop, a record is as it was or took the whole step of one
  accepted finding.
\<close>

lemma ingest_any:
  assumes "ingest ops newID now md byFP fs seen res s g = (err, seen', res', s', g')"
    and "invar s" "module_ok (miID md)"
    and "\<And>fp. fp \<in> fps fs \<Longrightarrow> byFP fp = view s (miID md, fp)"
    and "distinct (map fFingerprint (accepted fs))"
  shows "invar s' \<and> (\<forall>m fp. view s' (m, fp) = view s (m, fp) \<or>
    (m = miID md \<and> (\<exists>f \<in> set (accepted fs). fFingerprint f = fp \<and>
       reported canon now md f (view s (m, fp)) (view s' (m, fp)))))"
  using assms
proof (induction fs arbitrary: seen res s g)
  case Nil
  then show ?case by simp
next
  case (Cons f fs)
  let ?fp = "fFingerprint f"
  let ?k = "(miID md, ?fp)"
  obtain e1 seen1 res1 s1 g1
    where one: "ingest_one ops newID now md byFP f seen res s g = (e1, seen1, res1, s1, g1)"
    using prod_cases5 by metis
  have stop: "e1 \<noteq> None \<Longrightarrow> s' = s1" and rest: "e1 = None \<Longrightarrow>
      ingest ops newID now md byFP fs seen1 res1 s1 g1 = (err, seen', res', s', g')"
    using Cons.prems(1) one by auto
  show ?case
  proof (cases "ValidateForIngest f")
    case (Some e)
    have "\<And>fp. fp \<in> fps fs \<Longrightarrow> byFP fp = view s (miID md, fp)"
      and "distinct (map fFingerprint (accepted fs))"
      using Cons.prems(4,5) Some by simp_all
    with Cons.IH [OF rest] one Some Cons.prems(2,3) show ?thesis
      by (simp add: ingest_one_rejected)
  next
    case None
    have fresh: "?fp \<notin> fps fs" and dist: "distinct (map fFingerprint (accepted fs))"
      using Cons.prems(5) None by (auto simp: fps_def)
    have "byFP ?fp = view s ?k" using Cons.prems(4) None by simp
    from ingest_one_accepted [OF one Cons.prems(2,3) None this] obtain r
      where i1: "invar s1" and rep: "reported canon now md f (view s ?k) (Some (canon r))"
        and v1: "view s1 = (if e1 = None then (view s)(?k \<mapsto> canon r) else view s)"
      by metis
    show ?thesis
    proof (cases e1)
      case (Some e)
      with i1 v1 stop show ?thesis by simp
    next
      case e1: None
      have "byFP fp = view s1 (miID md, fp)" if "fp \<in> fps fs" for fp
        using that fresh v1 e1 Cons.prems(4) None by auto
      note ih = Cons.IH [OF rest [OF e1] i1 Cons.prems(3) this dist]
      have "view s' ?k = view s1 ?k"
        using ih fresh unfolding fps_def by (metis imageI)
      then have "view s' ?k = Some (canon r)" using v1 e1 by simp
      then have k: "reported canon now md f (view s ?k) (view s' ?k)" using rep by simp
      have "view s' (m, fp) = view s (m, fp) \<or> (m = miID md \<and> (\<exists>g \<in> set (accepted (f # fs)).
          fFingerprint g = fp \<and> reported canon now md g (view s (m, fp)) (view s' (m, fp))))" for m fp
      proof (cases "(m, fp) = ?k")
        case True
        with k None show ?thesis by auto
      next
        case False
        then have "view s1 (m, fp) = view s (m, fp)" using v1 e1 by auto
        moreover have "view s' (m, fp) = view s1 (m, fp) \<or> (m = miID md \<and>
            (\<exists>g \<in> set (accepted fs). fFingerprint g = fp \<and>
              reported canon now md g (view s1 (m, fp)) (view s' (m, fp))))"
          using ih by blast
        ultimately show ?thesis using None by auto
      qed
      with ih show ?thesis by blast
    qed
  qed
qed

lemma resolve_one_lapse:
  assumes "resolve_one ops now md seen r res s = (err, res1, s1)"
    and "invar s" "module_ok (miID md)" "view s (miID md, fFingerprint r) = Some r"
    and "fFingerprint r \<notin> set seen" "lapses r"
  shows "invar s1"
    "view s1 = (if err = None
       then (view s)((miID md, fFingerprint r) \<mapsto> canon (absent_record now md r)) else view s)"
    "res1 = (if resolves md r
       then res\<lparr>Resolved := Resolved res @ [finding_of (absent_record now md r)]\<rparr> else res)"
proof -
  let ?r' = "absent_record now md r"
  have up: "sUpsert ops ?r' s = (err, s1)"
    and "res1 = (if resolves md r then res\<lparr>Resolved := Resolved res @ [finding_of ?r']\<rparr> else res)"
    using assms(1,5,6) by (auto simp: resolve_one_def resolves_def lapses_def Let_def split: prod.splits)
  then show "res1 = (if resolves md r then res\<lparr>Resolved := Resolved res @ [finding_of ?r']\<rparr> else res)"
    by simp
  have k: "rkey ?r' = (miID md, fFingerprint r)"
    using view_rkey [OF assms(2,4)] by simp
  show "invar s1" "view s1 = (if err = None
      then (view s)((miID md, fFingerprint r) \<mapsto> canon ?r') else view s)"
    using upsert_at [OF assms(2,3) k _ up] assms(4) by auto
qed

lemma resolve_one_skip:
  "fFingerprint r \<in> set seen \<or> \<not> lapses r \<Longrightarrow> resolve_one ops now md seen r res s = (None, res, s)"
  by (auto simp: resolve_one_def lapses_def)

lemma auto_resolve_ok:
  assumes "auto_resolve ops now md seen rs res s = (None, res', s')"
    and "invar s" "module_ok (miID md)"
    and "\<And>r. r \<in> set rs \<Longrightarrow> fFingerprint r \<notin> set seen \<Longrightarrow> view s (miID md, fFingerprint r) = Some r"
    and "distinct (map fFingerprint rs)"
  shows "invar s' \<and> resolve_post canon now md rs (set seen) (view s) (view s') res res'"
  using assms
proof (induction rs arbitrary: res s)
  case Nil
  then show ?case by (simp add: resolve_post_def)
next
  case (Cons r rs)
  obtain res1 s1 where one: "resolve_one ops now md seen r res s = (None, res1, s1)"
    and rest: "auto_resolve ops now md seen rs res1 s1 = (None, res', s')"
    using Cons.prems(1) by (auto split: prod.splits option.splits)
  have fresh: "fFingerprint r \<notin> fFingerprint ` set rs" and dist: "distinct (map fFingerprint rs)"
    using Cons.prems(5) by auto
  show ?case
  proof (cases "fFingerprint r \<in> set seen \<or> \<not> lapses r")
    case True
    then have "res1 = res" "s1 = s" using one by (simp_all add: resolve_one_skip)
    with Cons.IH [OF rest] Cons.prems(2-4) dist True show ?thesis
      by (simp add: resolve_post_skip)
  next
    case False
    then have old: "view s (miID md, fFingerprint r) = Some r" using Cons.prems(4) by simp
    note step = resolve_one_lapse [OF one Cons.prems(2,3) old, simplified] False
    have "view s1 (miID md, fFingerprint q) = Some q"
      if "q \<in> set rs" "fFingerprint q \<notin> set seen" for q
    proof -
      have "fFingerprint q \<noteq> fFingerprint r" using that(1) fresh by (metis imageI)
      then show ?thesis using that step Cons.prems(4) [of q] by simp
    qed
    with Cons.IH [OF rest _ Cons.prems(3) _ dist] step fresh show ?thesis
      by (auto intro: resolve_post_lapse)
  qed
qed

lemma auto_resolve_any:
  assumes "auto_resolve ops now md seen rs res s = (err, res', s')"
    and "invar s" "module_ok (miID md)"
    and "\<And>r. r \<in> set rs \<Longrightarrow> fFingerprint r \<notin> set seen \<Longrightarrow> view s (miID md, fFingerprint r) = Some r"
    and "distinct (map fFingerprint rs)"
  shows "invar s' \<and> (\<forall>m fp. view s' (m, fp) = view s (m, fp) \<or>
    (m = miID md \<and> (\<exists>r \<in> set rs. fFingerprint r = fp \<and> fp \<notin> set seen \<and> lapses r \<and>
       view s' (m, fp) = Some (canon (absent_record now md r)))))"
  using assms
proof (induction rs arbitrary: res s)
  case Nil
  then show ?case by simp
next
  case (Cons r rs)
  obtain e1 res1 s1 where one: "resolve_one ops now md seen r res s = (e1, res1, s1)"
    using prod_cases3 by metis
  have stop: "e1 \<noteq> None \<Longrightarrow> s' = s1" and rest: "e1 = None \<Longrightarrow>
      auto_resolve ops now md seen rs res1 s1 = (err, res', s')"
    using Cons.prems(1) one by auto
  have fresh: "fFingerprint r \<notin> fFingerprint ` set rs" and dist: "distinct (map fFingerprint rs)"
    using Cons.prems(5) by auto
  show ?case
  proof (cases "fFingerprint r \<in> set seen \<or> \<not> lapses r")
    case True
    then have "e1 = None" "res1 = res" "s1 = s" using one by (simp_all add: resolve_one_skip)
    with Cons.IH [OF rest] Cons.prems(2-4) dist show ?thesis by auto
  next
    case False
    let ?k = "(miID md, fFingerprint r)"
    have old: "view s ?k = Some r" using Cons.prems(4) False by simp
    have i1: "invar s1" and v1: "view s1 = (if e1 = None
        then (view s)(?k \<mapsto> canon (absent_record now md r)) else view s)"
      using resolve_one_lapse [OF one Cons.prems(2,3) old] False by auto
    show ?thesis
    proof (cases e1)
      case (Some e)
      with i1 v1 stop show ?thesis by simp
    next
      case None
      have "view s1 (miID md, fFingerprint q) = Some q"
        if "q \<in> set rs" "fFingerprint q \<notin> set seen" for q
      proof -
        have "fFingerprint q \<noteq> fFingerprint r" using that(1) fresh by (metis imageI)
        then show ?thesis using that v1 None Cons.prems(4) [of q] by simp
      qed
      note ih = Cons.IH [OF rest [OF None] i1 Cons.prems(3) this dist]
      have "view s' ?k = view s1 ?k" using ih fresh by (metis imageI)
      then have "view s' ?k = Some (canon (absent_record now md r))" using v1 None by simp
      note k = this
      have "view s' (m, fp) = view s (m, fp) \<or> (m = miID md \<and> (\<exists>q \<in> set (r # rs).
          fFingerprint q = fp \<and> fp \<notin> set seen \<and> lapses q \<and>
          view s' (m, fp) = Some (canon (absent_record now md q))))" for m fp
      proof (cases "(m, fp) = ?k")
        case True
        with k False show ?thesis by auto
      next
        case out: False
        then have "view s1 (m, fp) = view s (m, fp)" using v1 None by auto
        moreover have "view s' (m, fp) = view s1 (m, fp) \<or> (m = miID md \<and>
            (\<exists>q \<in> set rs. fFingerprint q = fp \<and> fp \<notin> set seen \<and> lapses q \<and>
              view s' (m, fp) = Some (canon (absent_record now md q))))"
          using ih by blast
        ultimately show ?thesis by auto
      qed
      with ih show ?thesis by blast
    qed
  qed
qed

lemma reconcile_ok:
  assumes run: "Reconcile ops newID now md target fresh s g = (None, res, s', g')"
    and inv: "invar s" "module_ok (miID md)" and ok: "scan_ok (view s) md target fresh"
  shows "invar s'" "scan_effect canon now md target fresh (view s) (view s')"
    "map fFingerprint (NewlyOpen res) = map fFingerprint
       (filter (\<lambda>f. announces (view s (miID md, fFingerprint f))) (accepted fresh))"
    "\<forall>x \<in> set (NewlyOpen res). fStatus x = StatusOpen"
    "Rejected res = rejections fresh"
    "distinct (map fFingerprint (Resolved res))"
    "set (Resolved res) = {finding_of (absent_record now md r) | r.
       view s (miID md, fFingerprint r) = Some r \<and> fTarget r = target
       \<and> fFingerprint r \<notin> fps fresh \<and> resolves md r}"
proof -
  obtain existing s1 seen res1 s2 g2
    where list: "sListByTarget ops (miID md) target s = (Inr existing, s1)"
      and ing: "ingest ops newID now md (index_by_fp existing) fresh [] empty_result s1 g
        = (None, seen, res1, s2, g')"
      and res: "auto_resolve ops now md seen existing res1 s2 = (None, res, s')"
    using run by (auto simp: Reconcile_def split: prod.splits sum.splits option.splits)
  have i1: "invar s1" and v1: "view s1 = view s" using list_keeps [OF inv(1) list] by simp_all
  have dist: "distinct (map fFingerprint existing)" by (rule list_distinct [OF inv(1) list])
  have look: "index_by_fp existing fp = view s1 (miID md, fp)" if "fp \<in> fps fresh" for fp
    using ok that unfolding index_by_fp_map_of [OF dist] list_lookup [OF inv(1) list] v1
    by (auto simp: scan_ok_def split: option.splits)
  have "distinct (map fFingerprint (accepted fresh))" using ok by (simp add: scan_ok_def)
  from ingest_ok [OF ing i1 inv(2) look this]
  have i2: "invar s2"
    and p1: "ingest_post canon now md fresh (view s) (view s2) [] seen empty_result res1"
    by (simp_all add: v1)
  have seen: "set seen = fps fresh" using p1 by (simp add: ingest_post_def)
  have keep: "view s2 (m, fp) = view s (m, fp)" if "m \<noteq> miID md \<or> fp \<notin> fps fresh" for m fp
    using p1 that unfolding ingest_post_def by blast
  have mem: "r \<in> set existing \<longleftrightarrow> view s (miID md, fFingerprint r) = Some r \<and> fTarget r = target" for r
    by (rule list_mem [OF inv(1) list])
  have "view s2 (miID md, fFingerprint r) = Some r"
    if "r \<in> set existing" "fFingerprint r \<notin> set seen" for r
    using that keep by (simp add: seen mem)
  from auto_resolve_ok [OF res i2 inv(2) this dist]
  show i3: "invar s'" by simp
  from auto_resolve_ok [OF res i2 inv(2) _ dist] keep
  have p2: "resolve_post canon now md existing (fps fresh) (view s2) (view s') res1 res"
    by (simp add: seen mem)
  show "map fFingerprint (NewlyOpen res) = map fFingerprint
       (filter (\<lambda>f. announces (view s (miID md, fFingerprint f))) (accepted fresh))"
    "\<forall>x \<in> set (NewlyOpen res). fStatus x = StatusOpen" "Rejected res = rejections fresh"
    using p1 p2 by (simp_all add: ingest_post_def resolve_post_def empty_result_def)
  have rs: "Resolved res = map (\<lambda>r. finding_of (absent_record now md r))
       (filter (\<lambda>r. fFingerprint r \<notin> fps fresh \<and> resolves md r) existing)"
    using p1 p2 by (simp add: ingest_post_def resolve_post_def empty_result_def)
  then show "set (Resolved res) = {finding_of (absent_record now md r) | r.
       view s (miID md, fFingerprint r) = Some r \<and> fTarget r = target
       \<and> fFingerprint r \<notin> fps fresh \<and> resolves md r}"
    by (auto simp: mem)
  show "distinct (map fFingerprint (Resolved res))"
    unfolding rs using dist by (simp add: comp_def distinct_map_filter)
  have frame: "view s' (m, fp) = view s2 (m, fp)"
    if "\<forall>r \<in> set existing. fFingerprint r \<notin> fps fresh \<and> lapses r \<longrightarrow> (m, fp) \<noteq> (miID md, fFingerprint r)"
    for m fp
    using p2 that unfolding resolve_post_def by blast
  have lapse: "view s' (miID md, fFingerprint r) = Some (absent_record now md r)"
    if r: "r \<in> set existing" "fFingerprint r \<notin> fps fresh" "lapses r" for r
  proof -
    have "view s' (miID md, fFingerprint r) = Some (canon (absent_record now md r))"
      using p2 r unfolding resolve_post_def by blast
    moreover have "view s (miID md, fFingerprint r) = Some r" using r(1) mem by blast
    from canon_kept [OF inv(1) this] have "canon (absent_record now md r) = absent_record now md r" by simp
    ultimately show ?thesis by simp
  qed
  show "scan_effect canon now md target fresh (view s) (view s')"
    unfolding scan_effect_def
  proof (intro conjI ballI allI impI)
    fix f
    assume f: "f \<in> set (accepted fresh)"
    then have "view s' (miID md, fFingerprint f) = view s2 (miID md, fFingerprint f)"
      by (intro frame) (auto simp: fps_def, metis imageI)
    moreover have "reported canon now md f (view s (miID md, fFingerprint f))
        (view s2 (miID md, fFingerprint f))"
      using p1 f unfolding ingest_post_def by blast
    ultimately show "reported canon now md f (view s (miID md, fFingerprint f))
        (view s' (miID md, fFingerprint f))" by simp
  next
    fix m fp
    assume out: "m \<noteq> miID md \<or> fp \<notin> fps fresh"
    let ?g = "\<lambda>r. if m = miID md \<and> fTarget r = target \<and> lapses r
      then absent_record now md r else r"
    show "view s' (m, fp) = map_option ?g (view s (m, fp))"
    proof (cases "\<exists>r \<in> set existing. lapses r \<and> (m, fp) = (miID md, fFingerprint r)")
      case True
      then obtain r where r: "r \<in> set existing" "lapses r" "m = miID md" "fp = fFingerprint r"
        by auto
      with lapse [of r] out show ?thesis by (auto simp: mem)
    next
      case False
      then have "view s' (m, fp) = view s (m, fp)"
        using frame [of m fp] keep [OF out] by auto
      moreover have "?g r = r" if "view s (m, fp) = Some r" for r
        using False that view_key [OF inv(1), of m fp r] by (auto simp: mem)
      ultimately show ?thesis by (cases "view s (m, fp)") simp_all
    qed
  qed
qed

text \<open>
  Whatever the outcome of a scan: the store stays well-formed, and each record is as it was or
  took the one step that a scan without errors gives it.
\<close>

lemma reconcile_any:
  assumes run: "Reconcile ops newID now md target fresh s g = (err, res, s', g')"
    and inv: "invar s" "module_ok (miID md)" and ok: "scan_ok (view s) md target fresh"
  shows "invar s' \<and> (\<forall>m fp. view s' (m, fp) = view s (m, fp) \<or> m = miID md \<and>
     ((\<exists>f \<in> set (accepted fresh). fFingerprint f = fp \<and>
         reported canon now md f (view s (m, fp)) (view s' (m, fp))) \<or>
      (\<exists>r. view s (m, fp) = Some r \<and> fTarget r = target \<and> lapses r \<and> fp \<notin> fps fresh \<and>
         view s' (m, fp) = Some (absent_record now md r))))"
proof (cases "sListByTarget ops (miID md) target s")
  case (Pair lr s1)
  show ?thesis
  proof (cases lr)
    case (Inl e)
    with run Pair list_keeps [OF inv(1) Pair] show ?thesis by (simp add: Reconcile_def)
  next
    case (Inr existing)
    note list = Pair [unfolded Inr]
    have i1: "invar s1" and v1: "view s1 = view s" using list_keeps [OF inv(1) Pair] by simp_all
    have dist: "distinct (map fFingerprint existing)" by (rule list_distinct [OF inv(1) list])
    have look: "index_by_fp existing fp = view s1 (miID md, fp)" if "fp \<in> fps fresh" for fp
      using ok that unfolding index_by_fp_map_of [OF dist] list_lookup [OF inv(1) list] v1
      by (auto simp: scan_ok_def split: option.splits)
    have d: "distinct (map fFingerprint (accepted fresh))" using ok by (simp add: scan_ok_def)
    obtain e1 seen res1 s2 g2 where ing: "ingest ops newID now md (index_by_fp existing) fresh []
        empty_result s1 g = (e1, seen, res1, s2, g2)"
      using prod_cases5 by metis
    have any1: "invar s2" "\<And>m fp. view s2 (m, fp) = view s (m, fp) \<or> (m = miID md \<and>
        (\<exists>f \<in> set (accepted fresh). fFingerprint f = fp \<and>
           reported canon now md f (view s (m, fp)) (view s2 (m, fp))))"
      using ingest_any [OF ing i1 inv(2) look d] by (simp_all add: v1)
    show ?thesis
    proof (cases e1)
      case (Some e)
      with run list ing any1 show ?thesis by (auto simp: Reconcile_def)
    next
      case None
      have res: "auto_resolve ops now md seen existing res1 s2 = (err, res, s')"
        using run list ing None by (auto simp: Reconcile_def split: prod.splits)
      from ingest_ok [OF ing [unfolded None] i1 inv(2) look d] have i2: "invar s2"
        and p1: "ingest_post canon now md fresh (view s) (view s2) [] seen empty_result res1"
        by (simp_all add: v1)
      have seen: "set seen = fps fresh" using p1 by (simp add: ingest_post_def)
      have keep: "view s2 (m, fp) = view s (m, fp)" if "m \<noteq> miID md \<or> fp \<notin> fps fresh" for m fp
        using p1 that unfolding ingest_post_def by blast
      have mem: "r \<in> set existing \<longleftrightarrow>
          view s (miID md, fFingerprint r) = Some r \<and> fTarget r = target" for r
        by (rule list_mem [OF inv(1) list])
      have "view s2 (miID md, fFingerprint r) = Some r"
        if "r \<in> set existing" "fFingerprint r \<notin> set seen" for r
        using that keep by (simp add: seen mem)
      from auto_resolve_any [OF res i2 inv(2) this dist]
      have i3: "invar s'" and any2: "\<And>m fp. view s' (m, fp) = view s2 (m, fp) \<or>
          (m = miID md \<and> (\<exists>r \<in> set existing. fFingerprint r = fp \<and> fp \<notin> set seen \<and> lapses r \<and>
           view s' (m, fp) = Some (canon (absent_record now md r))))" by auto
      have "view s' (m, fp) = view s (m, fp) \<or> m = miID md \<and>
         ((\<exists>f \<in> set (accepted fresh). fFingerprint f = fp \<and>
             reported canon now md f (view s (m, fp)) (view s' (m, fp))) \<or>
          (\<exists>r. view s (m, fp) = Some r \<and> fTarget r = target \<and> lapses r \<and> fp \<notin> fps fresh \<and>
             view s' (m, fp) = Some (absent_record now md r)))" for m fp
      proof -
        have "view s (m, fp) = Some r" "fTarget r = target"
          "canon (absent_record now md r) = absent_record now md r"
          if "m = miID md" "r \<in> set existing" "fFingerprint r = fp" for r
          using that canon_kept [OF inv(1), of "(m, fp)" r "absent_record now md r"] by (simp_all add: mem)
        moreover have "view s2 (m, fp) = view s (m, fp)" if "m \<noteq> miID md \<or> fp \<notin> fps fresh"
          by (rule keep [OF that])
        ultimately show ?thesis
          using any1(2) [of m fp] any2 [of m fp] unfolding seen by auto
      qed
      with i3 show ?thesis by blast
    qed
  qed
qed

end

subsection \<open>Scans in a row\<close>

text \<open>Scans of one target, each a time and its findings, as long as they succeed.\<close>

fun scans ::
    "'s store_ops \<Rightarrow> (gtime \<Rightarrow> 'g \<Rightarrow> (gerror + string) \<times> 'g) \<Rightarrow> module_info \<Rightarrow> string
     \<Rightarrow> (gtime \<times> finding list) list \<Rightarrow> 's \<Rightarrow> 'g \<Rightarrow> ('s \<times> 'g) option" where
  "scans ops newID md target [] s g = Some (s, g)"
| "scans ops newID md target ((now, fresh) # xs) s g =
     (case Reconcile ops newID now md target fresh s g of
        (None, res, s, g) \<Rightarrow> scans ops newID md target xs s g
      | (Some e, res, s, g) \<Rightarrow> None)"

text \<open>
  A collector that behaves: the findings of a scan carry the scanned target and no fingerprint
  twice, and the store holds none of their fingerprints under another target.
\<close>

definition behaved :: "store_view \<Rightarrow> module_info \<Rightarrow> string \<Rightarrow> finding list \<Rightarrow> bool" where
  "behaved v md target fresh \<longleftrightarrow> scan_ok v md target fresh \<and>
     (\<forall>f \<in> set (accepted fresh). fTarget f = target)"

lemma Ball_accepted_fps: "(\<forall>f \<in> set (accepted fresh). P (fFingerprint f)) \<longleftrightarrow> (\<forall>fp \<in> fps fresh. P fp)"
  by (auto simp: fps_def)

context record_store
begin

lemma norm_lapses: "lapses (canon r) = lapses r"
  by (simp add: lapses_def norm_fields)

text \<open>A scan moves no record to another target.\<close>

lemma scan_effect_target:
  assumes eff: "scan_effect canon now md target fresh v v'" and b: "behaved v md target fresh"
    and r: "v' k = Some r'"
  shows "(\<exists>r. v k = Some r \<and> fTarget r' = fTarget r) \<or> (v k = None \<and> fTarget r' = target)"
proof (cases k)
  case (Pair m fp)
  show ?thesis
  proof (cases "m \<noteq> miID md \<or> fp \<notin> fps fresh")
    case True
    then have "v' (m, fp) = map_option
          (\<lambda>r. if m = miID md \<and> fTarget r = target \<and> lapses r
               then absent_record now md r else r) (v (m, fp))"
      using eff unfolding scan_effect_def by blast
    with r Pair show ?thesis by (auto simp: norm_fields)
  next
    case False
    then obtain f where f: "f \<in> set (accepted fresh)" "fp = fFingerprint f" and m: "m = miID md"
      by (auto simp: fps_def)
    then have "reported canon now md f (v k) (v' k)"
      using eff unfolding scan_effect_def Pair by blast
    moreover have "fTarget f = target" using f b by (auto simp: behaved_def)
    ultimately show ?thesis using r by (auto simp: reported_def norm_fields split: option.splits)
  qed
qed

lemma scan_effect_behaved:
  assumes eff: "scan_effect canon now md target fresh v v'" and b: "behaved v md target fresh"
    and b': "behaved v md target fresh'"
  shows "behaved v' md target fresh'"
proof -
  have "fTarget r = target" if "fp \<in> fps fresh'" "v' (miID md, fp) = Some r" for fp r
    using scan_effect_target [OF eff b that(2)] b' that(1) by (auto simp: behaved_def scan_ok_def)
  with b' show ?thesis by (auto simp: behaved_def scan_ok_def)
qed

text \<open>One scan that does not report a record of its target.\<close>

lemma scan_effect_absent:
  assumes "scan_effect canon now md target fresh v v'" "fp \<notin> fps fresh"
    and "v (miID md, fp) = Some r" "fTarget r = target" "lapses r"
  shows "v' (miID md, fp) = Some (absent_record now md r)"
proof -
  have "v' (miID md, fp) = map_option
          (\<lambda>r. if miID md = miID md \<and> fTarget r = target \<and> lapses r
               then absent_record now md r else r) (v (miID md, fp))"
    using assms(1,2) unfolding scan_effect_def by blast
  with assms(3-5) show ?thesis by simp
qed

lemma scan_effect_quiet:
  assumes "scan_effect canon now md target fresh v v'" "m \<noteq> miID md \<or> fp \<notin> fps fresh"
    and "v (m, fp) = Some r" "m \<noteq> miID md \<or> fTarget r \<noteq> target \<or> \<not> lapses r"
  shows "v' (m, fp) = Some r"
proof -
  have "v' (m, fp) = map_option
          (\<lambda>r. if m = miID md \<and> fTarget r = target \<and> lapses r
               then absent_record now md r else r) (v (m, fp))"
    using assms(1,2) unfolding scan_effect_def by blast
  with assms(3,4) show ?thesis by auto
qed

text \<open>
  A record that is not reported any more: its streak counts the scans, and the scan that takes
  it to the threshold resolves it, once and for all.
\<close>

lemma scans_absent:
  assumes "scans ops newID md target xs s g = Some (s', g')"
    and "invar s" "module_ok (miID md)"
    and "\<forall>x \<in> set xs. behaved (view s) md target (snd x) \<and> fp \<notin> fps (snd x)"
    and "view s (miID md, fp) = Some r" "fTarget r = target"
  shows "\<exists>r'. view s' (miID md, fp) = Some r' \<and> fTarget r' = target \<and> invar s' \<and>
    (if \<not> lapses r then r' = r
     else if rAbsentStreak r + int (length xs) < ResolveAfterOrDefault md \<or> xs = []
     then fStatus r' = fStatus r \<and> rAbsentStreak r' = rAbsentStreak r + int (length xs)
       \<and> fResolvedAt r' = fResolvedAt r
     else fStatus r' = StatusResolved \<and>
       fResolvedAt r' = Some (fst (xs ! nat (ResolveAfterOrDefault md - rAbsentStreak r - 1))))"
  using assms
proof (induction xs arbitrary: s g r)
  case Nil
  then show ?case by auto
next
  case (Cons x xs)
  obtain now fresh where x: "x = (now, fresh)" by (cases x)
  obtain res s1 g1 where run: "Reconcile ops newID now md target fresh s g = (None, res, s1, g1)"
    and rest: "scans ops newID md target xs s1 g1 = Some (s', g')"
    using Cons.prems(1) by (auto simp: x split: prod.splits option.splits)
  have b: "behaved (view s) md target fresh" and fp: "fp \<notin> fps fresh"
    using Cons.prems(4) by (simp_all add: x)
  have ok: "scan_ok (view s) md target fresh" using b by (simp add: behaved_def)
  note eff = reconcile_ok(2) [OF run Cons.prems(2,3) ok]
  note i1 = reconcile_ok(1) [OF run Cons.prems(2,3) ok]
  have b1: "\<forall>y \<in> set xs. behaved (view s1) md target (snd y) \<and> fp \<notin> fps (snd y)"
    using Cons.prems(4) scan_effect_behaved [OF eff b] by simp
  note ih = Cons.IH [OF rest i1 Cons.prems(3) b1]
  show ?case
  proof (cases "lapses r")
    case False
    from scan_effect_quiet [OF eff _ Cons.prems(5)] False fp
    have "view s1 (miID md, fp) = Some r" by simp
    from ih [OF this Cons.prems(6)] False show ?thesis by auto
  next
    case True
    let ?r = "absent_record now md r" and ?thr = "ResolveAfterOrDefault md"
    have v1: "view s1 (miID md, fp) = Some ?r"
      by (rule scan_effect_absent [OF eff fp Cons.prems(5,6) True])
    have t1: "fTarget ?r = target" using Cons.prems(6) by (simp add: norm_fields)
    note ih = ih [OF v1 t1]
    show ?thesis
    proof (cases "rAbsentStreak r + 1 \<ge> ?thr")
      case res: True
      then have "\<not> lapses ?r" by (simp add: lapses_def norm_fields)
      moreover have "nat (?thr - rAbsentStreak r - 1) = 0" using res by simp
      ultimately show ?thesis using ih res True by (auto simp: norm_fields x)
    next
      case False
      then have st: "fStatus ?r = fStatus r" "rAbsentStreak ?r = rAbsentStreak r + 1"
        "fResolvedAt ?r = fResolvedAt r" and l: "lapses ?r"
        using True by (simp_all add: norm_fields lapses_def)
      have ix: "nat (?thr - rAbsentStreak r - 1) = Suc (nat (?thr - rAbsentStreak ?r - 1))"
        using False st by simp
      from ih obtain r' where r': "view s' (miID md, fp) = Some r'" "fTarget r' = target" "invar s'"
        and step: "if rAbsentStreak r + 1 + int (length xs) < ?thr \<or> xs = []
          then fStatus r' = fStatus r \<and> rAbsentStreak r' = rAbsentStreak r + 1 + int (length xs)
            \<and> fResolvedAt r' = fResolvedAt r
          else fStatus r' = StatusResolved \<and>
            fResolvedAt r' = Some (fst (xs ! nat (?thr - rAbsentStreak ?r - 1)))"
        using l unfolding st by auto
      have "rAbsentStreak r + int (length (x # xs)) < ?thr \<longleftrightarrow>
          rAbsentStreak r + 1 + int (length xs) < ?thr \<or> xs = []" using False by auto
      then show ?thesis
        using r' step True by (intro exI [of _ r']) (auto simp: ix split: if_splits)
    qed
  qed
qed

end

subsection \<open>The invariant of the records of a module\<close>

text \<open>What a record looks like between two scans, at a time \<open>now\<close> the clock has reached.\<close>

definition record_ok :: "gtime \<Rightarrow> module_info \<Rightarrow> srecord \<Rightarrow> bool" where
  "record_ok now md r \<longleftrightarrow>
     fStatus r \<in> {StatusOpen, StatusAcknowledged, StatusSuppressed, StatusResolved} \<and>
     Valid (fSeverity r) \<and> fFirstSeen r \<le> fLastSeen r \<and> fLastSeen r \<le> now \<and>
     (lapses r \<longrightarrow> 0 \<le> rAbsentStreak r \<and> rAbsentStreak r < ResolveAfterOrDefault md) \<and>
     (fStatus r = StatusResolved \<longrightarrow>
        (\<exists>t. fResolvedAt r = Some t \<and> fLastSeen r \<le> t \<and> t \<le> now))"

definition records_ok :: "gtime \<Rightarrow> module_info \<Rightarrow> store_view \<Rightarrow> bool" where
  "records_ok now md v \<longleftrightarrow> (\<forall>fp r. v (miID md, fp) = Some r \<longrightarrow> record_ok now md r)"

lemma lapses_iff: "fStatus r \<in> {StatusOpen, StatusAcknowledged, StatusSuppressed, StatusResolved} \<Longrightarrow>
    lapses r \<longleftrightarrow> fStatus r = StatusOpen \<or> fStatus r = StatusAcknowledged"
  by (auto simp: lapses_def)

lemma ResolveAfter_pos: "0 < ResolveAfterOrDefault md"
  by (simp add: ResolveAfterOrDefault_def)

lemma record_ok_mono: "record_ok now md r \<Longrightarrow> now \<le> now' \<Longrightarrow> record_ok now' md r"
  by (force simp: record_ok_def)

lemma record_ok_opened: "Valid (fSeverity f) \<Longrightarrow> record_ok now md (opened_record now md i f)"
  by (simp add: record_ok_def ResolveAfter_pos) (simp add: opened_record_def)

lemma record_ok_merged:
  "record_ok now md r \<Longrightarrow> Valid (fSeverity f) \<Longrightarrow> record_ok now md (merged_record now r f)"
  by (auto simp: record_ok_def ResolveAfter_pos)

lemma record_ok_absent:
  "record_ok now md r \<Longrightarrow> lapses r \<Longrightarrow> record_ok now md (absent_record now md r)"
  by (auto simp: record_ok_def lapses_def)

lemma accepted_Valid: "f \<in> set (accepted fresh) \<Longrightarrow> Valid (fSeverity f)"
  by (simp add: accepted_def ValidateForIngest_None)

context record_store
begin

lemma record_ok_norm: "record_ok now md (canon r) = record_ok now md r"
  by (simp add: record_ok_def norm_fields norm_lapses)

lemma reported_ok:
  assumes "reported canon now md f old (Some r')" "f \<in> set (accepted fresh)"
    and "\<And>r. old = Some r \<Longrightarrow> record_ok now md r"
  shows "record_ok now md r'"
proof -
  have "Valid (fSeverity (capEvidence f))" using accepted_Valid [OF assms(2)] by simp
  with assms(1,3) show ?thesis
    by (auto simp: reported_def record_ok_norm record_ok_opened record_ok_merged split: option.splits)
qed

lemma reconcile_records_ok:
  assumes run: "Reconcile ops newID now md target fresh s g = (err, res, s', g')"
    and inv: "invar s" "module_ok (miID md)" and ok: "scan_ok (view s) md target fresh"
    and before: "records_ok t0 md (view s)" and clock: "t0 \<le> now"
  shows "records_ok now md (view s')"
  unfolding records_ok_def
proof (intro allI impI)
  fix fp r'
  assume r': "view s' (miID md, fp) = Some r'"
  have old: "record_ok now md r" if "view s (miID md, fp) = Some r" for r
    using before that clock record_ok_mono unfolding records_ok_def by blast
  from reconcile_any [OF run inv ok]
  consider "view s' (miID md, fp) = view s (miID md, fp)"
    | f where "f \<in> set (accepted fresh)"
        "reported canon now md f (view s (miID md, fp)) (view s' (miID md, fp))"
    | r where "view s (miID md, fp) = Some r" "lapses r"
        "view s' (miID md, fp) = Some (absent_record now md r)"
    by blast
  then show "record_ok now md r'"
  proof cases
    case 1
    with r' old show ?thesis by simp
  next
    case 2
    from reported_ok [OF 2(2) [unfolded r'] 2(1) old] show ?thesis .
  next
    case 3
    with r' old [OF 3(1)] show ?thesis by (auto simp: record_ok_norm record_ok_absent)
  qed
qed

text \<open>After a scan a finding it reported is not resolved, so the next scan does not announce it.\<close>

lemma reported_open:
  "reported canon now md f old new \<Longrightarrow> \<exists>r. new = Some r \<and> fStatus r \<noteq> StatusResolved"
  by (auto simp: reported_def norm_fields split: option.splits)

lemma rescan_announces:
  assumes run: "Reconcile ops newID now md target fresh s g = (None, res, s1, g1)"
    and again: "Reconcile ops newID now' md target fresh' s1 g1 = (None, res', s2, g2)"
    and inv: "invar s" "module_ok (miID md)"
    and ok: "behaved (view s) md target fresh" "behaved (view s) md target fresh'"
  shows "set (map fFingerprint (NewlyOpen res')) =
    {fp \<in> fps fresh'. fp \<notin> fps fresh \<and> announces (view s1 (miID md, fp))}"
proof -
  have ok1: "scan_ok (view s) md target fresh" using ok(1) by (simp add: behaved_def)
  note eff = reconcile_ok(2) [OF run inv ok1] and i1 = reconcile_ok(1) [OF run inv ok1]
  have ok2: "scan_ok (view s1) md target fresh'"
    using scan_effect_behaved [OF eff ok] by (simp add: behaved_def)
  have quiet: "\<not> announces (view s1 (miID md, fp))" if rep: "fp \<in> fps fresh" for fp
  proof -
    obtain f0 where f0: "f0 \<in> set (accepted fresh)" "fFingerprint f0 = fp"
      using rep unfolding fps_def by blast
    then have "reported canon now md f0 (view s (miID md, fFingerprint f0))
        (view s1 (miID md, fFingerprint f0))"
      using eff unfolding scan_effect_def by blast
    from reported_open [OF this] show ?thesis by (auto simp: announces_def f0(2))
  qed
  have "set (map fFingerprint (NewlyOpen res')) = {fp \<in> fps fresh'. announces (view s1 (miID md, fp))}"
    unfolding reconcile_ok(3) [OF again i1 inv(2) ok2] by (auto simp: fps_def)
  with quiet show ?thesis by blast
qed

end

subsection \<open>The evidence cap\<close>

lemma capEvidence_cases:
  assumes "fEvidence (capEvidence f) = Some ev"
    and small: "\<And>ev' b. fEvidence f = Some ev' \<Longrightarrow> json_marshal (GMap ev') = Some b \<Longrightarrow> length b < 2 ^ 63"
  shows "\<exists>b. json_marshal (GMap ev) = Some b \<and> length b \<le> MaxEvidenceBytes"
proof -
  obtain ev' where ev': "fEvidence f = Some ev'"
    using assms(1) by (cases "fEvidence f") (auto simp: capEvidence_def)
  show ?thesis
  proof (cases "json_marshal (GMap ev')")
    case None
    then have "ev = [(''_error'', GStr ''evidence not serialisable; dropped'')]"
      using assms(1) ev' by (simp add: capEvidence_def)
    then show ?thesis
      by (simp add: encode_object_def quote_def escape_ascii_def byte_def MaxEvidenceBytes_def)
  next
    case (Some b)
    show ?thesis
    proof (cases "length b > MaxEvidenceBytes")
      case False
      with Some ev' assms(1) show ?thesis by (simp add: capEvidence_def)
    next
      case True
      have "length b < 10 ^ Suc 19" using small [OF ev' Some] by simp
      then have "length (decimal (length b)) \<le> 20" using length_decimal [of "length b" 20] by simp
      moreover have "ev = [(''_truncated'', GBool True),
          (''_original_bytes'', GInt (int (length b))),
          (''_note'', GStr ''evidence exceeded MaxEvidenceBytes and was dropped'')]"
        using assms(1) ev' Some True by (simp add: capEvidence_def)
      ultimately show ?thesis
        by (simp add: encode_object_def quote_def escape_ascii_def byte_def MaxEvidenceBytes_def itoa_def)
    qed
  qed
qed

end
