(* ===== verification/Store_Properties.thy ===== *)
theory Store_Properties
  imports Store_Reconcile
begin

text \<open>
  The properties of the finding store: what a scan does to the SQLite database and what it
  reports, over one scan and over many. They restate the lemmas of the store contract on the
  model of \<open>store/sqlite.go\<close>, each with a run on a sample database.
\<close>

subsection \<open>A sample store\<close>

text \<open>Inputs at which the properties below apply: a table with one record in each state.\<close>

definition sample_module :: module_info where
  "sample_module = \<lparr>miID = ''ssl'', miName = ''SSL'', miVersion = ''1'', miTargetKind = ''host'',
     miDefaultInterval = 0, miResolveAfter = 2\<rparr>"

definition sample_finding :: "string \<Rightarrow> finding" where
  "sample_finding fp = \<lparr>fFingerprint = fp, fTarget = ''a'', fCheck = ''c'', fTitle = ''t'',
     fSeverity = SeverityHigh, fRemediation = ''r'', fEvidence = None, fID = [], fModule = [],
     fStatus = [], fGroupID = None, fFirstSeen = 0, fLastSeen = 0, fResolvedAt = None\<rparr>"

definition sample_row :: "string \<Rightarrow> FindingStatus \<Rightarrow> find_row" where
  "sample_row fp st = \<lparr>cId = ''id-'' @ fp, cFingerprint = fp, cModule = ''ssl'', cTarget = ''a'',
     cCheckId = ''c'', cTitle = ''t'', cSeverity = SeverityLow, cStatus = st, cRemediation = ''r'',
     cEvidence = None, cGroupId = None, cFirstSeen = 10, cLastSeen = 20,
     cResolvedAt = (if st = StatusResolved then Some 30 else None),
     cAbsentStreak = (if st = StatusResolved then 2 else 0)\<rparr>"

definition sample_db :: sq_db where
  "sample_db = \<lparr>dbFindings = [sample_row ''o'' StatusOpen, sample_row ''r'' StatusResolved,
     sample_row ''s'' StatusSuppressed], dbTargets = [], dbFaults = []\<rparr>"

definition sample_ids :: "gtime \<Rightarrow> nat \<Rightarrow> (gerror + string) \<times> nat" where
  "sample_ids t n = (Inr (decimal n), Suc n)"

definition sample_scan :: "finding list" where
  "sample_scan = map sample_finding [''r'', ''s'', ''n'']"

definition sample_run where
  "sample_run = Reconcile sq_ops sample_ids 100 sample_module ''a'' sample_scan
     sample_db 0"

lemma sample_invar: "sq_invar sample_db"
  by code_simp

lemma sample_accepted: "accepted sample_scan = sample_scan" "fps sample_scan = {''r'', ''s'', ''n''}"
  by (simp_all add: fps_def sample_scan_def accepted_def ValidateForIngest_None sample_finding_def
      Valid_iff)

lemma sample_behaved: "behaved (sq_view sample_db) sample_module ''a'' sample_scan"
  unfolding behaved_def scan_ok_def sample_accepted
  by (auto simp: sample_scan_def sample_finding_def sq_view_def sample_db_def scanRecord_def
      sample_row_def row_key_def sample_module_def)

lemma sample_scan_ok: "scan_ok (sq_view sample_db) sample_module ''a'' sample_scan"
  using sample_behaved by (simp add: behaved_def)

lemma sample_run_ok: "fst sample_run = None"
  by code_simp

lemma sample_result:
  obtains res db g where
    "Reconcile sq_ops sample_ids 100 sample_module ''a'' sample_scan sample_db 0
       = (None, res, db, g)"
  using sample_run_ok by (metis prod.exhaust_sel sample_run_def)

subsection \<open>One scan\<close>

text \<open>
  C2: a scan that succeeds refines the abstract scan: in the database after it every reported
  finding is a new open record or the known record refreshed (reopened if it was resolved),
  every live record of the target that was not reported has its absence counted, and every other
  record, of another target, another module, suppressed or resolved, is as it was.
\<close>

theorem reconcile_refines_scan:
  assumes "Reconcile sq_ops newID now md target fresh db g = (None, res, db', g')"
    and "sq_invar db" and "scan_ok (sq_view db) md target fresh"
  shows "sq_invar db' \<and>
    scan_effect sq_norm now md target fresh (sq_view db) (sq_view db')"
  using sq.reconcile_ok(1,2) [OF assms(1,2) TrueI assms(3)] by simp

theorem reconcile_refines_scan_witness:
  "\<exists>res db' g'. Reconcile sq_ops sample_ids 100 sample_module ''a'' sample_scan
     sample_db 0 = (None, res, db', g') \<and> sq_invar db' \<and>
     scan_effect sq_norm 100 sample_module ''a'' sample_scan
       (sq_view sample_db) (sq_view db')"
  using reconcile_refines_scan [OF _ sample_invar sample_scan_ok] sample_result by metis

text \<open>
  C6: a scan that succeeds announces exactly the findings that are new or were resolved, once
  each and in scan order, all of them open; it rejects exactly the malformed ones, in order; and
  it reports as resolved exactly the live records of the target that it did not see and whose
  absence reached the module's threshold.
\<close>

theorem reconcile_reports:
  assumes "Reconcile sq_ops newID now md target fresh db g = (None, res, db', g')"
    and "sq_invar db" and "scan_ok (sq_view db) md target fresh"
  shows "map fFingerprint (NewlyOpen res) = map fFingerprint
      (filter (\<lambda>f. announces (sq_view db (miID md, fFingerprint f))) (accepted fresh)) \<and>
    distinct (map fFingerprint (NewlyOpen res)) \<and>
    (\<forall>x \<in> set (NewlyOpen res). fStatus x = StatusOpen) \<and>
    Rejected res = rejections fresh \<and>
    distinct (map fFingerprint (Resolved res)) \<and>
    set (Resolved res) = {finding_of (absent_record now md r) | r.
      sq_view db (miID md, fFingerprint r) = Some r \<and> fTarget r = target
      \<and> fFingerprint r \<notin> fps fresh \<and> resolves md r}"
proof -
  have "distinct (map fFingerprint (accepted fresh))"
    using assms(3) by (simp add: scan_ok_def)
  then have "distinct (map fFingerprint
      (filter (\<lambda>f. announces (sq_view db (miID md, fFingerprint f))) (accepted fresh)))"
    by (rule distinct_map_filter)
  with sq.reconcile_ok(3-7) [OF assms(1,2) TrueI assms(3)] show ?thesis by simp
qed

theorem reconcile_reports_witness:
  "\<exists>res db' g'. Reconcile sq_ops sample_ids 100 sample_module ''a'' sample_scan
     sample_db 0 = (None, res, db', g') \<and> Rejected res = [] \<and>
     map fFingerprint (NewlyOpen res) = [''r'', ''n'']"
proof -
  obtain res db g where run: "Reconcile sq_ops sample_ids 100 sample_module ''a''
      sample_scan sample_db 0 = (None, res, db, g)" using sample_result .
  have rej: "rejections sample_scan = []" by code_simp
  have ann: "map fFingerprint (filter (\<lambda>f. announces (sq_view sample_db
      (miID sample_module, fFingerprint f))) sample_scan) = [''r'', ''n'']" by code_simp
  from reconcile_reports [OF run sample_invar sample_scan_ok]
  have "Rejected res = [] \<and> map fFingerprint (NewlyOpen res) = [''r'', ''n'']"
    by (simp only: rej ann sample_accepted)
  with run show ?thesis by auto
qed

text \<open>
  C8: whatever goes wrong during a scan (the query, the id generator, any upsert), every record
  is either as it was or took the one complete step a scan without errors gives it; no record is
  lost, and the table's constraints hold.
\<close>

theorem reconcile_all_or_nothing_per_record:
  assumes "Reconcile sq_ops newID now md target fresh db g = (err, res, db', g')"
    and "sq_invar db" and "scan_ok (sq_view db) md target fresh"
  shows "sq_invar db' \<and> (\<forall>m fp. sq_view db' (m, fp) = sq_view db (m, fp) \<or> m = miID md \<and>
     ((\<exists>f \<in> set (accepted fresh). fFingerprint f = fp \<and>
         reported sq_norm now md f (sq_view db (m, fp)) (sq_view db' (m, fp))) \<or>
      (\<exists>r. sq_view db (m, fp) = Some r \<and> fTarget r = target \<and> lapses r \<and> fp \<notin> fps fresh \<and>
         sq_view db' (m, fp) = Some (absent_record now md r))))"
  by (rule sq.reconcile_any [OF assms(1,2) TrueI assms(3)])

text \<open>The second statement of the scan fails: the first upsert.\<close>

definition failing_db :: sq_db where
  "failing_db = sample_db\<lparr>dbFaults := [None, Some ''disk full'']\<rparr>"

theorem reconcile_all_or_nothing_per_record_witness:
  "\<exists>res db' g'. Reconcile sq_ops sample_ids 100 sample_module ''a'' sample_scan
     failing_db 0 = (Some ''disk full'', res, db', g') \<and> sq_invar db'"
proof -
  have inv: "sq_invar failing_db" by code_simp
  have "sq_view failing_db = sq_view sample_db"
    by (simp add: failing_db_def sq_view_def)
  then have ok: "scan_ok (sq_view failing_db) sample_module ''a'' sample_scan"
    using sample_scan_ok by simp
  have "fst (Reconcile sq_ops sample_ids 100 sample_module ''a'' sample_scan
      failing_db 0) = Some ''disk full''" by code_simp
  then obtain res db' g' where run: "Reconcile sq_ops sample_ids 100 sample_module
      ''a'' sample_scan failing_db 0 = (Some ''disk full'', res, db', g')"
    by (metis prod.exhaust_sel)
  from reconcile_all_or_nothing_per_record [OF run inv ok] run show ?thesis by blast
qed

text \<open>
  C22: every scan, failed or not, keeps the invariant of the module's records: a known status, a
  known severity, first seen no later than last seen, no time in the future, an absence count of
  a live record below the threshold, and a resolution time for every resolved record, no earlier
  than its last sighting.
\<close>

theorem reconcile_keeps_records_ok:
  assumes "Reconcile sq_ops newID now md target fresh db g = (err, res, db', g')"
    and "sq_invar db" and "scan_ok (sq_view db) md target fresh"
    and "records_ok t0 md (sq_view db)" and "t0 \<le> now"
  shows "records_ok now md (sq_view db')"
  by (rule sq.reconcile_records_ok [OF assms(1,2) TrueI assms(3-5)])

lemma sample_records_ok: "records_ok 50 sample_module (sq_view sample_db)"
  by (auto simp: records_ok_def record_ok_def lapses_def sq_view_def sample_db_def scanRecord_def
      sample_row_def row_key_def sample_module_def Valid_iff ResolveAfterOrDefault_def)

theorem reconcile_keeps_records_ok_witness:
  "\<exists>res db' g'. Reconcile sq_ops sample_ids 100 sample_module ''a'' sample_scan
     sample_db 0 = (None, res, db', g') \<and> records_ok 100 sample_module (sq_view db')"
proof -
  obtain res db g where run: "Reconcile sq_ops sample_ids 100 sample_module ''a''
      sample_scan sample_db 0 = (None, res, db, g)" using sample_result .
  from reconcile_keeps_records_ok [OF run sample_invar sample_scan_ok sample_records_ok] run
  show ?thesis by auto
qed

text \<open>
  C23: suppression is the user's call: a suppressed record stays suppressed through every scan
  that succeeds, reported or not, and is neither announced nor reported as resolved.
\<close>

theorem suppressed_stays_silent:
  assumes "Reconcile sq_ops newID now md target fresh db g = (None, res, db', g')"
    and "sq_invar db" and "scan_ok (sq_view db) md target fresh"
    and "sq_view db (miID md, fp) = Some r" and "fStatus r = StatusSuppressed"
  shows "(\<exists>r'. sq_view db' (miID md, fp) = Some r' \<and> fStatus r' = StatusSuppressed) \<and>
    fp \<notin> fFingerprint ` set (NewlyOpen res) \<and> fp \<notin> fFingerprint ` set (Resolved res)"
proof (intro conjI)
  note run = sq.reconcile_ok [OF assms(1,2) TrueI assms(3)]
  have r: "\<not> announces (Some r)" "\<not> lapses r" "fFingerprint r = fp"
    using assms(4,5) sq.view_key [OF assms(2,4)] by (simp_all add: announces_def lapses_def)
  show "\<exists>r'. sq_view db' (miID md, fp) = Some r' \<and> fStatus r' = StatusSuppressed"
  proof (cases "fp \<in> fps fresh")
    case True
    then obtain f where f: "f \<in> set (accepted fresh)" "fFingerprint f = fp" by (auto simp: fps_def)
    then have "reported sq_norm now md f (Some r) (sq_view db' (miID md, fp))"
      using run(2) assms(4) unfolding scan_effect_def by metis
    then show ?thesis by (simp add: reported_def assms(5) sq.norm_fields)
  next
    case False
    with sq.scan_effect_quiet [OF run(2) _ assms(4)] r(2) assms(5) show ?thesis by blast
  qed
  have "\<not> announces (sq_view db (miID md, fp))" unfolding assms(4) by (rule r(1))
  then have "fp \<notin> set (map fFingerprint
      (filter (\<lambda>f. announces (sq_view db (miID md, fFingerprint f))) (accepted fresh)))"
    by auto
  then show "fp \<notin> fFingerprint ` set (NewlyOpen res)" unfolding run(3) [symmetric] by simp
  show "fp \<notin> fFingerprint ` set (Resolved res)"
    unfolding run(7) using assms(4) r(2) by (force simp: resolves_def)
qed

lemma sample_view_s: "\<exists>r. sq_view sample_db (miID sample_module, ''s'') = Some r \<and>
    fStatus r = StatusSuppressed"
  by (simp add: sq_view_def sample_db_def scanRecord_def sample_row_def row_key_def
      sample_module_def)

theorem suppressed_stays_silent_witness:
  "\<exists>res db' g' r'. Reconcile sq_ops sample_ids 100 sample_module ''a'' sample_scan
     sample_db 0 = (None, res, db', g') \<and> ''s'' \<notin> fFingerprint ` set (NewlyOpen res) \<and>
     sq_view db' (miID sample_module, ''s'') = Some r' \<and> fStatus r' = StatusSuppressed"
proof -
  obtain res db g where run: "Reconcile sq_ops sample_ids 100 sample_module ''a''
      sample_scan sample_db 0 = (None, res, db, g)" using sample_result .
  obtain r where "sq_view sample_db (miID sample_module, ''s'') = Some r"
    "fStatus r = StatusSuppressed" using sample_view_s by blast
  from suppressed_stays_silent [OF run sample_invar sample_scan_ok this] run show ?thesis by blast
qed

subsection \<open>Scans in a row\<close>

text \<open>
  C24: of two scans of a target in a row the second announces nothing the first one reported, whatever
  else it finds: it announces exactly the findings the first scan did not report and that are not known
  or were resolved when it began.
\<close>

theorem rescan_is_silent:
  assumes "Reconcile sq_ops newID now md target fresh db g = (None, res, db1, g1)"
    and "Reconcile sq_ops newID now' md target fresh' db1 g1 = (None, res', db2, g2)"
    and "sq_invar db" and "behaved (sq_view db) md target fresh"
    and "behaved (sq_view db) md target fresh'"
  shows "set (map fFingerprint (NewlyOpen res')) =
    {fp \<in> fps fresh'. fp \<notin> fps fresh \<and>
       (case sq_view db1 (miID md, fp) of None \<Rightarrow> True | Some r \<Rightarrow> fStatus r = StatusResolved)}"
  using sq.rescan_announces [OF assms(1,2,3) TrueI assms(4,5)] unfolding announces_def .

theorem rescan_is_silent_witness:
  "\<exists>res db1 g1 res' db2 g2.
     Reconcile sq_ops sample_ids 100 sample_module ''a'' sample_scan sample_db 0
       = (None, res, db1, g1) \<and>
     Reconcile sq_ops sample_ids 200 sample_module ''a'' sample_scan db1 g1
       = (None, res', db2, g2) \<and> NewlyOpen res \<noteq> [] \<and> NewlyOpen res' = []"
proof -
  obtain res db1 g1 where run: "Reconcile sq_ops sample_ids 100 sample_module ''a''
      sample_scan sample_db 0 = (None, res, db1, g1)" using sample_result .
  have "case Reconcile sq_ops sample_ids 100 sample_module ''a'' sample_scan
      sample_db 0 of (e, res, db1, g1) \<Rightarrow> NewlyOpen res \<noteq> [] \<and>
      fst (Reconcile sq_ops sample_ids 200 sample_module ''a'' sample_scan db1 g1)
        = None" by code_simp
  then have new: "NewlyOpen res \<noteq> []" and "fst (Reconcile sq_ops sample_ids 200
      sample_module ''a'' sample_scan db1 g1) = None" by (simp_all add: run)
  then obtain res' db2 g2 where again: "Reconcile sq_ops sample_ids 200 sample_module
      ''a'' sample_scan db1 g1 = (None, res', db2, g2)" by (metis prod.exhaust_sel)
  have "set (map fFingerprint (NewlyOpen res')) = {}"
    unfolding rescan_is_silent [OF run again sample_invar sample_behaved sample_behaved] by blast
  then show ?thesis using run again new by auto
qed

text \<open>
  C9: a live record that successive scans do not report resolves, exactly at the scan where its
  absence count reaches the module's threshold and with that scan's time, and not before; the
  scans after it leave it as it is.
\<close>

theorem absent_finding_resolves:
  assumes "scans sq_ops newID md target xs db g = Some (db', g')" and "sq_invar db"
    and "\<forall>x \<in> set xs. behaved (sq_view db) md target (snd x) \<and> fp \<notin> fps (snd x)"
    and "sq_view db (miID md, fp) = Some r" and "fTarget r = target" and "lapses r"
    and "rAbsentStreak r < ResolveAfterOrDefault md"
  shows "\<exists>r'. sq_view db' (miID md, fp) = Some r' \<and>
    (let k = nat (ResolveAfterOrDefault md - rAbsentStreak r)
     in if length xs < k
        then fStatus r' = fStatus r \<and> rAbsentStreak r' = rAbsentStreak r + int (length xs)
        else fStatus r' = StatusResolved \<and> fResolvedAt r' = Some (fst (xs ! (k - 1))))"
proof -
  let ?k = "nat (ResolveAfterOrDefault md - rAbsentStreak r)"
  have k: "nat (ResolveAfterOrDefault md - rAbsentStreak r - 1) = ?k - 1" by simp
  have early: "rAbsentStreak r + int (length xs) < ResolveAfterOrDefault md \<or> xs = []
      \<longleftrightarrow> length xs < ?k" using assms(7) by auto
  obtain r' where v: "sq_view db' (miID md, fp) = Some r'"
    and "if \<not> lapses r then r' = r
      else if length xs < ?k
      then fStatus r' = fStatus r \<and> rAbsentStreak r' = rAbsentStreak r + int (length xs)
        \<and> fResolvedAt r' = fResolvedAt r
      else fStatus r' = StatusResolved \<and> fResolvedAt r' = Some (fst (xs ! (?k - 1)))"
    using sq.scans_absent [OF assms(1,2) TrueI assms(3-5)] unfolding k early by blast
  then show ?thesis
    using assms(6) unfolding Let_def by (cases "length xs < ?k") (simp_all only: if_True if_False not_True_eq_False, blast+)
qed

definition sample_times :: "(gtime \<times> finding list) list" where
  "sample_times = [(100, sample_scan), (200, sample_scan), (300, sample_scan)]"

theorem absent_finding_resolves_witness:
  "\<exists>db' g' r'. scans sq_ops sample_ids sample_module ''a'' sample_times sample_db 0
     = Some (db', g') \<and> sq_view db' (miID sample_module, ''o'') = Some r' \<and>
     fStatus r' = StatusResolved \<and> fResolvedAt r' = Some 200"
proof -
  have "scans sq_ops sample_ids sample_module ''a'' sample_times sample_db 0 \<noteq> None"
    by code_simp
  then obtain db' g' where run: "scans sq_ops sample_ids sample_module ''a''
      sample_times sample_db 0 = Some (db', g')" by auto
  have b: "\<forall>x \<in> set sample_times. behaved (sq_view sample_db) sample_module ''a'' (snd x)
      \<and> ''o'' \<notin> fps (snd x)"
    using sample_behaved by (simp add: sample_times_def sample_accepted)
  have v: "sq_view sample_db (miID sample_module, ''o'')
      = Some (scanRecord (sample_row ''o'' StatusOpen))"
    by (simp add: sq_view_def sample_db_def sample_row_def row_key_def sample_module_def)
  have r: "fTarget (scanRecord (sample_row ''o'' StatusOpen)) = ''a''"
    "lapses (scanRecord (sample_row ''o'' StatusOpen))"
    "rAbsentStreak (scanRecord (sample_row ''o'' StatusOpen)) = 0"
    "ResolveAfterOrDefault sample_module = 2"
    by (simp_all add: scanRecord_def sample_row_def lapses_def ResolveAfterOrDefault_def
        sample_module_def)
  have lt: "rAbsentStreak (scanRecord (sample_row ''o'' StatusOpen))
      < ResolveAfterOrDefault sample_module" by (simp only: r)
  have t: "\<not> length sample_times < nat (2 - 0)" "fst (sample_times ! (nat (2 - 0) - 1)) = 200"
    by (simp_all add: sample_times_def)
  from absent_finding_resolves [OF run sample_invar b v r(1,2) lt]
  have "\<exists>r'. sq_view db' (miID sample_module, ''o'') = Some r' \<and>
      fStatus r' = StatusResolved \<and> fResolvedAt r' = Some 200"
    by (simp only: r Let_def t if_False)
  with run show ?thesis by (simp only: option.inject prod.inject) blast
qed

subsection \<open>Evidence\<close>

text \<open>
  C25: the evidence a scan stores can always be marshalled and its text is within the limit, so
  an upsert of an ingested finding never fails for its evidence; evidence that was fine is kept.
\<close>

theorem capped_evidence_fits:
  assumes "\<forall>ev b. fEvidence f = Some ev \<longrightarrow> json_marshal (GMap ev) = Some b \<longrightarrow> length b < 2 ^ 63"
  shows "(\<exists>col. marshalEvidence (fEvidence (capEvidence f)) = Inr col \<and>
      (\<forall>t. col = Some t \<longrightarrow> length t \<le> MaxEvidenceBytes)) \<and>
    (\<forall>ev b. fEvidence f = Some ev \<longrightarrow> json_marshal (GMap ev) = Some b \<longrightarrow>
      length b \<le> MaxEvidenceBytes \<longrightarrow> capEvidence f = f)"
proof (intro conjI)
  show "\<exists>col. marshalEvidence (fEvidence (capEvidence f)) = Inr col \<and>
      (\<forall>t. col = Some t \<longrightarrow> length t \<le> MaxEvidenceBytes)"
  proof (cases "fEvidence (capEvidence f)")
    case None
    then show ?thesis by (simp add: marshalEvidence_def)
  next
    case (Some ev)
    then obtain b where "json_marshal (GMap ev) = Some b" "length b \<le> MaxEvidenceBytes"
      using capEvidence_cases [of f ev] assms by metis
    with Some show ?thesis by (simp add: marshalEvidence_def del: json_marshal.simps)
  qed
qed (auto simp: capEvidence_def simp del: json_marshal.simps)

theorem capped_evidence_fits_witness:
  "\<exists>col. marshalEvidence (fEvidence (capEvidence
      (sample_finding ''n''\<lparr>fEvidence := Some [(''ch'', GOther None)]\<rparr>))) = Inr (Some col) \<and>
    length col \<le> MaxEvidenceBytes"
proof -
  let ?f = "sample_finding ''n''\<lparr>fEvidence := Some [(''ch'', GOther None)]\<rparr>"
  have bad: "json_marshal (GMap [(''ch'', GOther None)]) = None"
    by (simp add: encode_object_def)
  then have "fEvidence (capEvidence ?f) \<noteq> None"
    by (simp add: capEvidence_def del: json_marshal.simps)
  then have "marshalEvidence (fEvidence (capEvidence ?f)) \<noteq> Inr None"
    by (auto simp: marshalEvidence_def simp del: json_marshal.simps split: option.splits)
  moreover have "\<forall>ev b. fEvidence ?f = Some ev \<longrightarrow> json_marshal (GMap ev) = Some b \<longrightarrow> length b < 2 ^ 63"
    using bad by (simp del: json_marshal.simps)
  from capped_evidence_fits [of ?f, OF this]
  obtain col where "marshalEvidence (fEvidence (capEvidence ?f)) = Inr col"
    "\<forall>t. col = Some t \<longrightarrow> length t \<le> MaxEvidenceBytes" by blast
  ultimately show ?thesis by (cases col) simp_all
qed

subsection \<open>The two stores\<close>

text \<open>A sequence of upserts, as long as they succeed.\<close>

fun upserts :: "'s store_ops \<Rightarrow> srecord list \<Rightarrow> 's \<Rightarrow> 's option" where
  "upserts ops [] s = Some s"
| "upserts ops (r # rs) s =
     (case sUpsert ops r s of (None, s) \<Rightarrow> upserts ops rs s | (Some e, s) \<Rightarrow> None)"

text \<open>Each record of the sequence keeps the identity of what the sequence left before it.\<close>

fun keep_identity :: "store_view \<Rightarrow> srecord list \<Rightarrow> bool" where
  "keep_identity v [] = True"
| "keep_identity v (r # rs) = (identity_kept v r \<and> keep_identity (v(rkey r \<mapsto> r)) rs)"

definition norm_view :: "(srecord \<Rightarrow> srecord) \<Rightarrow> store_view \<Rightarrow> store_view" where
  "norm_view canon v = (\<lambda>k. map_option canon (v k))"

lemma norm_view_upd: "norm_view canon (v(k \<mapsto> r)) = (norm_view canon v)(k \<mapsto> canon r)"
  by (auto simp: norm_view_def)

context record_store
begin

lemma identity_norm_view: "identity_kept (norm_view canon v) r = identity_kept v r"
  by (auto simp: identity_kept_def norm_view_def same_identity_def norm_fields)

lemma upserts_view:
  assumes "upserts ops rs s = Some s'" "invar s" "\<forall>r \<in> set rs. module_ok (fModule r)"
    and "view s = norm_view canon v" "keep_identity v rs"
  shows "invar s' \<and> view s' = norm_view canon (foldl (\<lambda>v r. v(rkey r \<mapsto> r)) v rs)"
  using assms
proof (induction rs arbitrary: s v)
  case Nil
  then show ?case by simp
next
  case (Cons r rs)
  then obtain s1 where up: "sUpsert ops r s = (None, s1)" and rest: "upserts ops rs s1 = Some s'"
    by (auto split: prod.splits option.splits)
  have m: "module_ok (fModule r)" and ms: "\<forall>r \<in> set rs. module_ok (fModule r)"
    using Cons.prems(3) by simp_all
  have i1: "invar s1" by (rule upsert_invar [OF Cons.prems(2) m up])
  have "identity_kept (view s) r" using Cons.prems(4,5) by (simp add: identity_norm_view)
  from upsert_ok [OF Cons.prems(2) m this up]
  have "view s1 = norm_view canon (v(rkey r \<mapsto> r))" using Cons.prems(4) by (simp add: norm_view_upd)
  note view = this
  have "keep_identity (v(rkey r \<mapsto> r)) rs" using Cons.prems(5) by (simp only: keep_identity.simps)
  from Cons.IH [OF rest i1 ms view this] show ?case by (simp only: foldl.simps)
qed

end

text \<open>
  C19: the in-memory store and the SQLite store agree: after the same upserts, each keeping the
  identity columns of the record it replaces, they hold the same records under the same keys, up
  to the round trip of the evidence through its stored text.
\<close>

theorem stores_agree:
  assumes "upserts mem_ops rs m = Some m'" and "upserts sq_ops rs db = Some db'"
    and "mem_invar m" and "sq_invar db"
    and "sq_view db = norm_view sq_norm (mem_view m)"
    and "keep_identity (mem_view m) rs" and "\<forall>r \<in> set rs. no_nul (fModule r)"
  shows "sq_view db' = norm_view sq_norm (mem_view m')"
proof -
  have "mem_view m = norm_view (\<lambda>r. r) (mem_view m)" by (simp add: norm_view_def option.map_ident)
  from mem.upserts_view [OF assms(1,3,7) this assms(6)]
  have "mem_view m' = foldl (\<lambda>v r. v(rkey r \<mapsto> r)) (mem_view m) rs"
    by (simp add: norm_view_def option.map_ident)
  with sq.upserts_view [OF assms(2,4) _ assms(5,6)] show ?thesis by simp
qed

definition sample_records :: "srecord list" where
  "sample_records = map (\<lambda>f. opened_record 5 sample_module (fFingerprint f) f) sample_scan"

theorem stores_agree_witness:
  "\<exists>m' db'. upserts mem_ops sample_records NewMemStore = Some m' \<and>
     upserts sq_ops sample_records \<lparr>dbFindings = [], dbTargets = [], dbFaults = []\<rparr>
       = Some db' \<and>
     sq_view db' = norm_view sq_norm (mem_view m')"
proof -
  let ?db = "\<lparr>dbFindings = [], dbTargets = [], dbFaults = []\<rparr>"
  have "upserts mem_ops sample_records NewMemStore \<noteq> None"
    "upserts sq_ops sample_records ?db \<noteq> None" by code_simp+
  then obtain m' db' where up: "upserts mem_ops sample_records NewMemStore = Some m'"
    "upserts sq_ops sample_records ?db = Some db'" by auto
  have inv: "sq_invar ?db" "sq_view ?db = norm_view sq_norm (mem_view NewMemStore)"
    by (simp_all add: sq_invar_def sq_view_def norm_view_def fun_eq_iff)
  have "keep_identity (mem_view NewMemStore) sample_records"
    "\<forall>r \<in> set sample_records. no_nul (fModule r)"
    by (simp_all add: sample_records_def sample_scan_def identity_kept_def sample_finding_def
        rkey_def no_nul_def sample_module_def)
  from stores_agree [OF up mem_invar_new inv this] up show ?thesis by blast
qed

text \<open>
  C18: what is stored comes back: a record that was written is read as the same record, except that
  each value of its evidence is what its JSON text decodes to (numbers as floats, strings as UTF-8,
  keys in order); and once read, writing it back changes nothing more.
\<close>

theorem stored_record_returns:
  assumes "sq_invar db" and "identity_kept (sq_view db) r" and "sq_Upsert r db = (None, db1)"
    and "\<forall>kvs. fEvidence r = Some kvs \<longrightarrow> go_map kvs"
    and "sq_Get (fModule r) (fFingerprint r) db1 = (Inr x, db2)"
  shows "x = Some (r\<lparr>fEvidence := map_option generic_map (fEvidence r)\<rparr>) \<and>
    (\<forall>db3. sq_Upsert (the x) db2 = (None, db3) \<longrightarrow> sq_view db3 = sq_view db1)"
proof -
  have up: "sUpsert sq_ops r db = (None, db1)" and get: "sGet sq_ops (fModule r) (fFingerprint r) db1 = (Inr x, db2)"
    using assms(3,5) by (simp_all add: sq_ops_def)
  have i1: "sq_invar db1" by (rule sq.upsert_invar [OF assms(1) TrueI up])
  have v1: "sq_view db1 = (sq_view db)(rkey r \<mapsto> sq_norm r)" by (rule sq.upsert_ok [OF assms(1) TrueI assms(2) up])
  have g: "sq_invar db2" "sq_view db2 = sq_view db1" "x = sq_view db1 (fModule r, fFingerprint r)"
    using sqr.get_ok [OF i1 TrueI get] by simp_all
  have x: "x = Some (sq_norm r)" by (simp add: g(3) v1 rkey_def)
  have n: "sq_norm r = r\<lparr>fEvidence := map_option generic_map (fEvidence r)\<rparr>"
  proof (cases "fEvidence r")
    case None
    then have "r\<lparr>fEvidence := map_option generic_map (fEvidence r)\<rparr> = r" by simp
    then show ?thesis using sq_norm_none [OF None] by simp
  next
    case (Some kvs)
    with assms(4) sq_norm_some [OF Some] show ?thesis by simp
  qed
  have k: "rkey (sq_norm r) = rkey r" by (rule sq.rkey_norm)
  have "sq_view db1 (rkey r) = Some (sq_norm r)" by (simp add: v1)
  from sq.canon_kept [OF i1 this refl] have nn: "sq_norm (sq_norm r) = sq_norm r" .
  have kept: "identity_kept (sq_view db2) (sq_norm r)"
    by (simp add: identity_kept_def k g(2) v1 same_identity_def)
  have "sq_view db3 = sq_view db1" if "sq_Upsert (the x) db2 = (None, db3)" for db3
  proof -
    have "sUpsert sq_ops (sq_norm r) db2 = (None, db3)" using that by (simp add: x sq_ops_def)
    from sq.upsert_ok [OF g(1) TrueI kept this] show ?thesis by (simp add: k nn g(2) v1)
  qed
  then show ?thesis using x n by simp
qed

definition sample_evidence :: gomap where
  "sample_evidence = [(''sans'', GStrs [''a'', ''b'']), (''days_left'', GInt 5)]"

definition evidence_record :: "gomap \<Rightarrow> srecord" where
  "evidence_record ev = \<lparr>fFingerprint = ''n'', fTarget = ''a'', fCheck = ''c'', fTitle = ''t'',
     fSeverity = SeverityHigh, fRemediation = ''r'', fEvidence = Some ev, fID = ''1'', fModule = ''ssl'',
     fStatus = StatusOpen, fGroupID = None, fFirstSeen = 0, fLastSeen = 0, fResolvedAt = None, rAbsentStreak = 0\<rparr>"

theorem stored_record_returns_witness:
  "\<exists>db1 db2. sq_Upsert (evidence_record sample_evidence) sample_db = (None, db1) \<and>
     sq_Get ''ssl'' ''n'' db1 = (Inr (Some (evidence_record
       [(''days_left'', GFloat ''5''), (''sans'', GList [GStr ''a'', GStr ''b''])])), db2)"
proof -
  let ?r = "evidence_record sample_evidence"
  have r: "fEvidence ?r = Some sample_evidence" "fModule ?r = ''ssl''" "fFingerprint ?r = ''n''"
    by (simp_all add: evidence_record_def)
  have "go_map sample_evidence"
    by (simp add: go_map_def sample_evidence_def max_nesting_def encode_object_def encode_array_def)
  then have e: "\<forall>kvs. fEvidence ?r = Some kvs \<longrightarrow> go_map kvs" using r(1) by simp
  have "fst (sq_Upsert ?r sample_db) = None" by code_simp
  then obtain db1 where up: "sq_Upsert ?r sample_db = (None, db1)" by (metis prod.collapse)
  have kept: "identity_kept (sq_view sample_db) ?r"
    by (simp add: identity_kept_def rkey_def r sq_view_def sample_db_def row_key_def sample_row_def)
  have "dbFaults (snd (sq_Upsert ?r sample_db)) = []" by code_simp
  then have nf: "next_fault db1 = (None, db1)" by (simp add: up next_fault_def)
  obtain x db2 where get: "sq_Get ''ssl'' ''n'' db1 = (Inr x, db2)"
    unfolding sq_Get_def sq_select_def nf prod.case option.case sum.case
    by (cases "map scanRecord (filter (\<lambda>w. cModule w = ''ssl'' \<and> cFingerprint w = ''n'') (dbFindings db1))") simp_all
  have five: "itoa 5 = ''5''" by code_simp
  have "number_text ''5'' = Some ''5''" using number_text_itoa [of 5] unfolding five by simp
  then have "generic_map sample_evidence = [(''days_left'', GFloat ''5''), (''sans'', GList [GStr ''a'', GStr ''b''])]"
    by (simp add: generic_map_def sample_evidence_def members_def repair_ascii byte_def five)
  moreover have "x = Some (?r\<lparr>fEvidence := Some (generic_map sample_evidence)\<rparr>)"
    using stored_record_returns [OF sample_invar kept up e, of x db2] get r by simp
  ultimately show ?thesis
    using up get by (simp add: evidence_record_def)
qed

subsection \<open>Retention\<close>

text \<open>
  Pruning deletes exactly the resolved records with a resolution time before the cutoff and
  says how many they were: live and suppressed findings survive it, and so does history that is
  recent enough.
\<close>

theorem prune_only_old_resolved:
  assumes "sq_PruneResolvedBefore cutoff db = (Inr n, db')" and "sq_invar db"
  shows "sq_invar db' \<and>
    (\<forall>k r. sq_view db' k = Some r \<longleftrightarrow> sq_view db k = Some r \<and>
       \<not> (fStatus r = StatusResolved \<and> (\<exists>t. fResolvedAt r = Some t \<and> t < cutoff))) \<and>
    length (dbFindings db) = length (dbFindings db') + n"
proof -
  let ?gone = "\<lambda>w. cStatus w = StatusResolved \<and>
    (case cResolvedAt w of None \<Rightarrow> False | Some t \<Rightarrow> t < cutoff)"
  obtain db1 where nf: "next_fault db = (None, db1)"
    using assms(1) by (cases "next_fault db") (auto simp: sq_PruneResolvedBefore_def split: option.splits)
  have rows: "dbFindings db' = filter (\<lambda>w. \<not> ?gone w) (dbFindings db)"
    and n: "n = length (filter ?gone (dbFindings db))"
    using assms(1) next_fault_tables(1) [OF nf] by (auto simp: sq_PruneResolvedBefore_def nf Let_def)
  have inv: "sq_invar db'"
    using assms(2) unfolding sq_invar_def rows by (simp add: distinct_map_filter)
  have gone: "?gone w \<longleftrightarrow> fStatus (scanRecord w) = StatusResolved \<and>
      (\<exists>t. fResolvedAt (scanRecord w) = Some t \<and> t < cutoff)" for w
    by (auto simp: scanRecord_def split: option.splits)
  have "sq_view db' k = Some r \<longleftrightarrow> sq_view db k = Some r \<and>
       \<not> (fStatus r = StatusResolved \<and> (\<exists>t. fResolvedAt r = Some t \<and> t < cutoff))" for k r
    unfolding sq_view_Some [OF inv] sq_view_Some [OF assms(2)] rows using gone by auto
  moreover have "length (dbFindings db) = length (dbFindings db') + n"
    unfolding rows n using sum_length_filter_compl [of ?gone "dbFindings db"] by simp
  ultimately show ?thesis using inv by blast
qed

theorem prune_only_old_resolved_witness:
  "\<exists>db'. sq_PruneResolvedBefore 40 sample_db = (Inr 1, db') \<and> sq_invar db' \<and>
     length (dbFindings db') = 2"
proof -
  have "fst (sq_PruneResolvedBefore 40 sample_db) = Inr 1" by code_simp
  then obtain db' where run: "sq_PruneResolvedBefore 40 sample_db = (Inr 1, db')"
    by (metis prod.exhaust_sel)
  have "length (dbFindings sample_db) = 3" by (simp add: sample_db_def)
  with prune_only_old_resolved [OF run sample_invar] run show ?thesis by auto
qed

subsection \<open>Saved targets\<close>

text \<open>
  The saved targets of the database are a list without duplicate canonical forms: saving one
  twice changes nothing the second time, deleting what was just saved undoes the save, and
  listing gives the raw forms back in the order they were saved.
\<close>

theorem saved_targets_behave:
  assumes "sq_SaveTarget m raw c db = (None, db1)"
  shows "(distinct (map snd (sq_saved db m)) \<longrightarrow> distinct (map snd (sq_saved db1 m))) \<and>
    (\<forall>raw' db2. sq_SaveTarget m raw' c db1 = (None, db2) \<longrightarrow> sq_saved db2 = sq_saved db1) \<and>
    (\<forall>db2. sq_DeleteTarget m c db1 = Done (None, db2) \<longrightarrow> c \<notin> snd ` set (sq_saved db m) \<longrightarrow>
       sq_saved db2 = sq_saved db) \<and>
    (\<forall>rs db2. sq_ListSavedTargets m db1 = (Inr rs, db2) \<longrightarrow>
       rs = map fst (save_pair raw c (sq_saved db m)))"
proof -
  have ops: "tsSave sq_target_ops = sq_SaveTarget" "tsDelete sq_target_ops = sq_DeleteTarget"
    "tsList sq_target_ops = sq_ListSavedTargets" by (simp_all add: sq_target_ops_def)
  note save = assms [folded ops]
  have "rs = map fst (save_pair raw c (sq_saved db m))"
    if "tsList sq_target_ops m db1 = (Inr rs, db2)" for rs db2
    using sqt.list_ok [OF that] sqt.save_ok [OF save] by simp
  then show ?thesis
    using sqt.save_distinct [OF save] sqt.save_idempotent [OF save] sqt.save_then_delete [OF save]
    unfolding ops by blast
qed

theorem saved_targets_behave_witness:
  "\<exists>db1 db2. sq_SaveTarget ''ssl'' ''A:443'' ''a:443'' sample_db = (None, db1) \<and>
     sq_ListSavedTargets ''ssl'' db1 = (Inr [''A:443''], db2)"
proof -
  have "fst (sq_SaveTarget ''ssl'' ''A:443'' ''a:443'' sample_db) = None" by code_simp
  then obtain db1 where run: "sq_SaveTarget ''ssl'' ''A:443'' ''a:443'' sample_db = (None, db1)"
    by (metis prod.exhaust_sel)
  have "sq_ListSavedTargets ''ssl'' (snd (sq_SaveTarget ''ssl'' ''A:443'' ''a:443'' sample_db))
      = (Inr [''A:443''], snd (sq_SaveTarget ''ssl'' ''A:443'' ''a:443'' sample_db))"
    by (simp add: sq_ListSavedTargets_def sq_SaveTarget_def sample_db_def next_fault_def)
  then obtain rs db2 where list: "sq_ListSavedTargets ''ssl'' db1 = (Inr rs, db2)"
    by (simp only: run snd_conv)
  have "sq_saved sample_db ''ssl'' = []" by (simp add: sq_saved_def sample_db_def)
  moreover have "rs = map fst (save_pair ''A:443'' ''a:443'' (sq_saved sample_db ''ssl''))"
    using saved_targets_behave [OF run] list by blast
  ultimately have "rs = [''A:443'']" by (simp add: save_pair_def)
  with run list show ?thesis by blast
qed

end
