(* ===== verification/Sched.thy ===== *)
theory Sched
  imports Store_Properties Go_Float
begin

text \<open>
  \<open>sched/scheduler.go\<close>: the scan loop. A collector is what the scheduler asks it before a scan
  (\<open>Describe\<close>, \<open>ValidateTarget\<close>); what \<open>Collect\<close> returns is an argument of \<open>scanOne\<close>, and so are
  the outcome of waiting for a worker slot, the clock and the random number of a jitter. Maps are
  association lists or functions with the zero value as default. A goroutine that is started is
  part of the result of the operation that starts it. Backoff is computed on 64-bit durations,
  jitter in \<open>float64\<close> arithmetic. \<open>sweep\<close> is one pass over the targets of a module, whose goroutines run
  one after the other in an order that is an argument; \<open>moduleLoop\<close> is the loop of a module over a list
  of rounds: each has what the world contributes to its sweep and the wait before the next one.
\<close>

subsection \<open>Configuration\<close>

record sconfig =
  Workers :: int
  ScanTimeout :: duration
  JitterFraction :: rat
  RetryBase :: duration
  RetryMax :: duration
  IntervalOverride :: duration

definition sconfig_withDefaults :: "sconfig \<Rightarrow> sconfig" where
  "sconfig_withDefaults c =
     c\<lparr>Workers := (if Workers c \<le> 0 then 8 else Workers c),
       ScanTimeout := (if ScanTimeout c \<le> 0 then 30 * Second else ScanTimeout c),
       JitterFraction := (if JitterFraction c \<le> 0 \<or> JitterFraction c > 1 then rn (1/10)
                          else JitterFraction c),
       RetryBase := (if RetryBase c \<le> 0 then 30 * Second else RetryBase c),
       RetryMax := (if RetryMax c \<le> 0 then 15 * Minute else RetryMax c)\<rparr>"

subsection \<open>Backoff and jitter\<close>

text \<open>The value an \<open>int64\<close> operation keeps of an exact result.\<close>

definition wrap64 :: "int \<Rightarrow> int" where
  "wrap64 x = (x + 2 ^ 63) mod 2 ^ 64 - 2 ^ 63"

text \<open>The loop of \<open>backoffFor\<close> with \<open>k\<close> iterations left.\<close>

fun backoff_loop :: "duration \<Rightarrow> nat \<Rightarrow> duration \<Rightarrow> duration" where
  "backoff_loop limit 0 d = (if d > limit then limit else d)"
| "backoff_loop limit (Suc k) d =
     (let d = wrap64 (d * 2) in if d \<ge> limit then limit else backoff_loop limit k d)"

definition backoffFor :: "sconfig \<Rightarrow> int \<Rightarrow> duration" where
  "backoffFor cfg consecutive = backoff_loop (RetryMax cfg) (nat (consecutive - 1)) (RetryBase cfg)"

text \<open>\<open>u\<close> is the value of \<open>rng.Float64()\<close>.\<close>

definition jittered :: "sconfig \<Rightarrow> rat \<Rightarrow> duration \<Rightarrow> duration" where
  "jittered cfg u d =
     (let f = rn (1 + rn (JitterFraction cfg * rn (u - 1/2)))
      in trunc (rn (rn (of_int d) * f)))"

subsection \<open>Modules and targets\<close>

record collector =
  Describe :: module_info
  ValidateTarget :: "string \<Rightarrow> gerror + target"

record registration =
  regCollector :: collector
  regInfo :: module_info
  regTargets :: "(string \<times> target) list"

record scheduler =
  schCfg :: sconfig
  schModules :: "(string \<times> registration) list"
  schStarted :: bool
  schCancelled :: bool

definition NewScheduler :: "sconfig \<Rightarrow> scheduler" where
  "NewScheduler cfg = \<lparr>schCfg = sconfig_withDefaults cfg, schModules = [], schStarted = False,
     schCancelled = False\<rparr>"

definition Register :: "collector \<Rightarrow> scheduler \<Rightarrow> gerror option \<times> scheduler" where
  "Register c s =
     (let info = Describe c
      in if miID info = [] then (Some ''collector ModuleInfo.ID must not be empty'', s)
         else case map_of (schModules s) (miID info) of
                Some _ \<Rightarrow> (Some (''module already registered: '' @ miID info), s)
              | None \<Rightarrow>
                  (None, s\<lparr>schModules := AList.update (miID info)
                     \<lparr>regCollector = c, regInfo = info, regTargets = []\<rparr> (schModules s)\<rparr>))"

text \<open>
  \<open>AddTarget\<close>: the validated target, and whether its first scan was started. The registration is
  a copy, but its target map is shared, so the target is added to the module's entry.
\<close>

definition AddTarget ::
    "string \<Rightarrow> string \<Rightarrow> scheduler \<Rightarrow> (gerror + target) \<times> bool \<times> scheduler" where
  "AddTarget moduleID raw s =
     (case map_of (schModules s) moduleID of
        None \<Rightarrow> (Inl (''unknown module: '' @ moduleID), False, s)
      | Some reg \<Rightarrow>
          (case ValidateTarget (regCollector reg) raw of
             Inl e \<Rightarrow> (Inl e, False, s)
           | Inr t \<Rightarrow>
               (let reg = reg\<lparr>regTargets := AList.update (tCanonical t) t (regTargets reg)\<rparr>;
                    s = s\<lparr>schModules := AList.update moduleID reg (schModules s)\<rparr>
                in (Inr t, schStarted s \<and> \<not> schCancelled s, s))))"

definition RemoveTarget :: "string \<Rightarrow> string \<Rightarrow> scheduler \<Rightarrow> scheduler" where
  "RemoveTarget moduleID canonical s =
     (case map_of (schModules s) moduleID of
        None \<Rightarrow> s
      | Some reg \<Rightarrow>
          (let reg = reg\<lparr>regTargets := AList.delete canonical (regTargets reg)\<rparr>
           in s\<lparr>schModules := AList.update moduleID reg (schModules s)\<rparr>))"

text \<open>\<open>Start\<close> also returns the modules whose loops it starts.\<close>

definition Start :: "scheduler \<Rightarrow> gerror option \<times> string list \<times> scheduler" where
  "Start s =
     (if schStarted s then (Some ''scheduler already started'', [], s)
      else (None, map fst (schModules s), s\<lparr>schStarted := True\<rparr>))"

definition Stop :: "scheduler \<Rightarrow> scheduler" where
  "Stop s = (if schStarted s then s\<lparr>schCancelled := True\<rparr> else s)"

definition snapshotTargets :: "registration \<Rightarrow> target list" where
  "snapshotTargets reg = map snd (regTargets reg)"

definition ListTargets :: "string \<Rightarrow> scheduler \<Rightarrow> target list" where
  "ListTargets moduleID s =
     (case map_of (schModules s) moduleID of None \<Rightarrow> [] | Some reg \<Rightarrow> snapshotTargets reg)"

subsection \<open>One scan\<close>

datatype scan_error = Canceled | Failed gerror

record scan_result =
  srModule :: string
  srTarget :: target
  srReconcile :: reconcile_result

text \<open>
  \<open>slot\<close> is the context's error if it ended before a worker was free; \<open>collected\<close> what \<open>Collect\<close>
  returned. The second component is what \<open>OnResult\<close> is called with, if it is.
\<close>

definition scanOne ::
    "'s store_ops \<Rightarrow> (gtime \<Rightarrow> 'g \<Rightarrow> (gerror + string) \<times> 'g) \<Rightarrow> gtime \<Rightarrow> module_info \<Rightarrow> target
     \<Rightarrow> scan_error option \<Rightarrow> scan_error + finding list \<Rightarrow> 's \<Rightarrow> 'g
     \<Rightarrow> scan_error option \<times> scan_result option \<times> 's \<times> 'g" where
  "scanOne ops newID now info t slot collected s g =
     (case slot of
        Some e \<Rightarrow> (Some e, None, s, g)
      | None \<Rightarrow>
          (case collected of
             Inl e \<Rightarrow> (Some e, None, s, g)
           | Inr findings \<Rightarrow>
               (case Reconcile ops newID now info (tCanonical t) findings s g of
                  (Some e, res, s, g) \<Rightarrow> (Some (Failed e), None, s, g)
                | (None, res, s, g) \<Rightarrow>
                    (None, Some \<lparr>srModule = miID info, srTarget = t, srReconcile = res\<rparr>, s, g))))"

subsection \<open>The loop of a module\<close>

definition loop_interval :: "sconfig \<Rightarrow> module_info \<Rightarrow> duration" where
  "loop_interval cfg info =
     (let interval = miDefaultInterval info;
          interval = (if IntervalOverride cfg > 0 then IntervalOverride cfg else interval)
      in if interval \<le> 0 then Hour else interval)"

record loop_state =
  lFailures :: "string \<Rightarrow> int"
  lNextOK :: "string \<Rightarrow> gtime"

definition new_loop :: loop_state where
  "new_loop = \<lparr>lFailures = (\<lambda>_. 0), lNextOK = (\<lambda>_. zero_time)\<rparr>"

text \<open>The targets a sweep scans: those whose backoff gate has passed.\<close>

definition due :: "gtime \<Rightarrow> loop_state \<Rightarrow> target list \<Rightarrow> target list" where
  "due now l targets = filter (\<lambda>t. \<not> now < lNextOK l (tCanonical t)) targets"

text \<open>
  What a sweep's goroutine does with the outcome of its scan; the second component is the attempt
  and the delay \<open>OnError\<close> is told, if it is called.
\<close>

definition scan_done ::
    "sconfig \<Rightarrow> gtime \<Rightarrow> target \<Rightarrow> scan_error option \<Rightarrow> loop_state
     \<Rightarrow> loop_state \<times> (int \<times> duration) option" where
  "scan_done cfg now t err l =
     (let c = tCanonical t
      in case err of
           Some (Failed e) \<Rightarrow>
             (let n = lFailures l c + 1; backoff = backoffFor cfg n
              in (l\<lparr>lFailures := (lFailures l)(c := n), lNextOK := (lNextOK l)(c := now + backoff)\<rparr>,
                  Some (n, backoff)))
         | _ \<Rightarrow>
             (l\<lparr>lFailures := (lFailures l)(c := 0), lNextOK := (lNextOK l)(c := zero_time)\<rparr>,
              None))"

subsection \<open>Sweeps\<close>

text \<open>
  A sweep starts one goroutine per target and the worker slots decide in which order they get to
  work: \<open>order\<close>. The scans then run to their end one after the other here. What the world contributes
  to a scan is \<open>scan_input\<close>: the slot, what \<open>Collect\<close> returned and the clock at the reconcile and
  after the scan.
\<close>

record scan_input =
  siSlot :: "scan_error option"
  siCollected :: "scan_error + finding list"
  siReconciled :: gtime
  siFinished :: gtime

text \<open>\<open>ScanNow\<close>: the error (of the context, after the sweep), the calls of \<open>OnResult\<close>, the store.\<close>

fun scan_each ::
    "'s store_ops \<Rightarrow> (gtime \<Rightarrow> 'g \<Rightarrow> (gerror + string) \<times> 'g) \<Rightarrow> module_info \<Rightarrow> (target \<Rightarrow> scan_input)
     \<Rightarrow> target list \<Rightarrow> 's \<Rightarrow> 'g \<Rightarrow> scan_result list \<times> 's \<times> 'g" where
  "scan_each ops newID info world [] s g = ([], s, g)"
| "scan_each ops newID info world (t # ts) s g =
     (case scanOne ops newID (siReconciled (world t)) info t (siSlot (world t)) (siCollected (world t)) s g of
        (err, res, s, g) \<Rightarrow>
          (case scan_each ops newID info world ts s g of
             (results, s, g) \<Rightarrow> ((case res of None \<Rightarrow> results | Some r \<Rightarrow> r # results), s, g)))"

definition Scheduler_ScanNow ::
    "'s store_ops \<Rightarrow> (gtime \<Rightarrow> 'g \<Rightarrow> (gerror + string) \<times> 'g) \<Rightarrow> (target \<Rightarrow> scan_input)
     \<Rightarrow> (target list \<Rightarrow> target list) \<Rightarrow> gerror option \<Rightarrow> string \<Rightarrow> scheduler \<Rightarrow> 's \<Rightarrow> 'g
     \<Rightarrow> gerror option \<times> scan_result list \<times> 's \<times> 'g" where
  "Scheduler_ScanNow ops newID world order ctxErr moduleID sch s g =
     (case map_of (schModules sch) moduleID of
        None \<Rightarrow> (Some (''unknown module: '' @ moduleID), [], s, g)
      | Some reg \<Rightarrow>
          (ctxErr, scan_each ops newID (regInfo reg) world (order (snapshotTargets reg)) s g))"

text \<open>
  One sweep of a module's loop over the targets that are due: also the attempt and delay of each call
  of \<open>OnError\<close>, and the state of the loop.
\<close>

fun sweep_scans ::
    "'s store_ops \<Rightarrow> (gtime \<Rightarrow> 'g \<Rightarrow> (gerror + string) \<times> 'g) \<Rightarrow> sconfig \<Rightarrow> module_info
     \<Rightarrow> (target \<Rightarrow> scan_input) \<Rightarrow> target list \<Rightarrow> loop_state \<Rightarrow> 's \<Rightarrow> 'g
     \<Rightarrow> scan_result list \<times> (target \<times> int \<times> duration) list \<times> loop_state \<times> 's \<times> 'g" where
  "sweep_scans ops newID cfg info world [] l s g = ([], [], l, s, g)"
| "sweep_scans ops newID cfg info world (t # ts) l s g =
     (case scanOne ops newID (siReconciled (world t)) info t (siSlot (world t)) (siCollected (world t)) s g of
        (err, res, s, g) \<Rightarrow>
          (case scan_done cfg (siFinished (world t)) t err l of
             (l, told) \<Rightarrow>
               (case sweep_scans ops newID cfg info world ts l s g of
                  (results, errs, l, s, g) \<Rightarrow>
                    ((case res of None \<Rightarrow> results | Some r \<Rightarrow> r # results),
                     (case told of None \<Rightarrow> errs | Some (n, d) \<Rightarrow> (t, n, d) # errs), l, s, g))))"

definition sweep ::
    "'s store_ops \<Rightarrow> (gtime \<Rightarrow> 'g \<Rightarrow> (gerror + string) \<times> 'g) \<Rightarrow> sconfig \<Rightarrow> registration
     \<Rightarrow> (target \<Rightarrow> scan_input) \<Rightarrow> (target list \<Rightarrow> target list) \<Rightarrow> gtime \<Rightarrow> loop_state \<Rightarrow> 's \<Rightarrow> 'g
     \<Rightarrow> scan_result list \<times> (target \<times> int \<times> duration) list \<times> loop_state \<times> 's \<times> 'g" where
  "sweep ops newID cfg reg world order now l s g =
     sweep_scans ops newID cfg (regInfo reg) world (order (due now l (snapshotTargets reg))) l s g"

text \<open>
  \<open>moduleLoop\<close> until its context is cancelled: a sweep at once, then one each time the timer set for a
  jittered interval has fired. A round is one sweep: the module's registration as the sweep
  reads it, the random number of the interval before it, and how long after the timer it started.
  The result has the start, the results and the failures of every sweep.
\<close>

record round =
  roReg :: registration
  roWorld :: "target \<Rightarrow> scan_input"
  roOrder :: "target list \<Rightarrow> target list"
  roRandom :: rat
  roLate :: duration

type_synonym sweep_log = "gtime \<times> scan_result list \<times> (target \<times> int \<times> duration) list"

fun loop_rounds ::
    "'s store_ops \<Rightarrow> (gtime \<Rightarrow> 'g \<Rightarrow> (gerror + string) \<times> 'g) \<Rightarrow> sconfig \<Rightarrow> duration
     \<Rightarrow> round list \<Rightarrow> gtime \<Rightarrow> loop_state \<Rightarrow> 's \<Rightarrow> 'g
     \<Rightarrow> sweep_log list \<times> loop_state \<times> 's \<times> 'g" where
  "loop_rounds ops newID cfg interval [] prev l s g = ([], l, s, g)"
| "loop_rounds ops newID cfg interval (r # rs) prev l s g =
     (let now = prev + jittered cfg (roRandom r) interval + roLate r
      in case sweep ops newID cfg (roReg r) (roWorld r) (roOrder r) now l s g of
           (results, errs, l, s, g) \<Rightarrow>
             (case loop_rounds ops newID cfg interval rs now l s g of
                (logs, l, s, g) \<Rightarrow> ((now, results, errs) # logs, l, s, g)))"

definition moduleLoop ::
    "'s store_ops \<Rightarrow> (gtime \<Rightarrow> 'g \<Rightarrow> (gerror + string) \<times> 'g) \<Rightarrow> sconfig \<Rightarrow> gtime \<Rightarrow> round
     \<Rightarrow> round list \<Rightarrow> 's \<Rightarrow> 'g \<Rightarrow> sweep_log list \<times> loop_state \<times> 's \<times> 'g" where
  "moduleLoop ops newID cfg now r rs s g =
     (case sweep ops newID cfg (roReg r) (roWorld r) (roOrder r) now new_loop s g of
        (results, errs, l, s, g) \<Rightarrow>
          (case loop_rounds ops newID cfg (loop_interval cfg (regInfo (roReg r))) rs now l s g of
             (logs, l, s, g) \<Rightarrow> ((now, results, errs) # logs, l, s, g)))"

subsection \<open>Lemmas\<close>

lemma scanOne_keeps:
  assumes "\<And>m t s. P s \<Longrightarrow> P (snd (sListByTarget ops m t s))" "\<And>r s. P s \<Longrightarrow> P (snd (sUpsert ops r s))"
    and "P s" "scanOne ops newID now info t slot collected s g = (e, res, s', g')"
  shows "P s'"
proof -
  have "P s1" if "Reconcile ops newID now info c fs s g = (e1, res1, s1, g1)" for c fs e1 res1 s1 g1
    by (rule Reconcile_keeps [of P ops, OF assms(1,2,3) that])
  then show ?thesis
    using assms(3,4) by (auto simp: scanOne_def split: option.splits sum.splits prod.splits)
qed

lemma scan_each_keeps:
  assumes "\<And>m t s. P s \<Longrightarrow> P (snd (sListByTarget ops m t s))" "\<And>r s. P s \<Longrightarrow> P (snd (sUpsert ops r s))"
    and "P s"
  shows "P (fst (snd (scan_each ops newID info world ts s g)))"
  using assms(3)
proof (induction ts arbitrary: s g)
  case (Cons t ts)
  obtain e res s1 g1 where one: "scanOne ops newID (siReconciled (world t)) info t (siSlot (world t))
      (siCollected (world t)) s g = (e, res, s1, g1)" using prod_cases4 by blast
  have "P s1" by (rule scanOne_keeps [OF assms(1,2) Cons.prems one])
  then show ?case using Cons.IH [of s1 g1] by (auto simp: one split: prod.split)
qed simp

lemma sweep_scans_keeps:
  assumes "\<And>m t s. P s \<Longrightarrow> P (snd (sListByTarget ops m t s))" "\<And>r s. P s \<Longrightarrow> P (snd (sUpsert ops r s))"
    and "P s" "sweep_scans ops newID cfg info world ts l s g = (results, errs, l', s', g')"
  shows "P s'"
  using assms(3,4)
proof (induction ts arbitrary: l s g results errs)
  case (Cons t ts)
  obtain e res s1 g1 where one: "scanOne ops newID (siReconciled (world t)) info t (siSlot (world t))
      (siCollected (world t)) s g = (e, res, s1, g1)" using prod_cases4 by blast
  have "P s1" by (rule scanOne_keeps [OF assms(1,2) Cons.prems(1) one])
  then show ?case using Cons.IH Cons.prems(2) by (auto simp: one split: prod.splits)
qed simp

text \<open>What is reported carries the module's identifier.\<close>

lemma scanOne_module: "scanOne ops newID now info t slot collected s g = (e, Some r, s', g') \<Longrightarrow> srModule r = miID info"
  by (auto simp: scanOne_def split: option.splits sum.splits prod.splits)

lemma scan_each_module: "r \<in> set (fst (scan_each ops newID info world ts s g)) \<Longrightarrow> srModule r = miID info"
proof (induction ts arbitrary: s g)
  case (Cons t ts)
  obtain e res s1 g1 where one: "scanOne ops newID (siReconciled (world t)) info t (siSlot (world t))
      (siCollected (world t)) s g = (e, res, s1, g1)" using prod_cases4 by blast
  obtain rs s2 g2 where rest: "scan_each ops newID info world ts s1 g1 = (rs, s2, g2)" using prod_cases3 by blast
  show ?case
  proof (cases res)
    case (Some x)
    have "srModule x = miID info" by (rule scanOne_module [OF one [unfolded Some]])
    with Some show ?thesis using Cons.prems Cons.IH [of s1 g1] by (auto simp: one rest)
  qed (use Cons.prems Cons.IH [of s1 g1] in \<open>simp add: one rest\<close>)
qed simp

lemma sweep_scans_module:
  "sweep_scans ops newID cfg info world ts l s g = (results, errs, l', s', g') \<Longrightarrow> r \<in> set results \<Longrightarrow> srModule r = miID info"
proof (induction ts arbitrary: l s g results errs l' s' g')
  case (Cons t ts)
  obtain e res s1 g1 where one: "scanOne ops newID (siReconciled (world t)) info t (siSlot (world t))
      (siCollected (world t)) s g = (e, res, s1, g1)" using prod_cases4 by blast
  obtain k told where d: "scan_done cfg (siFinished (world t)) t e l = (k, told)" by fastforce
  obtain rs es k1 s2 g2 where rest: "sweep_scans ops newID cfg info world ts k s1 g1 = (rs, es, k1, s2, g2)"
    using prod_cases5 by blast
  show ?case
  proof (cases res)
    case (Some x)
    have "srModule x = miID info" by (rule scanOne_module [OF one [unfolded Some]])
    with Some show ?thesis using Cons.prems Cons.IH [OF rest] by (auto simp: one d rest)
  qed (use Cons.prems Cons.IH [OF rest] in \<open>auto simp: one d rest\<close>)
qed simp

lemma ScanNow_module:
  "r \<in> set (fst (snd (Scheduler_ScanNow ops newID world order ctxErr m sch s g))) \<Longrightarrow>
    map_of (schModules sch) m = Some reg \<Longrightarrow> srModule r = miID (regInfo reg)"
  by (auto simp: Scheduler_ScanNow_def dest: scan_each_module)

lemma ScanNow_keeps:
  assumes "\<And>m t s. P s \<Longrightarrow> P (snd (sListByTarget ops m t s))" "\<And>r s. P s \<Longrightarrow> P (snd (sUpsert ops r s))"
    and "P s"
  shows "P (fst (snd (snd (Scheduler_ScanNow ops newID world order ctxErr m sch s g))))"
  using scan_each_keeps [of P ops, OF assms] assms(3)
  by (auto simp: Scheduler_ScanNow_def split: option.split)

lemma wrap64_id: "- (2 ^ 63) \<le> x \<Longrightarrow> x < 2 ^ 63 \<Longrightarrow> wrap64 x = x"
  by (simp add: wrap64_def)

lemma backoff_loop_min:
  "0 < d \<Longrightarrow> d < 2 ^ 62 \<Longrightarrow> limit \<le> 2 ^ 62 \<Longrightarrow> backoff_loop limit k d = min limit (d * 2 ^ k)"
proof (induction k arbitrary: d)
  case 0
  then show ?case by simp
next
  case (Suc k)
  have w: "wrap64 (d * 2) = d * 2" using Suc.prems by (intro wrap64_id) simp_all
  show ?case
  proof (cases "d * 2 \<ge> limit")
    case True
    have "d * 2 * 1 \<le> d * 2 * 2 ^ k" using Suc.prems(1) by (intro mult_left_mono) simp_all
    with True have "limit \<le> d * 2 ^ Suc k" by simp
    with True show ?thesis by (simp add: w Let_def)
  next
    case False
    then have "backoff_loop limit k (d * 2) = min limit (d * 2 * 2 ^ k)"
      using Suc.prems by (intro Suc.IH) simp_all
    with False show ?thesis by (simp add: w Let_def mult.assoc)
  qed
qed

lemma rn_le_int: "x \<le> of_int i \<Longrightarrow> \<bar>i\<bar> \<le> 2 ^ 53 \<Longrightarrow> rn x \<le> of_int i"
  using rn_mono [of x "of_int i"] by (simp add: rn_of_int)

lemma rn_ge_int: "of_int i \<le> x \<Longrightarrow> \<bar>i\<bar> \<le> 2 ^ 53 \<Longrightarrow> of_int i \<le> rn x"
  using rn_mono [of "of_int i" x] by (simp add: rn_of_int)

lemma rn_half: "rn (1/2) = 1/2" "rn (3/2) = 3/2"
  by (rule rn_exact [of 1 _ "-1"] rn_exact [of 3 _ "-1"]; simp)+

lemma trunc_bounds: "of_int i \<le> x \<Longrightarrow> 0 \<le> i \<Longrightarrow> i \<le> trunc x" "x \<le> of_int i \<Longrightarrow> 0 \<le> x \<Longrightarrow> trunc x \<le> i"
proof -
  assume "of_int i \<le> x" "0 \<le> i"
  moreover from this have "0 \<le> x" by (meson of_int_0_le_iff order_trans)
  ultimately show "i \<le> trunc x" by (simp add: trunc_def le_floor_iff)
next
  assume "x \<le> of_int i" "0 \<le> x"
  then show "trunc x \<le> i" by (simp add: trunc_def) (metis floor_mono floor_of_int)
qed

text \<open>A jitter factor is between one half and three halves.\<close>

lemma jitter_factor:
  assumes "0 < j" "j \<le> 1" "0 \<le> u" "u \<le> 1"
  shows "1/2 \<le> rn (1 + rn (j * rn (u - 1/2)))" "rn (1 + rn (j * rn (u - 1/2))) \<le> 3/2"
proof -
  have half: "rn (- (1/2)) = - (1/2)" by (simp add: rn_minus rn_half)
  have a: "- (1/2) \<le> rn (u - 1/2)" "rn (u - 1/2) \<le> 1/2"
    using rn_mono [of "- (1/2)" "u - 1/2"] rn_mono [of "u - 1/2" "1/2"] assms
    by (simp_all add: half rn_half)
  have "j * \<bar>rn (u - 1/2)\<bar> \<le> 1 * (1/2)" using a assms by (intro mult_mono) auto
  then have "\<bar>j * rn (u - 1/2)\<bar> \<le> 1/2" using assms by (simp add: abs_mult)
  then have "- (1/2) \<le> j * rn (u - 1/2)" "j * rn (u - 1/2) \<le> 1/2" by linarith+
  from rn_mono [OF this(1)] rn_mono [OF this(2)]
  have "1/2 \<le> 1 + rn (j * rn (u - 1/2))" "1 + rn (j * rn (u - 1/2)) \<le> 3/2"
    by (simp_all add: half rn_half)
  from rn_mono [OF this(1)] rn_mono [OF this(2)]
  show "1/2 \<le> rn (1 + rn (j * rn (u - 1/2)))" "rn (1 + rn (j * rn (u - 1/2))) \<le> 3/2"
    by (simp_all add: rn_half)
qed

text \<open>A computed duration is between what its factor's bounds give.\<close>

lemma scaled_duration:
  assumes "0 \<le> d" "d \<le> 2 ^ 53" "0 \<le> f" "of_int lo \<le> of_int d * f" "of_int d * f \<le> of_int hi"
    and "0 \<le> lo" "hi \<le> 2 ^ 53"
  shows "lo \<le> trunc (rn (rn (of_int d) * f))" "trunc (rn (rn (of_int d) * f)) \<le> hi"
proof -
  have d: "rn (of_int d) = (of_int d :: rat)" using assms by (intro rn_of_int) simp
  have lohi: "lo \<le> hi" using assms(4,5) by (metis of_int_le_iff order_trans)
  have "of_int lo \<le> rn (of_int d * f)" using assms lohi by (intro rn_ge_int) simp_all
  then show "lo \<le> trunc (rn (rn (of_int d) * f))" unfolding d using assms(6) by (rule trunc_bounds)
  have "rn (of_int d * f) \<le> of_int hi" using assms lohi by (intro rn_le_int) simp_all
  moreover have "0 \<le> rn (of_int d * f)" using assms by (intro rn_nonneg) simp
  ultimately show "trunc (rn (rn (of_int d) * f)) \<le> hi" unfolding d by (rule trunc_bounds)
qed

subsection \<open>Properties\<close>

text \<open>
  The backoff after the n-th consecutive failure is the base delay doubled n - 1 times, capped
  at the maximum, for every n however large, as long as the limits leave the doubling room in 64
  bits; it is positive and never above the maximum.
\<close>

theorem backoffFor_exact:
  assumes "0 < RetryBase cfg" and "RetryBase cfg < 2 ^ 62" and "0 < RetryMax cfg"
    and "RetryMax cfg \<le> 2 ^ 62" and "1 \<le> n"
  shows "backoffFor cfg n = min (RetryMax cfg) (RetryBase cfg * 2 ^ nat (n - 1)) \<and>
    0 < backoffFor cfg n \<and> backoffFor cfg n \<le> RetryMax cfg"
proof -
  have "backoffFor cfg n = min (RetryMax cfg) (RetryBase cfg * 2 ^ nat (n - 1))"
    unfolding backoffFor_def by (rule backoff_loop_min [OF assms(1,2,4)])
  with assms(1,3) show ?thesis by (simp add: min_def)
qed

definition default_cfg :: sconfig where
  "default_cfg = sconfig_withDefaults \<lparr>Workers = 0, ScanTimeout = 0, JitterFraction = 0,
     RetryBase = 0, RetryMax = 0, IntervalOverride = 0\<rparr>"

lemma default_cfg_simps [simp]:
  "RetryBase default_cfg = 30 * Second" "RetryMax default_cfg = 15 * Minute"
  "JitterFraction default_cfg = rn (1/10)" "IntervalOverride default_cfg = 0"
  by (simp_all add: default_cfg_def sconfig_withDefaults_def)

theorem backoffFor_exact_witness:
  "backoffFor default_cfg 3 = 120 * Second \<and> backoffFor default_cfg 1000000 = 15 * Minute"
proof -
  have "(2 :: int) ^ 5 \<le> 2 ^ nat (1000000 - 1)" by (rule power_increasing) simp_all
  moreover have "min (15 * Minute) (30 * Second * p) = 15 * Minute" if "2 ^ 5 \<le> p" for p :: int
    using that by simp
  ultimately have "min (15 * Minute) (30 * Second * 2 ^ nat (1000000 - 1)) = 15 * Minute" by blast
  moreover have "backoffFor default_cfg 1000000
      = min (RetryMax default_cfg) (RetryBase default_cfg * 2 ^ nat (1000000 - 1))"
    by (rule backoffFor_exact [THEN conjunct1]) simp_all
  ultimately have "backoffFor default_cfg 1000000 = 15 * Minute"
    by (simp only: default_cfg_simps)
  moreover have "nat (3 - 1 :: int) = 2" by simp
  ultimately show ?thesis using backoffFor_exact [of default_cfg 3] by simp
qed

text \<open>
  Beyond that the doubling overflows: with the largest duration as maximum the delay after
  the sixtieth failure is zero instead of the maximum.
\<close>

theorem backoffFor_overflows:
  "\<exists>cfg. 0 < RetryBase cfg \<and> RetryMax cfg = 2 ^ 63 - 1 \<and> sconfig_withDefaults cfg = cfg \<and>
    backoffFor cfg 60 = 0"
proof -
  let ?cfg = "\<lparr>Workers = 8, ScanTimeout = 30 * Second, JitterFraction = 1/2, RetryBase = 30 * Second,
    RetryMax = 2 ^ 63 - 1, IntervalOverride = 0\<rparr>"
  have "backoffFor ?cfg 60 = 0" by code_simp
  then show ?thesis by (intro exI [of _ ?cfg]) (simp add: sconfig_withDefaults_def)
qed

definition failed :: "scan_error option \<Rightarrow> bool" where
  "failed e \<longleftrightarrow> (\<exists>m. e = Some (Failed m))"

definition after_scans :: "sconfig \<Rightarrow> target \<Rightarrow> (gtime \<times> scan_error option) list \<Rightarrow> loop_state" where
  "after_scans cfg t outs = fold (\<lambda>(now, err) l. fst (scan_done cfg now t err l)) outs new_loop"

definition failure_run :: "(gtime \<times> scan_error option) list \<Rightarrow> nat" where
  "failure_run outs = length (takeWhile (\<lambda>p. failed (snd p)) (rev outs))"

lemma scan_done_failed:
  "scan_done cfg now t (Some (Failed m)) l =
    (l\<lparr>lFailures := (lFailures l)(tCanonical t := lFailures l (tCanonical t) + 1),
       lNextOK := (lNextOK l)(tCanonical t := now + backoffFor cfg (lFailures l (tCanonical t) + 1))\<rparr>,
     Some (lFailures l (tCanonical t) + 1, backoffFor cfg (lFailures l (tCanonical t) + 1)))"
  by (simp add: scan_done_def Let_def)

lemma scan_done_ok:
  "\<not> failed e \<Longrightarrow> scan_done cfg now t e l =
    (l\<lparr>lFailures := (lFailures l)(tCanonical t := 0),
       lNextOK := (lNextOK l)(tCanonical t := zero_time)\<rparr>, None)"
  by (auto simp: scan_done_def failed_def Let_def split: option.splits scan_error.splits)

lemma after_scans_state:
  "lFailures (after_scans cfg t outs) (tCanonical t) = int (failure_run outs) \<and>
   lNextOK (after_scans cfg t outs) (tCanonical t) =
     (if outs = [] \<or> \<not> failed (snd (last outs)) then zero_time
      else fst (last outs) + backoffFor cfg (int (failure_run outs)))"
proof (induction outs rule: rev_induct)
  case Nil
  show ?case by (simp add: after_scans_def new_loop_def failure_run_def)
next
  case (snoc x outs)
  obtain now e where x: "x = (now, e)" by (cases x)
  have step: "after_scans cfg t (outs @ [x]) = fst (scan_done cfg now t e (after_scans cfg t outs))"
    by (simp add: after_scans_def x)
  show ?case
  proof (cases "failed e")
    case True
    then obtain m where e: "e = Some (Failed m)" by (auto simp: failed_def)
    show ?thesis
      unfolding step unfolding e scan_done_failed
      using True snoc by (simp add: failure_run_def x e add.commute)
  next
    case False
    then show ?thesis unfolding step by (simp add: scan_done_ok failure_run_def x)
  qed
qed

text \<open>
  C31: the gate of a target follows the history of its scans: the failure count is the number of
  failures since the last scan that did not fail, and a sweep skips the target exactly if its last
  scan failed and less than the backoff for that count has passed since.
\<close>

theorem backoff_gate:
  assumes "zero_time \<le> now"
  shows "lFailures (after_scans cfg t outs) (tCanonical t) = int (failure_run outs) \<and>
    (t \<in> set (due now (after_scans cfg t outs) [t]) \<longleftrightarrow> outs = [] \<or> \<not> failed (snd (last outs)) \<or>
       fst (last outs) + backoffFor cfg (int (failure_run outs)) \<le> now)"
  using assms after_scans_state [of cfg t outs] by (auto simp: due_def)

definition sample_target :: target where
  "sample_target = \<lparr>tRaw = ''A'', tCanonical = ''a:443'', tMeta = []\<rparr>"

theorem backoff_gate_witness:
  "due (50 * Second) (after_scans default_cfg sample_target [(0, None), (20 * Second, Some (Failed ''x''))])
     [sample_target] = [sample_target]"
proof -
  have "zero_time \<le> 50 * Second" by (simp add: zero_time_def)
  moreover have "backoffFor default_cfg 1 = 30 * Second" by (simp add: backoffFor_def)
  ultimately show ?thesis
    using backoff_gate [of "50 * Second" default_cfg sample_target
        "[(0, None), (20 * Second, Some (Failed ''x''))]"]
    by (auto simp: failure_run_def failed_def due_def split: if_splits)
qed

text \<open>
  A jittered interval is within half of the interval of it, whatever the random number and
  the rounding, so a loop neither spins nor stalls.
\<close>

theorem jittered_bounds:
  assumes "0 < JitterFraction cfg" and "JitterFraction cfg \<le> 1" and "0 \<le> u" and "u < 1"
    and "0 \<le> d" and "d \<le> 2 ^ 52"
  shows "d div 2 \<le> jittered cfg u d \<and> jittered cfg u d \<le> d + (d + 1) div 2"
proof -
  let ?f = "rn (1 + rn (JitterFraction cfg * rn (u - 1/2)))"
  have f: "1/2 \<le> ?f" "?f \<le> 3/2" using jitter_factor assms(1-4) by simp_all
  have "(of_int (d div 2) :: rat) \<le> of_int d * (1/2)"
    using of_int_le_iff [of "d div 2 * 2" d, where ?'a = rat] by simp
  also have "\<dots> \<le> of_int d * ?f" using f assms(5) by (intro mult_left_mono) simp_all
  finally have lo: "of_int (d div 2) \<le> of_int d * ?f" .
  have "of_int d * ?f \<le> of_int d * (3/2)" using f assms(5) by (intro mult_left_mono) simp_all
  also have "(of_int d * (3/2) :: rat) \<le> of_int (d + (d + 1) div 2)"
    using of_int_le_iff [of d "(d + 1) div 2 * 2", where ?'a = rat] by simp
  finally have hi: "of_int d * ?f \<le> of_int (d + (d + 1) div 2)" .
  show ?thesis
    unfolding jittered_def Let_def
    using assms(5,6) f by (intro conjI scaled_duration [OF _ _ _ lo hi]) simp_all
qed

theorem jittered_bounds_witness:
  "0 < jittered default_cfg (1/3) (12 * Hour) \<and> jittered default_cfg (1/3) (12 * Hour) \<le> 18 * Hour"
proof -
  have j: "0 < JitterFraction default_cfg" "JitterFraction default_cfg \<le> 1"
    using rn_mono [of "1/10" 1] rn_mono [of "1/16" "1/10"] rn_of_int [of 1] rn_exact [of 1 "1/16" "-4"]
    by simp_all
  show ?thesis using jittered_bounds [OF j, of "1/3" "12 * Hour"] by simp
qed

text \<open>
  The loop is paced: one sweep per round, each at least half of the interval after the sweep before
  it began, and no later than one and a half intervals and the delay of its round after that. What
  the scans find, how they fail and what is monitored has no influence on that.
\<close>

fun paced :: "duration \<Rightarrow> gtime \<Rightarrow> duration list \<Rightarrow> gtime list \<Rightarrow> bool" where
  "paced d prev [] ts \<longleftrightarrow> ts = []"
| "paced d prev (late # ls) ts \<longleftrightarrow>
     (case ts of
        [] \<Rightarrow> False
      | t # ts \<Rightarrow> prev + d div 2 + late \<le> t \<and> t \<le> prev + d + (d + 1) div 2 + late \<and> paced d t ls ts)"

lemma loop_rounds_paced:
  assumes "0 < JitterFraction cfg" "JitterFraction cfg \<le> 1" "0 \<le> d" "d \<le> 2 ^ 52"
    and "\<forall>r\<in>set rs. 0 \<le> roRandom r \<and> roRandom r < 1"
  shows "paced d prev (map roLate rs) (map fst (fst (loop_rounds ops newID cfg d rs prev l s g)))"
  using assms(5)
proof (induction rs arbitrary: prev l s g)
  case (Cons r rs)
  define now where "now = prev + jittered cfg (roRandom r) d + roLate r"
  obtain results errs l1 s1 g1
    where sw: "sweep ops newID cfg (roReg r) (roWorld r) (roOrder r) now l s g = (results, errs, l1, s1, g1)"
    using prod_cases5 by blast
  obtain logs l2 s2 g2 where rest: "loop_rounds ops newID cfg d rs now l1 s1 g1 = (logs, l2, s2, g2)"
    using prod_cases4 by blast
  have "loop_rounds ops newID cfg d (r # rs) prev l s g = ((now, results, errs) # logs, l2, s2, g2)"
    by (simp add: now_def [symmetric] sw rest)
  moreover have "paced d now (map roLate rs) (map fst logs)"
    using Cons.IH [of now l1 s1 g1] Cons.prems by (simp add: rest)
  moreover have "d div 2 \<le> jittered cfg (roRandom r) d \<and> jittered cfg (roRandom r) d \<le> d + (d + 1) div 2"
    using Cons.prems by (intro jittered_bounds assms(1-4)) simp_all
  ultimately show ?case by (simp add: now_def)
qed simp

theorem moduleLoop_paced:
  assumes "0 < JitterFraction cfg" "JitterFraction cfg \<le> 1" "loop_interval cfg (regInfo (roReg r)) \<le> 2 ^ 52"
    and "\<forall>x\<in>set rs. 0 \<le> roRandom x \<and> roRandom x < 1"
  shows "\<exists>first others. map fst (fst (moduleLoop ops newID cfg now r rs s g)) = first # others \<and> first = now \<and>
    paced (loop_interval cfg (regInfo (roReg r))) first (map roLate rs) others"
proof -
  obtain results errs l1 s1 g1
    where sw: "sweep ops newID cfg (roReg r) (roWorld r) (roOrder r) now new_loop s g = (results, errs, l1, s1, g1)"
    using prod_cases5 by blast
  obtain logs l2 s2 g2
    where rest: "loop_rounds ops newID cfg (loop_interval cfg (regInfo (roReg r))) rs now l1 s1 g1 = (logs, l2, s2, g2)"
    using prod_cases4 by blast
  have "0 \<le> loop_interval cfg (regInfo (roReg r))" by (simp add: loop_interval_def Let_def)
  then show ?thesis
    using loop_rounds_paced [OF assms(1,2) _ assms(3,4), of now ops newID l1 s1 g1]
    by (simp add: moduleLoop_def sw rest)
qed

lemma sweep_keeps:
  assumes "\<And>m t s. P s \<Longrightarrow> P (snd (sListByTarget ops m t s))" "\<And>r s. P s \<Longrightarrow> P (snd (sUpsert ops r s))"
    and "P s" "sweep ops newID cfg reg world order now l s g = (results, errs, l', s', g')"
  shows "P s'"
  by (rule sweep_scans_keeps [of P ops, OF assms(1-3) assms(4) [unfolded sweep_def]])

lemma loop_rounds_keeps:
  assumes "\<And>m t s. P s \<Longrightarrow> P (snd (sListByTarget ops m t s))" "\<And>r s. P s \<Longrightarrow> P (snd (sUpsert ops r s))"
    and "P s" "loop_rounds ops newID cfg d rs prev l s g = (logs, l', s', g')"
  shows "P s'"
  using assms(3,4)
proof (induction rs arbitrary: prev l s g logs l' s' g')
  case (Cons r rs)
  define now where "now = prev + jittered cfg (roRandom r) d + roLate r"
  obtain results errs l1 s1 g1
    where sw: "sweep ops newID cfg (roReg r) (roWorld r) (roOrder r) now l s g = (results, errs, l1, s1, g1)"
    using prod_cases5 by blast
  obtain logs1 l2 s2 g2 where rest: "loop_rounds ops newID cfg d rs now l1 s1 g1 = (logs1, l2, s2, g2)"
    using prod_cases4 by blast
  have "P s1" by (rule sweep_keeps [of P ops, OF assms(1,2) Cons.prems(1) sw])
  then have "P s2" by (rule Cons.IH [OF _ rest])
  then show ?case using Cons.prems(2) by (simp add: now_def [symmetric] sw rest)
qed simp

lemma moduleLoop_keeps:
  assumes "\<And>m t s. P s \<Longrightarrow> P (snd (sListByTarget ops m t s))" "\<And>r s. P s \<Longrightarrow> P (snd (sUpsert ops r s))"
    and "P s" "moduleLoop ops newID cfg now r rs s g = (logs, l', s', g')"
  shows "P s'"
proof -
  obtain results errs l1 s1 g1
    where sw: "sweep ops newID cfg (roReg r) (roWorld r) (roOrder r) now new_loop s g = (results, errs, l1, s1, g1)"
    using prod_cases5 by blast
  obtain logs1 l2 s2 g2
    where rest: "loop_rounds ops newID cfg (loop_interval cfg (regInfo (roReg r))) rs now l1 s1 g1 = (logs1, l2, s2, g2)"
    using prod_cases4 by blast
  have s1: "P s1" by (rule sweep_keeps [of P ops, OF assms(1-3) sw])
  have "P s2" by (rule loop_rounds_keeps [of P ops, OF assms(1,2) s1 rest])
  then show ?thesis using assms(4) by (simp add: moduleLoop_def sw rest)
qed

lemma jitter_factor_default:
  assumes "0 \<le> u" "u \<le> 1"
  shows "15/16 \<le> rn (1 + rn (rn (1/10) * rn (u - 1/2)))"
proof -
  have ex: "rn (1/8) = 1/8" "rn (1/16) = 1/16" "rn (15/16) = 15/16"
    by (rule rn_exact [of 1 _ "-3"] rn_exact [of 1 _ "-4"] rn_exact [of 15 _ "-4"]; simp)+
  have j: "0 \<le> rn (1/10)" "rn (1/10) \<le> 1/8"
    using rn_nonneg [of "1/10"] rn_mono [of "1/10" "1/8"] by (simp_all add: ex)
  have "- (1/2) \<le> rn (u - 1/2)"
    using rn_mono [of "- (1/2)" "u - 1/2"] assms by (simp add: rn_minus rn_half)
  then have "rn (1/10) * (- (1/2)) \<le> rn (1/10) * rn (u - 1/2)" using j by (intro mult_left_mono)
  then have "- (1/16) \<le> rn (1/10) * rn (u - 1/2)" using j by linarith
  from rn_mono [OF this] have "15/16 \<le> 1 + rn (rn (1/10) * rn (u - 1/2))" by (simp add: rn_minus ex)
  from rn_mono [OF this] show ?thesis by (simp add: ex)
qed

text \<open>
  With the default configuration and a module that scans every twelve hours the delay a failed
  scan is told never matters: it is over long before the next sweep, which is the next time the
  target is scanned and which then finds its gate open, so a failed scan is not retried early.
\<close>

theorem retry_waits_for_sweep:
  assumes "loop_interval default_cfg info = 12 * Hour" and "0 \<le> u" and "u < 1"
    and "0 \<le> lFailures l (tCanonical t)" and "t0 \<le> start + 11 * Hour"
    and "scan_done default_cfg t0 t (Some (Failed e)) l = (l', Some (n, delay))"
  shows "t0 + delay \<le> start + jittered default_cfg u (loop_interval default_cfg info) \<and>
    due (start + jittered default_cfg u (loop_interval default_cfg info)) l' [t] = [t]"
proof -
  let ?f = "rn (1 + rn (rn (1/10) * rn (u - 1/2)))"
  have n: "n = lFailures l (tCanonical t) + 1" and delay: "delay = backoffFor default_cfg n"
    and gate: "lNextOK l' (tCanonical t) = t0 + delay"
    using assms(6) by (auto simp: scan_done_failed)
  have d: "delay \<le> 15 * Minute"
    using backoff_loop_min [of "30 * Second" "15 * Minute"] by (simp add: delay backoffFor_def)
  have f: "15/16 \<le> ?f" "?f \<le> 3/2"
    using jitter_factor_default jitter_factor(2) [of "rn (1/10)" u] assms(2,3)
      rn_mono [of "1/10" 1] rn_mono [of "1/16" "1/10"] rn_of_int [of 1] rn_exact [of 1 "1/16" "-4"]
    by simp_all
  have "(of_int (12 * Hour) :: rat) * (15/16) \<le> of_int (12 * Hour) * ?f"
    "(of_int (12 * Hour) :: rat) * ?f \<le> of_int (12 * Hour) * (3/2)"
    using f by (intro mult_left_mono; simp)+
  then have b: "of_int (11 * Hour + 15 * Minute) \<le> (of_int (12 * Hour) :: rat) * ?f"
    "(of_int (12 * Hour) :: rat) * ?f \<le> of_int (18 * Hour)" by simp_all
  have "11 * Hour + 15 * Minute \<le> jittered default_cfg u (12 * Hour)"
    unfolding jittered_def Let_def default_cfg_simps
    by (rule scaled_duration [OF _ _ _ b]) (use f in simp_all)
  with d assms(5) gate show ?thesis unfolding assms(1) by (simp add: due_def)
qed

definition daily_module :: module_info where
  "daily_module = \<lparr>miID = ''certwatch'', miName = ''CertLight'', miVersion = ''0.1.5'',
     miTargetKind = ''host:port'', miDefaultInterval = 12 * Hour, miResolveAfter = 1\<rparr>"

theorem retry_waits_for_sweep_witness:
  "due (jittered default_cfg (1/4) (12 * Hour))
     (fst (scan_done default_cfg (30 * Second) sample_target (Some (Failed ''timeout'')) new_loop))
     [sample_target] = [sample_target]"
proof -
  have i: "loop_interval default_cfg daily_module = 12 * Hour"
    by (simp add: loop_interval_def daily_module_def)
  have l: "0 \<le> lFailures new_loop (tCanonical sample_target)" by (simp add: new_loop_def)
  have s: "scan_done default_cfg (30 * Second) sample_target (Some (Failed ''timeout'')) new_loop =
      (fst (scan_done default_cfg (30 * Second) sample_target (Some (Failed ''timeout'')) new_loop),
       Some (1, backoffFor default_cfg 1))"
    by (simp add: scan_done_failed new_loop_def)
  show ?thesis
    using retry_waits_for_sweep [OF i _ _ l _ s, where u = "1/4" and start = 0]
    unfolding i by simp
qed

definition interrupted_db :: sq_db where
  "interrupted_db = \<lparr>dbFindings = [], dbTargets = [], dbFaults = [None, None, Some ''disk full'']\<rparr>"

definition scanned_target :: target where
  "scanned_target = \<lparr>tRaw = ''a'', tCanonical = ''a'', tMeta = []\<rparr>"

definition two_findings :: "scan_error + finding list" where
  "two_findings = Inr [sample_finding ''first'', sample_finding ''second'']"

text \<open>
  The announcement of a finding can be lost for good: a scan stores a new finding, fails on a
  later one and returns an error without a result; the next scan reports both, and announces only
  the one that was not stored.
\<close>

theorem announcement_lost:
  "case scanOne sq_ops sample_ids 100 sample_module scanned_target None two_findings
      interrupted_db 0
   of (e, r, db, g) \<Rightarrow> e = Some (Failed ''disk full'') \<and> r = None \<and>
     map cFingerprint (dbFindings db) = [''first''] \<and> map cStatus (dbFindings db) = [StatusOpen] \<and>
     (case scanOne sq_ops sample_ids 200 sample_module scanned_target None two_findings
        db g
      of (e, r, db, g) \<Rightarrow> e = None \<and>
        map_option (\<lambda>r. map fFingerprint (NewlyOpen (srReconcile r))) r = Some [''second''])"
  by code_simp

subsection \<open>The registry\<close>

text \<open>The targets of all modules as one map.\<close>

definition registry :: "scheduler \<Rightarrow> string \<times> string \<Rightarrow> target option" where
  "registry s = (\<lambda>(m, c). case map_of (schModules s) m of
     None \<Rightarrow> None | Some reg \<Rightarrow> map_of (regTargets reg) c)"

lemma AddTarget_cases:
  "case AddTarget m raw s of
     (Inr t, launched, s') \<Rightarrow> registry s' = (registry s)((m, tCanonical t) \<mapsto> t) \<and>
       (launched \<longleftrightarrow> schStarted s \<and> \<not> schCancelled s)
   | (Inl e, launched, s') \<Rightarrow> s' = s \<and> \<not> launched"
  by (auto simp: AddTarget_def registry_def Let_def fun_eq_iff update_conv'
      split: option.splits sum.splits)

lemma registry_add:
  "AddTarget m raw s = (Inr t, launched, s') \<Longrightarrow> registry s' = (registry s)((m, tCanonical t) \<mapsto> t)"
  using AddTarget_cases [where m = m and raw = raw and s = s] by simp

lemma AddTarget_fails: "AddTarget m raw s = (Inl e, launched, s') \<Longrightarrow> s' = s"
  using AddTarget_cases [where m = m and raw = raw and s = s] by simp

lemma registry_remove: "registry (RemoveTarget m c s) = (registry s)((m, c) := None)"
  by (auto simp: RemoveTarget_def registry_def Let_def fun_eq_iff update_conv' delete_conv'
      split: option.splits)

text \<open>
  The registry of targets is a map from module and canonical form to the target: adding a
  valid target to a known module puts it there and starts its first scan exactly while the
  scheduler runs, removing takes it away, and nothing else changes; an invalid target or an
  unknown module changes nothing.
\<close>

theorem target_registry:
  "(case AddTarget m raw s of
      (Inr t, launched, s') \<Rightarrow> registry s' = (registry s)((m, tCanonical t) \<mapsto> t) \<and>
        (launched \<longleftrightarrow> schStarted s \<and> \<not> schCancelled s)
    | (Inl e, launched, s') \<Rightarrow> s' = s \<and> \<not> launched) \<and>
   registry (RemoveTarget m c s) = (registry s)((m, c) := None) \<and>
   registry (snd (Register col s)) = registry s"
proof (intro conjI AddTarget_cases)
  show "registry (RemoveTarget m c s) = (registry s)((m, c) := None)" by (rule registry_remove)
  show "registry (snd (Register col s)) = registry s"
    by (auto simp: Register_def registry_def Let_def fun_eq_iff update_conv'
        split: option.splits if_splits)
qed

subsection \<open>One dead host\<close>

text \<open>Two states of a loop that only differ in what they hold on one target.\<close>

definition agree_off :: "string \<Rightarrow> loop_state \<Rightarrow> loop_state \<Rightarrow> bool" where
  "agree_off c l l' \<longleftrightarrow> (\<forall>c'. c' \<noteq> c \<longrightarrow> lFailures l c' = lFailures l' c' \<and> lNextOK l c' = lNextOK l' c')"

lemma agree_off_refl [simp]: "agree_off c l l"
  by (simp add: agree_off_def)

lemma scan_done_self: "agree_off (tCanonical t) (fst (scan_done cfg now t err l)) l"
  by (auto simp: scan_done_def agree_off_def Let_def split: option.split scan_error.split)

lemma scan_done_other:
  assumes "agree_off c l l'" "tCanonical t \<noteq> c"
  shows "agree_off c (fst (scan_done cfg now t err l)) (fst (scan_done cfg now t err l')) \<and>
    snd (scan_done cfg now t err l) = snd (scan_done cfg now t err l')"
  using assms by (auto simp: scan_done_def agree_off_def Let_def split: option.split scan_error.split)

lemma sweep_agree:
  assumes "agree_off c l l'" "c \<notin> tCanonical ` set ts"
    and "sweep_scans ops newID cfg info world ts l s g = (results, errs, l1, s1, g1)"
  shows "\<exists>l2. sweep_scans ops newID cfg info world ts l' s g = (results, errs, l2, s1, g1) \<and> agree_off c l1 l2"
  using assms
proof (induction ts arbitrary: l l' s g results errs l1 s1 g1)
  case (Cons t ts)
  obtain e res s0 g0 where one: "scanOne ops newID (siReconciled (world t)) info t (siSlot (world t))
      (siCollected (world t)) s g = (e, res, s0, g0)" using prod_cases4 by blast
  obtain k told k' told' where d: "scan_done cfg (siFinished (world t)) t e l = (k, told)"
    "scan_done cfg (siFinished (world t)) t e l' = (k', told')" by fastforce
  have dd: "agree_off c k k'" "told' = told"
    using scan_done_other [OF Cons.prems(1), of t cfg "siFinished (world t)" e] Cons.prems(2) d by auto
  obtain rs es k1 s2 g2 where rest: "sweep_scans ops newID cfg info world ts k s0 g0 = (rs, es, k1, s2, g2)"
    using prod_cases5 by blast
  have c: "c \<notin> tCanonical ` set ts" using Cons.prems(2) by simp
  obtain l2 where "sweep_scans ops newID cfg info world ts k' s0 g0 = (rs, es, l2, s2, g2)" "agree_off c k1 l2"
    using Cons.IH [OF dd(1) c rest] by blast
  then show ?case using Cons.prems(3) by (auto simp: one d dd rest)
qed simp

text \<open>\<open>OnError\<close> is told of scanned targets only.\<close>

lemma told_targets:
  "sweep_scans ops newID cfg info world ts l s g = (results, errs, l1, s1, g1) \<Longrightarrow> fst ` set errs \<subseteq> set ts"
proof (induction ts arbitrary: l s g results errs l1 s1 g1)
  case (Cons t ts)
  then show ?case by (fastforce split: prod.splits option.splits)
qed simp

text \<open>
  C20: a host that cannot be scanned slows only itself: the store, the results, the backoff of every
  other target and what the error callback is told of them are after the sweep exactly what they are after a
  sweep without that host, wherever it came in the order.
\<close>

theorem dead_host_isolated:
  assumes "distinct (map tCanonical (before @ t # after))"
    and "siSlot (world t) \<noteq> None \<or> (\<exists>e. siCollected (world t) = Inl e)"
    and "sweep_scans ops newID cfg info world (before @ t # after) l s g = (results, errs, l1, s1, g1)"
  shows "\<exists>l2. sweep_scans ops newID cfg info world (before @ after) l s g =
      (results, filter (\<lambda>x. tCanonical (fst x) \<noteq> tCanonical t) errs, l2, s1, g1) \<and>
    agree_off (tCanonical t) l1 l2"
  using assms(1,3)
proof (induction before arbitrary: l s g results errs l1 s1 g1)
  case Nil
  obtain e where one: "scanOne ops newID (siReconciled (world t)) info t (siSlot (world t))
      (siCollected (world t)) s g = (Some e, None, s, g)"
    using assms(2) by (cases "siSlot (world t)") (auto simp: scanOne_def)
  obtain k told where d: "scan_done cfg (siFinished (world t)) t (Some e) l = (k, told)" by fastforce
  obtain rs es k1 s2 g2 where rest: "sweep_scans ops newID cfg info world after k s g = (rs, es, k1, s2, g2)"
    using prod_cases5 by blast
  have "agree_off (tCanonical t) k l" using scan_done_self [of t cfg "siFinished (world t)" "Some e" l] d by simp
  from sweep_agree [OF this _ rest] Nil.prems(1) obtain l2 where
    l2: "sweep_scans ops newID cfg info world after l s g = (rs, es, l2, s2, g2)" "agree_off (tCanonical t) k1 l2"
    by auto
  have "tCanonical (fst x) \<in> tCanonical ` set after" if "x \<in> set es" for x
    using told_targets [OF rest] that by blast
  then have "filter (\<lambda>x. tCanonical (fst x) \<noteq> tCanonical t) es = es"
    using Nil.prems(1) by (intro filter_True) fastforce
  then show ?case using Nil.prems(2) l2 by (cases told) (auto simp: one d rest)
next
  case (Cons b bs)
  obtain e res s0 g0 where one: "scanOne ops newID (siReconciled (world b)) info b (siSlot (world b))
      (siCollected (world b)) s g = (e, res, s0, g0)" using prod_cases4 by blast
  obtain k told where d: "scan_done cfg (siFinished (world b)) b e l = (k, told)" by fastforce
  obtain rs es k1 s2 g2 where rest: "sweep_scans ops newID cfg info world (bs @ t # after) k s0 g0 = (rs, es, k1, s2, g2)"
    using prod_cases5 by blast
  have dist: "distinct (map tCanonical (bs @ t # after))" and other: "tCanonical b \<noteq> tCanonical t"
    using Cons.prems(1) by auto
  obtain l2 where "sweep_scans ops newID cfg info world (bs @ after) k s0 g0 =
      (rs, filter (\<lambda>x. tCanonical (fst x) \<noteq> tCanonical t) es, l2, s2, g2)" "agree_off (tCanonical t) k1 l2"
    using Cons.IH [OF dist rest] by blast
  then show ?case using Cons.prems(2) other by (cases told) (auto simp: one d rest)
qed

definition half_dead :: "target \<Rightarrow> scan_input" where
  "half_dead t = \<lparr>siSlot = None,
     siCollected = (if tCanonical t = ''dead:443'' then Inl (Failed ''connection refused'') else two_findings),
     siReconciled = 100, siFinished = 101\<rparr>"

theorem dead_host_isolated_witness:
  "let swept = \<lambda>ts. sweep_scans sq_ops sample_ids default_cfg sample_module half_dead ts new_loop
     \<lparr>dbFindings = [], dbTargets = [], dbFaults = []\<rparr> 0
   in fst (swept [\<lparr>tRaw = ''dead'', tCanonical = ''dead:443'', tMeta = []\<rparr>, scanned_target]) = fst (swept [scanned_target]) \<and>
     length (fst (swept [scanned_target])) = 1"
proof -
  let ?sw = "\<lambda>ts. sweep_scans sq_ops sample_ids default_cfg sample_module half_dead ts new_loop
     \<lparr>dbFindings = [], dbTargets = [], dbFaults = []\<rparr> 0"
  let ?d = "\<lparr>tRaw = ''dead'', tCanonical = ''dead:443'', tMeta = []\<rparr>"
  obtain results errs l s g where sw: "?sw ([] @ ?d # [scanned_target]) = (results, errs, l, s, g)"
    using prod_cases5 by blast
  have "distinct (map tCanonical ([] @ ?d # [scanned_target]))" by code_simp
  moreover have "siSlot (half_dead ?d) \<noteq> None \<or> (\<exists>e. siCollected (half_dead ?d) = Inl e)"
    by (simp add: half_dead_def)
  ultimately have "fst (?sw [scanned_target]) = results"
    using dead_host_isolated [OF _ _ sw] by auto
  moreover have "length (fst (?sw [scanned_target])) = 1" by code_simp
  ultimately show ?thesis using sw by simp
qed

end
