(* ===== verification/Notify_Channels.thy ===== *)
theory Notify_Channels
  imports Notify_Format Sched Go_Http
begin

text \<open>
  The channels of \<open>notify/channels.go\<close> and \<open>notify/hfs.go\<close> and the glue of \<open>notify/bridge.go\<close> and
  \<open>hfsbridge/hfsbridge.go\<close>: what each channel puts on the wire for a digest and which answers it
  takes for a delivery. The network is a record of functions (building a request, doing it,
  dialling, writing), the host's time zone is an argument \<open>zone\<close>, and the third-party event
  constructor and sink of hexward-core are arguments \<open>hfs_new\<close> and \<open>sink_send\<close>.
\<close>

subsection \<open>HTTP\<close>

record http_env =
  heNewRequest :: "string \<Rightarrow> string \<Rightarrow> gerror option"
  heDo :: "http_request \<Rightarrow> gerror + int \<times> string"

text \<open>
  The part the three HTTP channels have in common: the request that was sent, if one was, and the
  error \<open>Send\<close> returns.
\<close>

definition post ::
    "http_env \<Rightarrow> string \<Rightarrow> string \<Rightarrow> (http_request \<Rightarrow> http_request) \<Rightarrow> string
     \<Rightarrow> http_request option \<times> gerror option" where
  "post env name url headers body =
     (case heNewRequest env ''POST'' url of
        Some e \<Rightarrow> (None, Some e)
      | None \<Rightarrow>
          (let req = \<lparr>rqMethod = ''POST'', rqURL = url, rqHeader = [], rqBody = body\<rparr>;
               req = headers (set_header ''Content-Type'' ''application/json'' req)
           in (Some req,
               case heDo env req of
                 Inl e \<Rightarrow> Some e
               | Inr (code, status) \<Rightarrow>
                   (if code < 200 \<or> code > 299 then Some (name @ '' returned '' @ status)
                    else None))))"

subsection \<open>The webhook\<close>

record webhook_channel =
  whURL :: string
  whSecret :: string

record webhook_finding =
  wfTarget :: string
  wfCheck :: string
  wfSeverity :: string
  wfTitle :: string
  wfRemediation :: string
  wfEvidence :: evidence

record webhook_payload =
  wpVersion :: int
  wpModule :: string
  wpAt :: gtime
  wpOpened :: "webhook_finding list"
  wpResolved :: "webhook_finding list"

definition toWire :: "finding \<Rightarrow> webhook_finding" where
  "toWire f =
     \<lparr>wfTarget = fTarget f, wfCheck = fCheck f, wfSeverity = fSeverity f, wfTitle = fTitle f,
      wfRemediation = fRemediation f, wfEvidence = fEvidence f\<rparr>"

definition webhook_finding_json :: "webhook_finding \<Rightarrow> string option" where
  "webhook_finding_json w =
     encode_struct
       ([(''target'', Some (quote (wfTarget w))), (''check'', Some (quote (wfCheck w))),
         (''severity'', Some (quote (wfSeverity w))), (''title'', Some (quote (wfTitle w))),
         (''remediation'', Some (quote (wfRemediation w)))]
        @ (case wfEvidence w of
             None \<Rightarrow> []
           | Some kvs \<Rightarrow> if kvs = [] then [] else [(''evidence'', json_marshal (GMap kvs))]))"

definition webhook_payload_json :: "(gtime \<Rightarrow> int) \<Rightarrow> webhook_payload \<Rightarrow> string option" where
  "webhook_payload_json zone p =
     encode_struct
       ([(''version'', Some (itoa (wpVersion p))), (''module'', Some (quote (wpModule p))),
         (''at'', marshal_time (local_time zone (wpAt p)))]
        @ (if wpOpened p = [] then []
           else [(''opened'', encode_array (map webhook_finding_json (wpOpened p)))])
        @ (if wpResolved p = [] then []
           else [(''resolved'', encode_array (map webhook_finding_json (wpResolved p)))]))"

definition webhook_headers :: "webhook_channel \<Rightarrow> http_request \<Rightarrow> http_request" where
  "webhook_headers w req =
     (if whSecret w \<noteq> []
      then set_header ''X-Sentinel-Token'' (whSecret w)
        (set_header ''X-Hexward-Token'' (whSecret w) req)
      else req)"

definition webhook_Send ::
    "(gtime \<Rightarrow> int) \<Rightarrow> http_env \<Rightarrow> webhook_channel \<Rightarrow> digest
     \<Rightarrow> http_request option \<times> gerror option" where
  "webhook_Send zone env w d =
     (let payload = \<lparr>wpVersion = 1, wpModule = dgModule d, wpAt = dgAt d,
        wpOpened = map toWire (dgOpened d), wpResolved = map toWire (dgResolved d)\<rparr>
      in case webhook_payload_json zone payload of
           None \<Rightarrow> (None, Some marshal_error)
         | Some body \<Rightarrow> post env ''webhook'' (whURL w) (webhook_headers w) body)"

subsection \<open>Slack and Telegram\<close>

definition string_map_json :: "(string \<times> string) list \<Rightarrow> string option" where
  "string_map_json kvs = encode_object (map (\<lambda>(k, v). (k, Some (quote v))) kvs)"

definition slack_Send :: "http_env \<Rightarrow> string \<Rightarrow> digest \<Rightarrow> http_request option \<times> gerror option" where
  "slack_Send env webhookURL d =
     (case string_map_json [(''text'', FormatText d)] of
        None \<Rightarrow> (None, Some marshal_error)
      | Some body \<Rightarrow> post env ''slack'' webhookURL id body)"

record telegram_channel =
  tgBotToken :: string
  tgChatID :: string
  tgBaseURL :: string

definition telegram_url :: "telegram_channel \<Rightarrow> string" where
  "telegram_url t =
     (let base = (if tgBaseURL t = [] then ''https://api.telegram.org'' else tgBaseURL t)
      in base @ ''/bot'' @ tgBotToken t @ ''/sendMessage'')"

definition telegram_Send ::
    "http_env \<Rightarrow> telegram_channel \<Rightarrow> digest \<Rightarrow> http_request option \<times> gerror option" where
  "telegram_Send env t d =
     (case string_map_json [(''chat_id'', tgChatID t), (''text'', FormatText d)] of
        None \<Rightarrow> (None, Some marshal_error)
      | Some body \<Rightarrow> post env ''telegram'' (telegram_url t) id body)"

subsection \<open>Syslog\<close>

text \<open>\<open>write k l\<close> is what the write of the \<open>k\<close>th line returns. The result starts with the lines written.\<close>

fun write_lines ::
    "(nat \<Rightarrow> string \<Rightarrow> gerror option) \<Rightarrow> nat \<Rightarrow> string list \<Rightarrow> string list \<times> gerror option" where
  "write_lines write k [] = ([], None)"
| "write_lines write k (l # ls) =
     (case write k l of
        Some e \<Rightarrow> ([], Some e)
      | None \<Rightarrow> (case write_lines write (Suc k) ls of (done, err) \<Rightarrow> (l # done, err)))"

record net_env =
  neDial :: "string \<Rightarrow> string \<Rightarrow> gerror option"
  neWrite :: "nat \<Rightarrow> string \<Rightarrow> gerror option"

definition syslog_Send ::
    "host_env \<Rightarrow> net_env \<Rightarrow> syslog_channel \<Rightarrow> digest \<Rightarrow> string list \<times> gerror option" where
  "syslog_Send host net c d =
     (if Empty d then ([], None)
      else
        let network = (if syNetwork c = [] then ''udp'' else syNetwork c)
        in case neDial net network (syAddr c) of
             Some e \<Rightarrow> ([], Some e)
           | None \<Rightarrow> write_lines (neWrite net) 0 (lines host c d))"

subsection \<open>Finding Schema events\<close>

record hfs_source =
  hsID :: string
  hsFingerprint :: string
  hsCheck :: string
  hsTitle :: string
  hsTarget :: string
  hsSeverity :: string
  hsStatus :: string
  hsRemediation :: string
  hsFirstSeen :: gtime
  hsLastSeen :: gtime
  hsResolvedAt :: "gtime option"
  hsGroupID :: "string option"
  hsEvidence :: evidence

definition Source :: "finding \<Rightarrow> hfs_source" where
  "Source f =
     \<lparr>hsID = fID f, hsFingerprint = fFingerprint f, hsCheck = fCheck f, hsTitle = fTitle f,
      hsTarget = fTarget f, hsSeverity = fSeverity f, hsStatus = fStatus f,
      hsRemediation = fRemediation f, hsFirstSeen = fFirstSeen f, hsLastSeen = fLastSeen f,
      hsResolvedAt = fResolvedAt f, hsGroupID = fGroupID f, hsEvidence = fEvidence f\<rparr>"

record hfs_meta =
  hmProduct :: string
  hmVersion :: string
  hmHost :: string

datatype hfs_kind = HfsOpened | HfsResolved

definition Events ::
    "(hfs_kind \<Rightarrow> hfs_meta \<Rightarrow> hfs_source \<Rightarrow> gtime \<Rightarrow> 'o \<Rightarrow> 'e) \<Rightarrow> gtime \<Rightarrow> hfs_meta \<Rightarrow> digest \<Rightarrow> 'o
     \<Rightarrow> 'e list" where
  "Events hfs_new now meta d opt =
     (let meta = (if hmProduct meta = [] then meta\<lparr>hmProduct := dgModule d\<rparr> else meta);
          stamp = (if dgAt d = zero_time then now else dgAt d)
      in map (\<lambda>f. hfs_new HfsOpened meta (Source f) stamp opt) (dgOpened d)
       @ map (\<lambda>f. hfs_new HfsResolved meta (Source f) stamp opt) (dgResolved d))"

definition hfs_Send ::
    "(hfs_kind \<Rightarrow> hfs_meta \<Rightarrow> hfs_source \<Rightarrow> gtime \<Rightarrow> 'o \<Rightarrow> 'e) \<Rightarrow> gtime \<Rightarrow> ('e list \<Rightarrow> gerror option)
     \<Rightarrow> hfs_meta \<Rightarrow> 'o \<Rightarrow> digest \<Rightarrow> 'e list \<times> gerror option" where
  "hfs_Send hfs_new now sink_send meta opt d =
     (if Empty d then ([], None)
      else (Events hfs_new now meta d opt, sink_send (Events hfs_new now meta d opt)))"

subsection \<open>From the scheduler to the dispatcher\<close>

definition result_events :: "scan_result \<Rightarrow> event list" where
  "result_events r =
     map (\<lambda>f. \<lparr>eKind = KindOpened, eModule = srModule r, eFinding = f\<rparr>) (NewlyOpen (srReconcile r))
     @ map (\<lambda>f. \<lparr>eKind = KindResolved, eModule = srModule r, eFinding = f\<rparr>)
         (Resolved (srReconcile r))"

text \<open>\<open>prev\<close> is the callback that was installed before, on a state of its own.\<close>

definition BindScheduler ::
    "(scan_result \<Rightarrow> 'w \<Rightarrow> 'w) option \<Rightarrow> gtime \<Rightarrow> scan_result \<Rightarrow> 'w \<times> dispatcher
     \<Rightarrow> 'w \<times> dispatcher" where
  "BindScheduler prev now r = (\<lambda>(w, d).
     (case prev of None \<Rightarrow> w | Some p \<Rightarrow> p r w,
      fold (\<lambda>e. Enqueue e now) (result_events r) d))"

subsection \<open>Lemmas\<close>

text \<open>Evidence that went through ingest marshals.\<close>

lemma capped_marshals:
  assumes "fEvidence (capEvidence g) = Some kvs"
  shows "json_marshal (GMap kvs) \<noteq> None"
proof (cases "fEvidence g")
  case None
  with assms show ?thesis by (simp add: capEvidence_def)
next
  case (Some ev)
  show ?thesis
  proof (cases "json_marshal (GMap ev)")
    case None
    then have "kvs = [(''_error'', GStr ''evidence not serialisable; dropped'')]"
      using Some assms by (simp add: capEvidence_def)
    then show ?thesis by (simp add: encode_object_def)
  next
    case (Some b)
    have "kvs = ev \<or> kvs = [(''_truncated'', GBool True),
        (''_original_bytes'', GInt (int (length b))),
        (''_note'', GStr ''evidence exceeded MaxEvidenceBytes and was dropped'')]"
      using Some assms \<open>fEvidence g = Some ev\<close>
      by (simp add: capEvidence_def split: if_splits)
    then show ?thesis
    proof
      assume "kvs = ev"
      with Some show ?thesis by simp
    next
      assume k: "kvs = [(''_truncated'', GBool True), (''_original_bytes'', GInt (int (length b))),
        (''_note'', GStr ''evidence exceeded MaxEvidenceBytes and was dropped'')]"
      have "\<exists>s. encode_object (map (map_prod id json_marshal) kvs) = Some s"
        unfolding k by (rule encode_object_ok) auto
      then show ?thesis by auto
    qed
  qed
qed

lemma webhook_finding_json_ok:
  assumes "fEvidence f = fEvidence (capEvidence g)"
  shows "webhook_finding_json (toWire f) \<noteq> None"
proof -
  have "\<exists>s. webhook_finding_json (toWire f) = Some s"
    unfolding webhook_finding_json_def
    using capped_marshals [of g] assms
    by (intro encode_struct_ok) (auto simp: toWire_def split: option.splits if_splits)
  then show ?thesis by simp
qed

lemma post_None:
  "snd (post env name url hs body) = None \<longleftrightarrow> heNewRequest env ''POST'' url = None \<and>
     (\<exists>code status. heDo env (hs (set_header ''Content-Type'' ''application/json''
        \<lparr>rqMethod = ''POST'', rqURL = url, rqHeader = [], rqBody = body\<rparr>)) = Inr (code, status) \<and>
        200 \<le> code \<and> code \<le> 299)"
  by (auto simp: post_def Let_def split: option.splits sum.splits)

lemma write_lines_spec:
  "case write_lines wr k ls of (done, err) \<Rightarrow>
     (\<exists>rest. ls = done @ rest \<and> (\<forall>j < length done. wr (k + j) (ls ! j) = None) \<and>
       (case err of None \<Rightarrow> rest = []
        | Some e \<Rightarrow> rest \<noteq> [] \<and> wr (k + length done) (hd rest) = Some e))"
proof (induction wr k ls rule: write_lines.induct)
  case (2 wr k l ls)
  show ?case
  proof (cases "wr k l")
    case None
    obtain d err where w: "write_lines wr (Suc k) ls = (d, err)" by fastforce
    with 2 None obtain rest where ls: "ls = d @ rest"
      and a: "\<forall>j < length d. wr (Suc k + j) (ls ! j) = None"
      and b: "case err of None \<Rightarrow> rest = []
        | Some e \<Rightarrow> rest \<noteq> [] \<and> wr (Suc k + length d) (hd rest) = Some e" by auto
    have "\<forall>j < length (l # d). wr (k + j) ((l # ls) ! j) = None"
    proof (intro allI impI)
      fix j
      assume "j < length (l # d)"
      then show "wr (k + j) ((l # ls) ! j) = None"
        using None a by (cases j) auto
    qed
    moreover have "l # ls = (l # d) @ rest" using ls by simp
    moreover have "case err of None \<Rightarrow> rest = []
        | Some e \<Rightarrow> rest \<noteq> [] \<and> wr (k + length (l # d)) (hd rest) = Some e"
      using b by (simp split: option.splits)
    ultimately have "\<exists>rest. l # ls = (l # d) @ rest \<and>
        (\<forall>j < length (l # d). wr (k + j) ((l # ls) ! j) = None) \<and>
        (case err of None \<Rightarrow> rest = []
         | Some e \<Rightarrow> rest \<noteq> [] \<and> wr (k + length (l # d)) (hd rest) = Some e)" by blast
    moreover have "write_lines wr k (l # ls) = (l # d, err)" using None w by simp
    ultimately show ?thesis by (simp only: prod.case)
  qed simp
qed simp

definition digest_payload :: "digest \<Rightarrow> webhook_payload" where
  "digest_payload d = \<lparr>wpVersion = 1, wpModule = dgModule d, wpAt = dgAt d,
     wpOpened = map toWire (dgOpened d), wpResolved = map toWire (dgResolved d)\<rparr>"

text \<open>A finding whose evidence went through ingest.\<close>

definition ingested :: "finding \<Rightarrow> bool" where
  "ingested f \<longleftrightarrow> (\<exists>g. fEvidence f = fEvidence (capEvidence g))"

text \<open>What a receiver reads of a finding, and of a digest.\<close>

definition read_string :: "string \<Rightarrow> json" where
  "read_string s = JStr (repair s) (escape s)"

definition read_finding :: "finding \<Rightarrow> json" where
  "read_finding f =
     JObj ([(''target'', read_string (fTarget f)), (''check'', read_string (fCheck f)),
        (''severity'', read_string (fSeverity f)), (''title'', read_string (fTitle f)),
        (''remediation'', read_string (fRemediation f))]
       @ (case fEvidence f of
            None \<Rightarrow> []
          | Some kvs \<Rightarrow> if kvs = [] then [] else [(''evidence'', json_of (GMap kvs))]))"

text \<open>Evidence that went through ingest, of Go values, and not nested deeper than the decoder reads.\<close>

definition readable :: "finding \<Rightarrow> bool" where
  "readable f \<longleftrightarrow> ingested f \<and>
     (\<forall>kvs. fEvidence f = Some kvs \<longrightarrow> go_value (GMap kvs) \<and> shallow (max_nesting - 3) (GMap kvs))"

lemma reads_finding:
  assumes "readable f"
  shows "\<exists>t. webhook_finding_json (toWire f) = Some t \<and> reads (max_nesting - 2) t (read_finding f)"
proof -
  define ev where "ev = (case fEvidence f of None \<Rightarrow> []
    | Some kvs \<Rightarrow> if kvs = [] then [] else [(''evidence'', the (json_marshal (GMap kvs)), json_of (GMap kvs))])"
  define ms where "ms = [(''target'', quote (fTarget f), read_string (fTarget f)),
      (''check'', quote (fCheck f), read_string (fCheck f)),
      (''severity'', quote (fSeverity f), read_string (fSeverity f)),
      (''title'', quote (fTitle f), read_string (fTitle f)),
      (''remediation'', quote (fRemediation f), read_string (fRemediation f))] @ ev"
  have m: "json_marshal (GMap kvs) \<noteq> None" if "fEvidence f = Some kvs" for kvs
    using assms that capped_marshals unfolding readable_def ingested_def by metis
  have "reads (max_nesting - 3) (the (json_marshal (GMap kvs))) (json_of (GMap kvs))" if "fEvidence f = Some kvs" for kvs
    using assms m [OF that] that unfolding readable_def by (intro reads_marshal) auto
  then have "\<forall>(k, t, j) \<in> set ms. reads (max_nesting - 3) t j"
    by (auto simp: ms_def ev_def read_string_def reads_string simp del: json_of.simps json_marshal.simps split: option.splits)
  then obtain t where t: "encode_struct (map (\<lambda>(k, t, j). (k, Some t)) ms) = Some t"
    "reads (Suc (max_nesting - 3)) t (JObj (map member_of ms))" using reads_struct by blast
  have ev: "map (\<lambda>(k, t, j). (k, Some t)) ev = (case fEvidence f of
         None \<Rightarrow> [] | Some kvs \<Rightarrow> if kvs = [] then [] else [(''evidence'', json_marshal (GMap kvs))])"
    "map member_of ev = (case fEvidence f of
         None \<Rightarrow> [] | Some kvs \<Rightarrow> if kvs = [] then [] else [(''evidence'', json_of (GMap kvs))])"
    using m by (auto simp: ev_def member_of_def repair_ascii byte_def simp del: json_of.simps json_marshal.simps split: option.split)
  have "webhook_finding_json (toWire f) = encode_struct (map (\<lambda>(k, t, j). (k, Some t)) ms)"
    unfolding webhook_finding_json_def ms_def map_append ev(1) by (simp add: toWire_def)
  moreover have "JObj (map member_of ms) = read_finding f"
    unfolding read_finding_def ms_def map_append ev(2) by (simp add: member_of_def repair_ascii byte_def)
  moreover have "Suc (max_nesting - 3) = max_nesting - 2" by (simp add: max_nesting_def)
  ultimately show ?thesis using t by simp
qed

lemma reads_findings:
  assumes "\<forall>f \<in> set fs. readable f"
  shows "\<exists>t. encode_array (map webhook_finding_json (map toWire fs)) = Some t \<and>
    reads (max_nesting - 1) t (JArr (map read_finding fs))"
proof -
  have "list_all2 (\<lambda>e j. \<exists>t. e = Some t \<and> reads (max_nesting - 2) t j)
      (map webhook_finding_json (map toWire fs)) (map read_finding fs)"
    unfolding list_all2_map1 list_all2_map2 list_all2_same using assms reads_finding by blast
  from reads_texts [OF this] show ?thesis by (simp add: max_nesting_def)
qed

lemma webhook_body:
  assumes "\<forall>f \<in> set (dgOpened d) \<union> set (dgResolved d). readable f" "marshal_time (local_time zone (dgAt d)) = Some ts"
  shows "\<exists>body. webhook_payload_json zone (digest_payload d) = Some body \<and>
    json_parse body = Some (JObj
      ([(''version'', JNum ''1''), (''module'', read_string (dgModule d)),
        (''at'', read_string (format_RFC3339Nano (local_time zone (dgAt d))))]
       @ (if dgOpened d = [] then [] else [(''opened'', JArr (map read_finding (dgOpened d)))])
       @ (if dgResolved d = [] then [] else [(''resolved'', JArr (map read_finding (dgResolved d)))])))"
proof -
  obtain o' r' where arr: "encode_array (map webhook_finding_json (map toWire (dgOpened d))) = Some o'"
    "reads (max_nesting - 1) o' (JArr (map read_finding (dgOpened d)))"
    "encode_array (map webhook_finding_json (map toWire (dgResolved d))) = Some r'"
    "reads (max_nesting - 1) r' (JArr (map read_finding (dgResolved d)))"
    using reads_findings [of "dgOpened d"] reads_findings [of "dgResolved d"] assms(1) by auto
  define ms where "ms = [(''version'', ''1'', JNum ''1''), (''module'', quote (dgModule d), read_string (dgModule d)),
      (''at'', ts, read_string (format_RFC3339Nano (local_time zone (dgAt d))))]
      @ (if dgOpened d = [] then [] else [(''opened'', o', JArr (map read_finding (dgOpened d)))])
      @ (if dgResolved d = [] then [] else [(''resolved'', r', JArr (map read_finding (dgResolved d)))])"
  have itoa: "itoa 1 = ''1''" by code_simp
  then have one: "itoa 1 = ''1''" "reads n ''1'' (JNum ''1'')" for n
    using reads_number [OF lex_itoa, of n 1] by simp_all
  have ts: "ts = quote (format_RFC3339Nano (local_time zone (dgAt d)))" by (rule marshal_time_quote [OF assms(2)])
  have "\<forall>(k, t, j) \<in> set ms. reads (max_nesting - 1) t j"
    using arr by (auto simp: ms_def ts read_string_def reads_string one)
  then obtain body where body: "encode_struct (map (\<lambda>(k, t, j). (k, Some t)) ms) = Some body"
    "reads (Suc (max_nesting - 1)) body (JObj (map member_of ms))" using reads_struct by blast
  have "webhook_payload_json zone (digest_payload d) = encode_struct (map (\<lambda>(k, t, j). (k, Some t)) ms)"
    using arr assms(2) by (simp add: webhook_payload_json_def digest_payload_def ms_def one)
  moreover have "json_parse body = Some (JObj (map member_of ms))"
    by (rule json_parse_reads [OF body(2)]) (simp add: max_nesting_def)
  ultimately show ?thesis using body(1) by (simp add: ms_def member_of_def repair_ascii byte_def)
qed

lemma webhook_Send_payload:
  "webhook_Send zone env w d =
     (case webhook_payload_json zone (digest_payload d) of
        None \<Rightarrow> (None, Some marshal_error)
      | Some body \<Rightarrow> post env ''webhook'' (whURL w) (webhook_headers w) body)"
  by (simp add: webhook_Send_def digest_payload_def)

lemma webhook_header_map:
  "map_of (rqHeader (webhook_headers w (set_header ''Content-Type'' ''application/json'' req))) =
     (if whSecret w = [] then (map_of (rqHeader req))(''Content-Type'' \<mapsto> ''application/json'')
      else (map_of (rqHeader req))(''Content-Type'' \<mapsto> ''application/json'',
        ''X-Hexward-Token'' \<mapsto> whSecret w, ''X-Sentinel-Token'' \<mapsto> whSecret w))"
  by (simp add: webhook_headers_def set_header_def update_conv')

lemma webhook_headers_same [simp]:
  "rqMethod (webhook_headers w req) = rqMethod req" "rqURL (webhook_headers w req) = rqURL req"
  "rqBody (webhook_headers w req) = rqBody req"
  by (simp_all add: webhook_headers_def set_header_def)

lemma set_header_same [simp]:
  "rqMethod (set_header k v req) = rqMethod req" "rqURL (set_header k v req) = rqURL req"
  "rqBody (set_header k v req) = rqBody req"
  by (simp_all add: set_header_def)

subsection \<open>Properties\<close>

text \<open>
  C32: the webhook never fails on what ingest lets through, and what it posts is the digest: for
  findings with ingested evidence it sends one POST to its URL with a JSON content type and both token
  headers exactly if a secret is set, the body decodes to the version, the module, the time and the two
  lists with every finding's target, check, severity, title, remediation and evidence in the order of
  the digest (a list that is empty is left out), and it reports success exactly for an answer with a
  2xx code.
\<close>

theorem webhook_delivers:
  assumes "\<forall>f \<in> set (dgOpened d) \<union> set (dgResolved d). readable f" and "marshal_time (local_time zone (dgAt d)) = Some ts"
    and "heNewRequest env ''POST'' (whURL w) = None"
  shows "\<exists>req. webhook_Send zone env w d = (Some req,
      case heDo env req of
        Inl e \<Rightarrow> Some e
      | Inr (code, status) \<Rightarrow>
          if 200 \<le> code \<and> code \<le> 299 then None else Some (''webhook returned '' @ status)) \<and>
    rqMethod req = ''POST'' \<and> rqURL req = whURL w \<and>
    map_of (rqHeader req) ''Content-Type'' = Some ''application/json'' \<and>
    map_of (rqHeader req) ''X-Hexward-Token'' = (if whSecret w = [] then None else Some (whSecret w)) \<and>
    map_of (rqHeader req) ''X-Sentinel-Token'' = (if whSecret w = [] then None else Some (whSecret w)) \<and>
    json_parse (rqBody req) = Some (JObj
      ([(''version'', JNum ''1''), (''module'', read_string (dgModule d)),
        (''at'', read_string (format_RFC3339Nano (local_time zone (dgAt d))))]
       @ (if dgOpened d = [] then [] else [(''opened'', JArr (map read_finding (dgOpened d)))])
       @ (if dgResolved d = [] then [] else [(''resolved'', JArr (map read_finding (dgResolved d)))])))"
proof -
  obtain body where body: "webhook_payload_json zone (digest_payload d) = Some body"
    "json_parse body = Some (JObj
      ([(''version'', JNum ''1''), (''module'', read_string (dgModule d)),
        (''at'', read_string (format_RFC3339Nano (local_time zone (dgAt d))))]
       @ (if dgOpened d = [] then [] else [(''opened'', JArr (map read_finding (dgOpened d)))])
       @ (if dgResolved d = [] then [] else [(''resolved'', JArr (map read_finding (dgResolved d)))])))"
    using webhook_body [of d zone ts, OF assms(1,2)] by blast
  define req where "req = webhook_headers w (set_header ''Content-Type'' ''application/json''
      \<lparr>rqMethod = ''POST'', rqURL = whURL w, rqHeader = [], rqBody = body\<rparr>)"
  have send: "webhook_Send zone env w d = (Some req,
      case heDo env req of
        Inl e \<Rightarrow> Some e
      | Inr (code, status) \<Rightarrow>
          if 200 \<le> code \<and> code \<le> 299 then None else Some (''webhook returned '' @ status))"
    unfolding webhook_Send_payload body(1)
    by (auto simp: post_def Let_def assms(3) req_def split: sum.splits)
  have h: "map_of (rqHeader req) ''Content-Type'' = Some ''application/json''"
    "map_of (rqHeader req) ''X-Hexward-Token'' = (if whSecret w = [] then None else Some (whSecret w))"
    "map_of (rqHeader req) ''X-Sentinel-Token'' = (if whSecret w = [] then None else Some (whSecret w))"
    unfolding req_def webhook_header_map by simp_all
  have r: "rqMethod req = ''POST''" "rqURL req = whURL w" "rqBody req = body"
    by (simp_all add: req_def)
  show ?thesis
    by (rule exI [of _ req]) (use send h r body(2) in \<open>simp only: simp_thms\<close>)
qed

definition sample_http :: http_env where
  "sample_http = \<lparr>heNewRequest = (\<lambda>_ _. None), heDo = (\<lambda>_. Inr (204, ''204 No Content''))\<rparr>"

theorem webhook_delivers_witness:
  "\<exists>req. webhook_Send (\<lambda>_. 25200) sample_http \<lparr>whURL = ''u'', whSecret = ''s''\<rparr> sample_digest =
     (Some req, None) \<and> map_of (rqHeader req) ''X-Sentinel-Token'' = Some ''s''"
proof -
  have "capEvidence (eFinding sample_event) = eFinding sample_event"
    by (simp add: capEvidence_def sample_event_def)
  then have "ingested (eFinding sample_event)"
    unfolding ingested_def by metis
  then have "readable (eFinding sample_event)" by (simp add: readable_def sample_event_def)
  then have i: "\<forall>f \<in> set (dgOpened sample_digest) \<union> set (dgResolved sample_digest). readable f"
    by (simp add: sample_digest_def)
  have n: "heNewRequest sample_http ''POST'' (whURL \<lparr>whURL = ''u'', whSecret = ''s''\<rparr>) = None"
    by (simp add: sample_http_def)
  have "marshal_time (local_time (\<lambda>_. 25200) (dgAt sample_digest)) \<noteq> None" by code_simp
  then obtain ts where "marshal_time (local_time (\<lambda>_. 25200) (dgAt sample_digest)) = Some ts" by blast
  from webhook_delivers [OF i this n] show ?thesis by (auto simp: sample_http_def)
qed

lemma lines_Empty: "Empty d \<Longrightarrow> lines host c d = []"
  by (simp add: Empty_def lines_def Let_def)

lemma lines_nonempty: "\<not> Empty d \<Longrightarrow> lines host c d \<noteq> []"
  by (auto simp: Empty_def lines_def Let_def)

text \<open>
  The syslog channel reports success exactly if every frame of the digest was written, and
  what it has written when it fails is the frames up to the one whose write failed, so a retry
  sends those again.
\<close>

theorem syslog_Send_complete:
  "case syslog_Send host net c d of (done, err) \<Rightarrow>
     (\<exists>rest. lines host c d = done @ rest \<and> (err = None \<longleftrightarrow> rest = []) \<and>
        (done = [] \<or> rest = [] \<or> err = neWrite net (length done) (hd rest)))"
proof (cases "Empty d")
  case True
  then show ?thesis by (simp add: syslog_Send_def lines_Empty)
next
  case False
  obtain out err where w: "write_lines (neWrite net) 0 (lines host c d) = (out, err)" by fastforce
  have "\<exists>rest. lines host c d = out @ rest \<and> (err = None \<longleftrightarrow> rest = []) \<and>
      (rest \<noteq> [] \<longrightarrow> err = neWrite net (length out) (hd rest))"
    using write_lines_spec [where wr = "neWrite net" and k = 0 and ls = "lines host c d"]
    unfolding w prod.case by (cases err) auto
  then show ?thesis
    using False lines_nonempty [OF False, of host c] w
    by (auto simp: syslog_Send_def Let_def split: option.splits)
qed

end
