(* ===== verification/Web_Server.thy ===== *)
theory Web_Server
  imports Ai_Client License Notify_Channels
begin

text \<open>
  \<open>web/server.go\<close> and \<open>web/ai.go\<close>: the dashboard's API as a state machine. The state is the \<open>Server\<close>
  value with what its handlers change: the store, the scheduler's registry, the license file and the
  activation. A request is a constructor of \<open>request\<close> with the query parameter or the body the handler
  reads; \<open>serve\<close> is the mux: it runs one handler to its end and returns the
  reply, the requests that went out to the AI endpoint, and the server. Handlers that run at the same
  time are sequences of such steps here. The world outside is \<open>web_env\<close>.
\<close>

subsection \<open>State\<close>

record ai_assist =
  aaClient :: "ai_client option"
  aaEndpoint :: string
  aaKeyed :: bool
  aaLanguage :: string

record 's server =
  svModule :: module_info
  svExportMeta :: hfs_meta
  svOps :: "'s store_ops"
  svStore :: 's
  svScheduler :: scheduler
  svTargets :: "'s target_ops option"
  svIssuerPub :: string
  svLicenseFile :: string
  svFile :: "string option"
  svActivation :: activation
  svReported :: "scan_result list"
  svLaunched :: "target list"
  svAI :: "ai_assist option"

text \<open>
  The license primitives, the write of the license file (from its path, the data and the old content:
  its error, and the content it leaves, for a write that fails may have truncated the file), the line of the export
  for one finding, the ids, the inputs and the order of the scans that a sweep on demand at some time
  runs and the error of the request's context after them, and what the AI client needs.
  \<open>svReported\<close> is what the scheduler's \<open>OnResult\<close> has been called with by these sweeps, and
  \<open>svLaunched\<close> the targets whose first scan the scheduler's \<open>AddTarget\<close> has started on a goroutine of
  its own: such a scan is a step of its own that runs later, next to the requests.
\<close>

record web_env =
  weEd :: "string \<Rightarrow> string \<Rightarrow> string \<Rightarrow> bool"
  weWriteFile :: "string \<Rightarrow> string \<Rightarrow> string option \<Rightarrow> gerror option \<times> string option"
  weSnapshot :: "hfs_meta \<Rightarrow> hfs_source \<Rightarrow> gtime \<Rightarrow> string option"
  weNewID :: "gtime \<Rightarrow> gtime \<Rightarrow> nat \<Rightarrow> (gerror + string) \<times> nat"
  weScan :: "gtime \<Rightarrow> target \<Rightarrow> scan_input"
  weOrder :: "target list \<Rightarrow> target list"
  weContextErr :: "gerror option"
  wePrint :: "rune \<Rightarrow> bool"
  weNet :: ai_env

text \<open>The path of the license file may be empty; \<open>file\<close> is its content, if it can be read.\<close>

definition NewServer ::
    "web_env \<Rightarrow> gtime \<Rightarrow> module_info \<Rightarrow> 's store_ops \<Rightarrow> 's \<Rightarrow> scheduler \<Rightarrow> string \<Rightarrow> string
     \<Rightarrow> string option \<Rightarrow> 's server outcome" where
  "NewServer env now md ops st sch pub licenseFile file =
     (let key = (if licenseFile \<noteq> [] then case file of None \<Rightarrow> [] | Some b \<Rightarrow> trim_space b else [])
      in case Activate (weEd env) pub (miID md) key now of
           Panic e \<Rightarrow> Panic e
         | Done act \<Rightarrow>
             Done \<lparr>svModule = md, svExportMeta = \<lparr>hmProduct = [], hmVersion = [], hmHost = []\<rparr>,
                svOps = ops, svStore = st, svScheduler = sch, svTargets = None, svIssuerPub = pub,
                svLicenseFile = licenseFile, svFile = file, svActivation = act, svReported = [],
                svLaunched = [], svAI = None\<rparr>)"

subsection \<open>Requests and replies\<close>

datatype request =
    GetSummary
  | GetFindings
  | ExportFindings string
  | PostStatus string
  | GetTargets
  | PostTarget string
  | DeleteTarget string
  | PostScan
  | GetLicense
  | PostLicense string
  | GetAI
  | PostExplain string

record summary_response =
  smProduct :: string
  smTier :: string
  smNotice :: string
  smCounts :: "(string \<times> int) list"
  smOpenTotal :: nat
  smTargets :: nat
  smMaxTargets :: int
  smCanScanNow :: bool

record finding_json =
  fjFingerprint :: string
  fjTarget :: string
  fjCheck :: string
  fjTitle :: string
  fjSeverity :: string
  fjStatus :: string
  fjRemediation :: string
  fjEvidence :: evidence
  fjFirstSeen :: gtime
  fjLastSeen :: gtime

record ai_status_response =
  asEnabled :: bool
  asReason :: string
  asLanguage :: string
  asKeyed :: bool

record explain_response =
  erAvailable :: bool
  erReason :: string
  erExplanation :: string
  erWhatToVerify :: "string list"
  erDisclaimer :: string

datatype reply_body =
    ErrorBody string
  | OkBody
  | SummaryBody summary_response
  | FindingsBody "finding_json list"
  | ExportBody "string list"
  | TargetsBody "(string \<times> string) list"
  | CanonicalBody string
  | LicenseBody string string "(string \<times> ztime) option"
  | TierBody string
  | AIStatusBody ai_status_response
  | ExplainBody explain_response

text \<open>A panic of a handler ends the connection without a reply.\<close>

datatype reply = Reply int reply_body | Aborted

definition httpError :: "int \<Rightarrow> string \<Rightarrow> reply" where
  "httpError code msg = Reply code (ErrorBody msg)"

definition writeJSON :: "reply_body \<Rightarrow> reply" where
  "writeJSON b = Reply 200 b"

subsection \<open>Bodies\<close>

text \<open>A body with one string field.\<close>

definition decode_field :: "string \<Rightarrow> string \<Rightarrow> string option" where
  "decode_field name body = decode_body [name] (\<lambda>n. decode_string) [] body"

definition put_status :: "string \<Rightarrow> json \<Rightarrow> string \<times> string \<Rightarrow> (string \<times> string) option" where
  "put_status n v req =
     (case req of (fingerprint, status) \<Rightarrow>
        if n = ''fingerprint'' then map_option (\<lambda>x. (x, status)) (decode_string v fingerprint)
        else map_option (Pair fingerprint) (decode_string v status))"

definition decode_status :: "string \<Rightarrow> (string \<times> string) option" where
  "decode_status body = decode_body [''fingerprint'', ''status''] put_status ([], []) body"

subsection \<open>Findings\<close>

definition severity_counts :: "srecord list \<Rightarrow> (string \<times> int) list" where
  "severity_counts rs = fold (\<lambda>r. AList.map_default (fSeverity r) 1 (\<lambda>n. n + 1)) rs []"

definition handleSummary :: "'s server \<Rightarrow> reply \<times> 's server" where
  "handleSummary s =
     (case sListOpen (svOps s) (miID (svModule s)) (svStore s) of
        (Inl e, st) \<Rightarrow> (httpError 500 ''store error'', s\<lparr>svStore := st\<rparr>)
      | (Inr rs, st) \<Rightarrow>
          (let act = svActivation s
           in (writeJSON (SummaryBody
                 \<lparr>smProduct = miName (svModule s), smTier = aTier act, smNotice = aNotice act,
                  smCounts = severity_counts rs, smOpenTotal = length rs,
                  smTargets = length (ListTargets (miID (svModule s)) (svScheduler s)),
                  smMaxTargets = MaxTargets (aLimits act), smCanScanNow = ScanNow (aLimits act)\<rparr>),
               s\<lparr>svStore := st\<rparr>)))"

text \<open>A resolved finding is shown for a day.\<close>

definition shown :: "gtime \<Rightarrow> srecord \<Rightarrow> bool" where
  "shown now r \<longleftrightarrow>
     \<not> (fStatus r = StatusResolved \<and>
        (case fResolvedAt r of None \<Rightarrow> True | Some t \<Rightarrow> now - t > 24 * Hour))"

definition finding_json_of :: "srecord \<Rightarrow> finding_json" where
  "finding_json_of r =
     \<lparr>fjFingerprint = fFingerprint r, fjTarget = fTarget r, fjCheck = fCheck r, fjTitle = fTitle r,
      fjSeverity = fSeverity r, fjStatus = fStatus r, fjRemediation = fRemediation r,
      fjEvidence = fEvidence r, fjFirstSeen = fFirstSeen r, fjLastSeen = fLastSeen r\<rparr>"

definition handleFindings :: "gtime \<Rightarrow> 's server \<Rightarrow> reply \<times> 's server" where
  "handleFindings now s =
     (case sListAll (svOps s) (miID (svModule s)) (svStore s) of
        (Inl e, st) \<Rightarrow> (httpError 500 ''store error'', s\<lparr>svStore := st\<rparr>)
      | (Inr rs, st) \<Rightarrow>
          (writeJSON (FindingsBody (map finding_json_of (filter (shown now) rs))), s\<lparr>svStore := st\<rparr>))"

text \<open>A finding whose line cannot be written is left out.\<close>

definition handleFindingsExport ::
    "web_env \<Rightarrow> gtime \<Rightarrow> string \<Rightarrow> 's server \<Rightarrow> reply \<times> 's server" where
  "handleFindingsExport env now format s =
     (if format \<noteq> [] \<and> format \<noteq> ''hfs'' then (httpError 400 ''format must be hfs'', s)
      else case sListAll (svOps s) (miID (svModule s)) (svStore s) of
        (Inl e, st) \<Rightarrow> (httpError 500 ''store error'', s\<lparr>svStore := st\<rparr>)
      | (Inr rs, st) \<Rightarrow>
          (let meta = svExportMeta s;
               meta = (if hmProduct meta = []
                       then meta\<lparr>hmProduct := miID (svModule s), hmVersion := miVersion (svModule s)\<rparr>
                       else meta)
           in (Reply 200 (ExportBody
                 (List.map_filter (\<lambda>r. weSnapshot env meta (Source (finding_of r)) now)
                   (filter (shown now) rs))),
               s\<lparr>svStore := st\<rparr>)))"

definition set_finding_status :: "string \<Rightarrow> string \<Rightarrow> 's server \<Rightarrow> reply \<times> 's server" where
  "set_finding_status fingerprint next s =
     (if \<not> (next = StatusAcknowledged \<or> next = StatusSuppressed \<or> next = StatusOpen)
      then (httpError 400 ''status must be acknowledged, suppressed, or open'', s)
      else case sGet (svOps s) (miID (svModule s)) fingerprint (svStore s) of
        (Inr (Some r), st) \<Rightarrow>
          (case sUpsert (svOps s) (r\<lparr>fStatus := next\<rparr>) st of
             (Some e, st) \<Rightarrow> (httpError 500 ''store error'', s\<lparr>svStore := st\<rparr>)
           | (None, st) \<Rightarrow> (writeJSON OkBody, s\<lparr>svStore := st\<rparr>))
      | (_, st) \<Rightarrow> (httpError 404 ''finding not found'', s\<lparr>svStore := st\<rparr>))"

definition handleFindingStatus :: "string \<Rightarrow> 's server \<Rightarrow> reply \<times> 's server" where
  "handleFindingStatus body s =
     (case decode_status body of
        None \<Rightarrow> (httpError 400 ''invalid JSON'', s)
      | Some (fingerprint, next) \<Rightarrow> set_finding_status fingerprint next s)"

subsection \<open>Targets\<close>

definition handleListTargets :: "'s server \<Rightarrow> reply \<times> 's server" where
  "handleListTargets s =
     (writeJSON (TargetsBody
        (map (\<lambda>t. (tRaw t, tCanonical t)) (ListTargets (miID (svModule s)) (svScheduler s)))), s)"

definition target_limit_reached :: string where
  "target_limit_reached = ''target limit reached for your tier '' @ em_dash
     @ '' Pro and Team: https://whop.com/nizar-tuanku/certlight-tls-monitor?utm_source=app''"

definition handleAddTarget :: "string \<Rightarrow> 's server \<Rightarrow> reply \<times> 's server" where
  "handleAddTarget body s =
     (case decode_field ''target'' body of
        None \<Rightarrow> (httpError 400 ''invalid JSON'', s)
      | Some raw \<Rightarrow>
          (let current = length (ListTargets (miID (svModule s)) (svScheduler s))
           in if \<not> CanAddTarget (svActivation s) (int current)
              then (httpError 402 target_limit_reached, s)
              else case AddTarget (miID (svModule s)) raw (svScheduler s) of
                (Inl e, _, sch) \<Rightarrow> (httpError 400 e, s\<lparr>svScheduler := sch\<rparr>)
              | (Inr t, launched, sch) \<Rightarrow>
                  (let s = s\<lparr>svScheduler := sch,
                             svLaunched := svLaunched s @ (if launched then [t] else [])\<rparr>
                   in case svTargets s of
                        None \<Rightarrow> (writeJSON (CanonicalBody (tCanonical t)), s)
                      | Some ops \<Rightarrow>
                          (case tsSave ops (miID (svModule s)) (tRaw t) (tCanonical t) (svStore s) of
                             (Some e, st) \<Rightarrow>
                               (httpError 500 ''target added but could not be persisted'',
                                s\<lparr>svStore := st\<rparr>)
                           | (None, st) \<Rightarrow>
                               (writeJSON (CanonicalBody (tCanonical t)), s\<lparr>svStore := st\<rparr>)))))"

text \<open>The error of the deletion is dropped.\<close>

definition handleRemoveTarget :: "string \<Rightarrow> 's server \<Rightarrow> reply \<times> 's server" where
  "handleRemoveTarget canonical s =
     (if canonical = [] then (httpError 400 ''canonical query parameter required'', s)
      else
        let s = s\<lparr>svScheduler := RemoveTarget (miID (svModule s)) canonical (svScheduler s)\<rparr>
        in case svTargets s of
             None \<Rightarrow> (writeJSON OkBody, s)
           | Some ops \<Rightarrow>
               (case tsDelete ops (miID (svModule s)) canonical (svStore s) of
                  Panic e \<Rightarrow> (Aborted, s)
                | Done (_, st) \<Rightarrow> (writeJSON OkBody, s\<lparr>svStore := st\<rparr>)))"

definition scan_now_is_paid :: string where
  "scan_now_is_paid = ''on-demand scans are a Pro feature '' @ em_dash
     @ '' scheduled scans continue as normal. Pro and Team: ''
     @ ''https://whop.com/nizar-tuanku/certlight-tls-monitor?utm_source=app''"

definition handleScanNow :: "web_env \<Rightarrow> gtime \<Rightarrow> 's server \<Rightarrow> reply \<times> 's server" where
  "handleScanNow env now s =
     (if \<not> ScanNow (aLimits (svActivation s)) then (httpError 402 scan_now_is_paid, s)
      else case Scheduler_ScanNow (svOps s) (weNewID env now) (weScan env now) (weOrder env)
                  (weContextErr env) (miID (svModule s)) (svScheduler s) (svStore s) 0 of
        (err, results, st, g) \<Rightarrow>
          (let s = s\<lparr>svStore := st, svReported := svReported s @ results\<rparr>
           in case err of
                Some e \<Rightarrow> (httpError 500 e, s)
              | None \<Rightarrow> (writeJSON OkBody, s)))"

subsection \<open>License\<close>

definition handleGetLicense :: "'s server \<Rightarrow> reply \<times> 's server" where
  "handleGetLicense s =
     (let act = svActivation s
      in (writeJSON (LicenseBody (aTier act) (aNotice act)
            (map_option (\<lambda>l. (lEmail l, lExpiresAt l)) (aLicense act))), s))"

definition handleSetLicense :: "web_env \<Rightarrow> gtime \<Rightarrow> string \<Rightarrow> 's server \<Rightarrow> reply \<times> 's server" where
  "handleSetLicense env now body s =
     (case decode_field ''key'' body of
        None \<Rightarrow> (httpError 400 ''invalid JSON'', s)
      | Some k \<Rightarrow>
          (let key = trim_space k
           in case Activate (weEd env) (svIssuerPub s) (miID (svModule s)) key now of
                Panic e \<Rightarrow> (Aborted, s)
              | Done act \<Rightarrow>
                  (if aTier act = TierFree \<and> key \<noteq> [] then (httpError 400 (aNotice act), s)
                   else if svLicenseFile s = []
                   then (writeJSON (TierBody (aTier act)), s\<lparr>svActivation := act\<rparr>)
                   else case weWriteFile env (svLicenseFile s) (key @ [newline]) (svFile s) of
                          (Some e, file) \<Rightarrow>
                            (httpError 500 ''could not persist license key'', s\<lparr>svFile := file\<rparr>)
                        | (None, file) \<Rightarrow>
                            (writeJSON (TierBody (aTier act)),
                             s\<lparr>svFile := file, svActivation := act\<rparr>))))"

subsection \<open>AI Assist\<close>

record ai_config =
  aiURL :: string
  aiKeyFile :: string
  aiLanguage :: string
  aiNoThinking :: bool

text \<open>\<open>parse\<close> is \<open>url.Parse\<close>: the scheme and the host.\<close>

definition NewAIAssist ::
    "(string \<Rightarrow> (string \<times> string) option) \<Rightarrow> (rune \<Rightarrow> bool) \<Rightarrow> (string \<Rightarrow> gerror + string) \<Rightarrow> ai_config
     \<Rightarrow> gerror + ai_assist option" where
  "NewAIAssist parse isPrint readFile cfg =
     (let raw = trim_space (aiURL cfg)
      in if raw = [] then Inr None
         else if (case parse raw of None \<Rightarrow> True
                  | Some (scheme, host) \<Rightarrow> (scheme \<noteq> ''http'' \<and> scheme \<noteq> ''https'') \<or> host = [])
         then Inl (''ai-assist-url must be an http(s) base URL such as http://127.0.0.1:8435, got ''
                   @ go_quote isPrint raw)
         else
           let opts = [WithTimeout (120 * Second), WithMaxRetries 0, WithMaxTokens 300];
               endpoint = trim_slashes raw;
               thinking = (if aiNoThinking cfg then [WithDisableThinking] else []);
               assist = (\<lambda>keyed opts. \<lparr>aaClient = Some (New_client endpoint (opts @ thinking)),
                 aaEndpoint = endpoint, aaKeyed = keyed, aaLanguage = NormalizeLanguage (aiLanguage cfg)\<rparr>)
           in if aiKeyFile cfg = [] then Inr (Some (assist False opts))
              else case readFile (aiKeyFile cfg) of
                Inl e \<Rightarrow> Inl (''read ai-assist-key-file: '' @ e)
              | Inr b \<Rightarrow>
                  (let key = trim_space b
                   in if key = [] then Inl (''ai-assist-key-file '' @ aiKeyFile cfg @ '' is empty'')
                      else Inr (Some (assist True (opts @ [WithAPIKey key])))))"

definition reason_off :: string where
  "reason_off = ''AI Assist is off. Start with -ai-assist-url to enable it.''"

definition reason_tier :: string where
  "reason_tier = ''A dedicated AI host or your own endpoint (API key) needs a Pro or Team licence. ''
     @ ''The free edition works with a hexward-ai sidecar on the same host.''"

text \<open>The client to use, or the reason why there is none.\<close>

definition aiAllowed :: "'s server \<Rightarrow> string + ai_assist \<times> ai_client" where
  "aiAllowed s =
     (case svAI s of
        None \<Rightarrow> Inl reason_off
      | Some a \<Rightarrow>
          (case aaClient a of
             None \<Rightarrow> Inl reason_off
           | Some c \<Rightarrow>
               (let t = aTier (svActivation s)
                in if aaKeyed a \<and> t \<noteq> TierPro \<and> t \<noteq> TierTeam then Inl reason_tier else Inr (a, c))))"

definition handleAIStatus :: "'s server \<Rightarrow> reply \<times> 's server" where
  "handleAIStatus s =
     (writeJSON (AIStatusBody
        \<lparr>asEnabled = (case aiAllowed s of Inl _ \<Rightarrow> False | Inr _ \<Rightarrow> True),
         asReason = (case aiAllowed s of Inl reason \<Rightarrow> reason | Inr _ \<Rightarrow> []),
         asLanguage = (case svAI s of None \<Rightarrow> [] | Some a \<Rightarrow> aaLanguage a),
         asKeyed = (case svAI s of None \<Rightarrow> False | Some a \<Rightarrow> aaKeyed a)\<rparr>), s)"

definition unavailable :: "string \<Rightarrow> reply" where
  "unavailable reason = writeJSON (ExplainBody
     \<lparr>erAvailable = False, erReason = reason, erExplanation = [], erWhatToVerify = [], erDisclaimer = []\<rparr>)"

definition reason_packet :: string where
  "reason_packet = ''This finding has no title or severity to explain.''"

definition reason_rejected :: string where
  "reason_rejected = ''AI Assist withheld this explanation: the model's answer was not grounded in ''
     @ ''the finding. The finding is unaffected.''"

definition reason_silent :: string where
  "reason_silent = ''The AI Assist sidecar did not answer. The finding is unaffected.''"

definition core_finding_of :: "module_info \<Rightarrow> srecord \<Rightarrow> core_finding" where
  "core_finding_of md r =
     \<lparr>cfFingerprint = fFingerprint r, cfModule = miID md, cfCheck = fCheck r, cfTitle = fTitle r,
      cfTarget = fTarget r, cfSeverity = fSeverity r, cfStatus = fStatus r,
      cfRemediation = fRemediation r, cfEvidence = fEvidence r\<rparr>"

text \<open>The body is cut off behind 4096 bytes by \<open>http.MaxBytesReader\<close>.\<close>

definition handleExplainFinding ::
    "web_env \<Rightarrow> string \<Rightarrow> 's server \<Rightarrow> reply \<times> http_request list \<times> 's server" where
  "handleExplainFinding env body s =
     (case decode_field ''fingerprint'' (take 4096 body) of
        None \<Rightarrow> (httpError 400 ''fingerprint is required'', [], s)
      | Some fingerprint \<Rightarrow>
          (if trim_space fingerprint = [] then (httpError 400 ''fingerprint is required'', [], s)
           else case sGet (svOps s) (miID (svModule s)) fingerprint (svStore s) of
             (Inl e, st) \<Rightarrow> (httpError 500 ''store error'', [], s\<lparr>svStore := st\<rparr>)
           | (Inr None, st) \<Rightarrow> (httpError 404 ''no such finding'', [], s\<lparr>svStore := st\<rparr>)
           | (Inr (Some r), st) \<Rightarrow>
               (let s = s\<lparr>svStore := st\<rparr>
                in case aiAllowed s of
                     Inl reason \<Rightarrow> (unavailable reason, [], s)
                   | Inr (a, c) \<Rightarrow>
                       (case NewFindingPacket (miID (svModule s)) (aaLanguage a)
                               (core_finding_of (svModule s) r) of
                          Inl e \<Rightarrow> (unavailable reason_packet, [], s)
                        | Inr packet \<Rightarrow>
                            (case Explain (wePrint env) (weNet env) c packet of
                               (out, Inl e) \<Rightarrow>
                                 (unavailable (if IsRejected e then reason_rejected else reason_silent), out, s)
                             | (out, Inr expl) \<Rightarrow>
                                 (writeJSON (ExplainBody
                                    \<lparr>erAvailable = True, erReason = [],
                                     erExplanation = exExplanationText expl,
                                     erWhatToVerify = exWhatToVerify expl,
                                     erDisclaimer = exDisclaimer expl\<rparr>), out, s))))))"

subsection \<open>The routes\<close>

definition quiet :: "reply \<times> 's server \<Rightarrow> reply \<times> http_request list \<times> 's server" where
  "quiet res = (fst res, [], snd res)"

fun serve ::
    "web_env \<Rightarrow> gtime \<Rightarrow> request \<Rightarrow> 's server \<Rightarrow> reply \<times> http_request list \<times> 's server" where
  "serve env now GetSummary s = quiet (handleSummary s)"
| "serve env now GetFindings s = quiet (handleFindings now s)"
| "serve env now (ExportFindings format) s = quiet (handleFindingsExport env now format s)"
| "serve env now (PostStatus body) s = quiet (handleFindingStatus body s)"
| "serve env now GetTargets s = quiet (handleListTargets s)"
| "serve env now (PostTarget body) s = quiet (handleAddTarget body s)"
| "serve env now (DeleteTarget canonical) s = quiet (handleRemoveTarget canonical s)"
| "serve env now PostScan s = quiet (handleScanNow env now s)"
| "serve env now GetLicense s = quiet (handleGetLicense s)"
| "serve env now (PostLicense body) s = quiet (handleSetLicense env now body s)"
| "serve env now GetAI s = quiet (handleAIStatus s)"
| "serve env now (PostExplain body) s = handleExplainFinding env body s"

text \<open>A sequence of requests with their times.\<close>

fun serve_all :: "web_env \<Rightarrow> (gtime \<times> request) list \<Rightarrow> 's server \<Rightarrow> 's server" where
  "serve_all env [] s = s"
| "serve_all env ((now, req) # reqs) s = serve_all env reqs (snd (snd (serve env now req s)))"

end
