(* ===== verification/Certlight_Collector.thy ===== *)
theory Certlight_Collector
  imports Sched Go_Net Go_Time Go_Quote "HOL-Library.Signed_Division"
begin

text \<open>
  \<open>certlight/collector.go\<close>: target validation and the grading of a certificate and a TLS connection.
  The handshake, certificate verification and the cipher-suite tables of \<open>crypto/tls\<close> and
  \<open>crypto/x509\<close> are the record \<open>tls_env\<close>, with the table of printable runes that \<open>%q\<close> consults; SHA-256
  is the argument \<open>sha\<close>. Day counts are computed in \<open>float64\<close> as the code does.
  The lemmas: the canonical form of a target is stable for hosts without stray brackets, the severity
  ladder of the expiry check is exact in spite of the float arithmetic and keeps to the documented stages
  of 30, 7 and 1 days, and every finding passes the ingest check with a check
  id (and so a fingerprint) of its own.
\<close>

subsection \<open>The module\<close>

definition moduleID :: string where
  "moduleID = ''certwatch''"

definition certlight_info :: module_info where
  "certlight_info =
     \<lparr>miID = moduleID, miName = ''CertLight'', miVersion = ''0.1.5'', miTargetKind = ''host:port'',
      miDefaultInterval = 12 * Hour, miResolveAfter = 1\<rparr>"

definition certlight_ValidateTarget :: "string \<Rightarrow> gerror + target" where
  "certlight_ValidateTarget raw =
     (let inp = trim_space raw
      in if inp = [] then Inl ''enter a host like example.com or example.com:8443''
         else if contains inp ''://'' \<or> contains inp ''/''
         then Inl ''enter just the host (no https:// or path): e.g. example.com''
         else
           let hp = (case SplitHostPort inp of
                Some hp \<Rightarrow> Some hp
              | None \<Rightarrow> if count_list inp (CHR '':'') > 1 then None else Some (inp, ''443''))
           in case hp of
                None \<Rightarrow> Inl ''IPv6 targets must include a port, e.g. [::1]:443''
              | Some (host, port) \<Rightarrow>
                  (if host = [] then Inl ''host must not be empty''
                   else Inr \<lparr>tRaw = raw, tCanonical = JoinHostPort host port,
                     tMeta = [(''host'', host), (''port'', port)]\<rparr>))"

definition certlight_collector :: collector where
  "certlight_collector = \<lparr>Describe = certlight_info, ValidateTarget = certlight_ValidateTarget\<rparr>"

subsection \<open>Certificates and connections\<close>

datatype public_key = RSA int | ECDSA | OtherKey

datatype sig_alg = SHA1WithRSA | ECDSAWithSHA1 | MD5WithRSA | MD2WithRSA | OtherAlg string

definition sig_alg_String :: "sig_alg \<Rightarrow> string" where
  "sig_alg_String a =
     (case a of
        SHA1WithRSA \<Rightarrow> ''SHA1-RSA''
      | ECDSAWithSHA1 \<Rightarrow> ''ECDSA-SHA1''
      | MD5WithRSA \<Rightarrow> ''MD5-RSA''
      | MD2WithRSA \<Rightarrow> ''MD2-RSA''
      | OtherAlg s \<Rightarrow> s)"

record certificate =
  crSubject :: string
  crIssuer :: string
  crNotBefore :: gtime
  crNotAfter :: gtime
  crSerial :: string
  crDNSNames :: "string list option"
  crPublicKey :: public_key
  crSignatureAlgorithm :: sig_alg

record connection_state =
  csVersion :: nat
  csCipherSuite :: nat
  csPeerCertificates :: "certificate list"

abbreviation VersionTLS10 :: nat where "VersionTLS10 \<equiv> 0x0301"
abbreviation VersionTLS11 :: nat where "VersionTLS11 \<equiv> 0x0302"
abbreviation VersionTLS12 :: nat where "VersionTLS12 \<equiv> 0x0303"
abbreviation VersionTLS13 :: nat where "VersionTLS13 \<equiv> 0x0304"

record tls_env =
  teDial :: "string \<Rightarrow> string \<Rightarrow> nat \<Rightarrow> nat \<Rightarrow> scan_error + connection_state"
  teVerifyHostname :: "certificate \<Rightarrow> string \<Rightarrow> bool"
  teVerify :: "certificate \<Rightarrow> certificate list \<Rightarrow> gtime \<Rightarrow> bool"
  teInsecureCipherSuites :: "nat list"
  teCipherSuiteName :: "nat \<Rightarrow> string"
  tePrint :: "rune \<Rightarrow> bool"

definition dial ::
    "tls_env \<Rightarrow> string \<Rightarrow> string \<Rightarrow> nat \<Rightarrow> nat \<Rightarrow> scan_error + connection_state" where
  "dial env addr serverName minVer maxVer =
     (case teDial env addr serverName minVer maxVer of
        Inl e \<Rightarrow> Inl e
      | Inr state \<Rightarrow>
          if length (csPeerCertificates state) = 0
          then Inl (Failed ''server presented no certificates'') else Inr state)"

subsection \<open>Findings\<close>

definition evidence_of :: "certificate \<Rightarrow> gomap \<Rightarrow> gomap" where
  "evidence_of leaf extra =
     fold (\<lambda>(k, v). AList.update k v) extra
       [(''subject'', GStr (crSubject leaf)),
        (''issuer'', GStr (crIssuer leaf)),
        (''not_before'', GStr (format_RFC3339 (crNotBefore leaf, 0))),
        (''not_after'', GStr (format_RFC3339 (crNotAfter leaf, 0))),
        (''serial'', GStr (crSerial leaf))]"

text \<open>A finding literal: the fields the collector owns, the others with their zero values.\<close>

definition cert_finding ::
    "(string \<Rightarrow> string) \<Rightarrow> target \<Rightarrow> string \<Rightarrow> string \<Rightarrow> string \<Rightarrow> Severity \<Rightarrow> string \<Rightarrow> gomap
     \<Rightarrow> finding" where
  "cert_finding sha t check discriminator title sev remediation ev =
     \<lparr>fFingerprint = Fingerprint sha moduleID (tCanonical t) check discriminator,
      fTarget = tCanonical t, fCheck = check, fTitle = title, fSeverity = sev,
      fRemediation = remediation, fEvidence = Some ev, fID = [], fModule = [], fStatus = [],
      fGroupID = None, fFirstSeen = zero_time, fLastSeen = zero_time, fResolvedAt = None\<rparr>"

definition hex4 :: "nat \<Rightarrow> string" where
  "hex4 v = map hex_digit [v div 4096 mod 16, v div 256 mod 16, v div 16 mod 16, v mod 16]"

definition versionName :: "nat \<Rightarrow> string" where
  "versionName v =
     (if v = VersionTLS10 then ''TLS 1.0''
      else if v = VersionTLS11 then ''TLS 1.1''
      else if v = VersionTLS12 then ''TLS 1.2''
      else if v = VersionTLS13 then ''TLS 1.3''
      else ''unknown (0x'' @ hex4 v @ '')'')"

subsection \<open>Remediations\<close>

definition rem_expired :: string where
  "rem_expired = ''Replace this certificate immediately '' @ em_dash
     @ '' clients are already failing. ''
     @ ''If you use ACME/Let'' @ [CHR 0x27] @ ''s Encrypt, the renewal automation has broken; check its logs.''"

definition rem_expiry :: string where
  "rem_expiry = ''Renew the certificate before it expires. ''
     @ ''If renewal is automated (ACME), verify the timer/cron actually runs and can reach the CA.''"

definition rem_hostname :: string where
  "rem_hostname = ''Reissue the certificate with this hostname in its SAN list, ''
     @ ''or point the service at the certificate that actually covers it.''"

definition rem_incomplete :: string where
  "rem_incomplete = ''Configure the server to send the full chain (leaf + intermediates). ''
     @ ''Most CAs ship a '' @ [CHR 0x27] @ ''fullchain'' @ [CHR 0x27] @ '' bundle '' @ em_dash
     @ '' deploy that file instead of the bare certificate.''"

definition rem_untrusted :: string where
  "rem_untrusted = ''Install a certificate from a trusted CA (e.g. via ACME/Let'' @ [CHR 0x27]
     @ ''s Encrypt), or distribute your private CA to every client that must trust this service.''"

definition rem_protocol :: string where
  "rem_protocol = ''Disable TLS 1.0/1.1 on this service and require TLS 1.2 or newer. ''
     @ ''Modern clients have not needed legacy TLS since 2020.''"

definition rem_legacy :: string where
  "rem_legacy = ''Raise the server'' @ [CHR 0x27] @ ''s minimum TLS version to 1.2. The main connection may use ''
     @ ''TLS 1.3, but accepting 1.0/1.1 leaves a downgrade path open and fails compliance scans.''"

definition rem_cipher :: string where
  "rem_cipher = ''Remove this cipher suite from the server configuration and prefer ''
     @ ''AEAD suites (AES-GCM or ChaCha20-Poly1305).''"

definition rem_key :: string where
  "rem_key = ''Reissue the certificate with an RSA key of at least 2048 bits ''
     @ ''(or switch to an ECDSA P-256 key).''"

definition rem_signature :: string where
  "rem_signature = ''Reissue the certificate '' @ em_dash
     @ '' SHA-1/MD5 signatures are forgeable and rejected ''
     @ ''by modern clients. Any current CA will sign with SHA-256 or better.''"

subsection \<open>Checks\<close>

text \<open>\<open>a.Sub(b)\<close>, which saturates, and \<open>int(d.Hours() / 24)\<close>.\<close>

definition time_Sub :: "gtime \<Rightarrow> gtime \<Rightarrow> duration" where
  "time_Sub a b = max (- (2 ^ 63)) (min (2 ^ 63 - 1) (a - b))"

definition Hours :: "duration \<Rightarrow> rat" where
  "Hours d = rn (rn (of_int (d sdiv Hour)) + rn (rn (of_int (d smod Hour)) / 3600000000000))"

definition whole_days :: "duration \<Rightarrow> int" where
  "whole_days d = trunc (rn (Hours d / 24))"

definition checkExpiry ::
    "(string \<Rightarrow> string) \<Rightarrow> target \<Rightarrow> certificate \<Rightarrow> gtime \<Rightarrow> finding list" where
  "checkExpiry sha t leaf now =
     (if now > crNotAfter leaf then
        (let days = whole_days (time_Sub now (crNotAfter leaf))
         in [cert_finding sha t ''tls.expired'' []
               (''Certificate EXPIRED '' @ itoa days @ '' day(s) ago'') SeverityCritical rem_expired
               (evidence_of leaf [(''expired_days_ago'', GInt days)])])
      else
        let daysLeft = whole_days (time_Sub (crNotAfter leaf) now)
        in if daysLeft > 30 then []
           else
             let sev = (if daysLeft \<le> 1 then SeverityCritical
                        else if daysLeft \<le> 7 then SeverityHigh else SeverityMedium)
             in [cert_finding sha t ''tls.expiry'' []
                   (''Certificate expires in '' @ itoa daysLeft @ '' day(s)'') sev rem_expiry
                   (evidence_of leaf [(''days_left'', GInt daysLeft)])])"

definition checkHostname ::
    "(string \<Rightarrow> string) \<Rightarrow> tls_env \<Rightarrow> target \<Rightarrow> certificate \<Rightarrow> string \<Rightarrow> finding list" where
  "checkHostname sha env t leaf host =
     (if ParseIP_ok host then []
      else if \<not> teVerifyHostname env leaf host then
        [cert_finding sha t ''tls.hostname_mismatch'' []
           (''Certificate does not cover '' @ go_quote (tePrint env) host) SeverityHigh rem_hostname
           (evidence_of leaf [(''requested_host'', GStr host),
              (''sans'', case crDNSNames leaf of None \<Rightarrow> GNilStrs | Some ss \<Rightarrow> GStrs ss)])]
      else [])"

definition checkChain ::
    "(string \<Rightarrow> string) \<Rightarrow> tls_env \<Rightarrow> target \<Rightarrow> connection_state \<Rightarrow> gtime \<Rightarrow> finding list" where
  "checkChain sha env t state now =
     (let leaf = csPeerCertificates state ! 0;
          selfSigned = (length (csPeerCertificates state) = 1 \<and> crIssuer leaf = crSubject leaf)
      in if teVerify env leaf (drop 1 (csPeerCertificates state)) now then []
         else if \<not> selfSigned \<and> length (csPeerCertificates state) = 1 then
           [cert_finding sha t ''tls.incomplete_chain'' []
              ''Server sends no intermediate certificates'' SeverityMedium rem_incomplete
              (evidence_of leaf [(''presented_chain_length'', GInt 1)])]
         else
           [cert_finding sha t ''tls.untrusted_chain'' []
              (if selfSigned then ''Certificate is self-signed'' else ''Certificate chain is not trusted'')
              SeverityHigh rem_untrusted
              (evidence_of leaf [(''self_signed'', GBool selfSigned),
                 (''presented_chain_length'', GInt (int (length (csPeerCertificates state))))])])"

definition checkProtocol ::
    "(string \<Rightarrow> string) \<Rightarrow> target \<Rightarrow> connection_state \<Rightarrow> finding list" where
  "checkProtocol sha t state =
     (if csVersion state \<ge> VersionTLS12 then []
      else
        let v = versionName (csVersion state)
        in [cert_finding sha t ''tls.weak_protocol'' v (''Connection negotiated obsolete '' @ v)
              SeverityHigh rem_protocol [(''negotiated'', GStr v)]])"

definition probeLegacy ::
    "(string \<Rightarrow> string) \<Rightarrow> tls_env \<Rightarrow> target \<Rightarrow> string \<Rightarrow> finding list" where
  "probeLegacy sha env t host =
     (case dial env (tCanonical t) host VersionTLS10 VersionTLS11 of
        Inl _ \<Rightarrow> []
      | Inr state \<Rightarrow>
          (let v = versionName (csVersion state)
           in [cert_finding sha t ''tls.legacy_protocol'' [] (''Server still accepts legacy '' @ v)
                 SeverityMedium rem_legacy [(''accepted_version'', GStr v)]]))"

definition checkCipher ::
    "(string \<Rightarrow> string) \<Rightarrow> tls_env \<Rightarrow> target \<Rightarrow> connection_state \<Rightarrow> finding list" where
  "checkCipher sha env t state =
     (if csCipherSuite state \<in> set (teInsecureCipherSuites env) then
        (let name = teCipherSuiteName env (csCipherSuite state)
         in [cert_finding sha t ''tls.weak_cipher'' name (''Weak cipher suite negotiated: '' @ name)
               SeverityHigh rem_cipher [(''cipher'', GStr name)]])
      else [])"

definition checkKeyStrength :: "(string \<Rightarrow> string) \<Rightarrow> target \<Rightarrow> certificate \<Rightarrow> finding list" where
  "checkKeyStrength sha t leaf =
     (case crPublicKey leaf of
        RSA bits \<Rightarrow>
          (if bits < 2048 then
             [cert_finding sha t ''tls.weak_key'' (''rsa-'' @ itoa bits)
                (''RSA key too small: '' @ itoa bits @ '' bits'') SeverityHigh rem_key
                [(''algorithm'', GStr ''RSA''), (''bits'', GInt bits)]]
           else [])
      | ECDSA \<Rightarrow> []
      | OtherKey \<Rightarrow> [])"

definition checkSignature :: "(string \<Rightarrow> string) \<Rightarrow> target \<Rightarrow> certificate \<Rightarrow> finding list" where
  "checkSignature sha t leaf =
     (let alg = sig_alg_String (crSignatureAlgorithm leaf);
          weak = [cert_finding sha t ''tls.legacy_signature'' alg
            (''Certificate signed with obsolete algorithm: '' @ alg) SeverityHigh rem_signature
            [(''signature_algorithm'', GStr alg)]]
      in case crSignatureAlgorithm leaf of
           SHA1WithRSA \<Rightarrow> weak
         | ECDSAWithSHA1 \<Rightarrow> weak
         | MD5WithRSA \<Rightarrow> weak
         | MD2WithRSA \<Rightarrow> weak
         | OtherAlg _ \<Rightarrow> [])"

subsection \<open>Collect\<close>

record certlight =
  clProbeLegacyProtocols :: bool

definition New_certlight :: certlight where
  "New_certlight = \<lparr>clProbeLegacyProtocols = True\<rparr>"

text \<open>\<open>now\<close> is what the injected clock returns after the handshake.\<close>

definition Collect ::
    "(string \<Rightarrow> string) \<Rightarrow> tls_env \<Rightarrow> certlight \<Rightarrow> target \<Rightarrow> gtime \<Rightarrow> scan_error + finding list" where
  "Collect sha env c t now =
     (let host = (case map_of (tMeta t) ''host'' of None \<Rightarrow> [] | Some h \<Rightarrow> h)
      in case dial env (tCanonical t) host VersionTLS10 0 of
           Inl e \<Rightarrow> Inl e
         | Inr state \<Rightarrow>
             (let leaf = csPeerCertificates state ! 0
              in Inr (checkExpiry sha t leaf now @ checkHostname sha env t leaf host
                @ checkChain sha env t state now @ checkProtocol sha t state
                @ checkCipher sha env t state @ checkKeyStrength sha t leaf
                @ checkSignature sha t leaf
                @ (if clProbeLegacyProtocols c then probeLegacy sha env t host else []))))"

subsection \<open>Day counts\<close>

lemma rn_binary: "\<bar>m\<bar> \<le> 2 ^ 53 \<Longrightarrow> rn (of_int m / 2 ^ k) = of_int m / 2 ^ k"
  by (rule rn_exact [of m _ "- int k"]) (simp_all add: power_int_minus field_simps)

text \<open>The fraction of an hour, and the hours, as the code computes them.\<close>

definition hour_fraction :: "duration \<Rightarrow> rat" where
  "hour_fraction d = rn (rn (of_int (d mod Hour)) / 3600000000000)"

lemma hour_fraction_bounds: "0 \<le> hour_fraction d" "hour_fraction d \<le> 1"
proof -
  have m: "0 \<le> d mod Hour" "d mod Hour \<le> Hour" by simp_all
  then have r: "rn (of_int (d mod Hour)) = of_int (d mod Hour)" by (intro rn_of_int) simp
  have "rn 0 \<le> hour_fraction d" unfolding hour_fraction_def r using m by (intro rn_mono) simp
  then show "0 \<le> hour_fraction d" by simp
  have "of_int (d mod Hour) \<le> (of_int Hour :: rat)" using m(2) by (simp only: of_int_le_iff)
  then have "hour_fraction d \<le> rn 1" unfolding hour_fraction_def r by (intro rn_mono) simp
  then show "hour_fraction d \<le> 1" using rn_of_int [of 1] by simp
qed

lemma hour_fraction_mono:
  assumes "d mod Hour \<le> d' mod Hour"
  shows "hour_fraction d \<le> hour_fraction d'"
  unfolding hour_fraction_def
  by (intro rn_mono divide_right_mono) (use assms in simp_all)

lemma Hours_nonneg:
  assumes "0 \<le> d" "d < 2 ^ 63"
  shows "Hours d = rn (of_int (d div Hour) + hour_fraction d)"
proof -
  have "d sdiv Hour = d div Hour" "d smod Hour = d mod Hour"
    using assms(1) by (cases "d = 0"; simp add: signed_divide_int_def signed_modulo_int_def)+
  moreover have "rn (of_int (d div Hour)) = of_int (d div Hour)"
    using assms by (intro rn_of_int) (simp add: pos_imp_zdiv_nonneg_iff)
  ultimately show ?thesis by (simp add: Hours_def hour_fraction_def)
qed

lemma Hours_mono:
  assumes "0 \<le> d" "d \<le> d'" "d' < 2 ^ 63"
  shows "Hours d \<le> Hours d'"
proof -
  have "d div Hour \<le> d' div Hour" using assms(2) by (simp add: zdiv_mono1)
  then consider "d div Hour = d' div Hour" | "d div Hour + 1 \<le> d' div Hour" by linarith
  then have "of_int (d div Hour) + hour_fraction d \<le> of_int (d' div Hour) + hour_fraction d'"
  proof cases
    case 1
    have "d = d div Hour * Hour + d mod Hour" "d' = d' div Hour * Hour + d' mod Hour" by simp_all
    then have "d mod Hour \<le> d' mod Hour" using 1 assms(2) by linarith
    with 1 show ?thesis using hour_fraction_mono by simp
  next
    case 2
    then have "of_int (d div Hour) + (1 :: rat) \<le> of_int (d' div Hour)"
      using of_int_le_iff [of "d div Hour + 1" "d' div Hour", where 'a = rat] by simp
    with hour_fraction_bounds [of d] hour_fraction_bounds [of d'] show ?thesis by linarith
  qed
  then show ?thesis using assms by (simp add: Hours_nonneg rn_mono)
qed

lemma whole_days_mono:
  assumes "0 \<le> d" "d \<le> d'" "d' < 2 ^ 63"
  shows "whole_days d \<le> whole_days d'"
proof -
  have h: "rn (Hours d / 24) \<le> rn (Hours d' / 24)"
    by (intro rn_mono divide_right_mono Hours_mono assms) simp
  have "0 \<le> of_int (d div Hour) + hour_fraction d"
    using assms(1) hour_fraction_bounds(1) [of d] by (simp add: pos_imp_zdiv_nonneg_iff)
  then have "0 \<le> Hours d" using assms by (simp add: Hours_nonneg rn_nonneg)
  then have "0 \<le> rn (Hours d / 24)" by (intro rn_nonneg) simp
  with h show ?thesis unfolding whole_days_def trunc_def by (simp add: floor_mono)
qed

text \<open>At a multiple of a day, and a nanosecond before it.\<close>

lemma whole_days_exact:
  assumes "0 \<le> k" "k \<le> 1000"
  shows "whole_days (k * (24 * Hour)) = k"
proof -
  have d: "0 \<le> k * (24 * Hour)" "k * (24 * Hour) < 2 ^ 63" using assms by simp_all
  have m: "k * (24 * Hour) div Hour = k * 24" "k * (24 * Hour) mod Hour = 0" by simp_all
  have "hour_fraction (k * (24 * Hour)) = 0" by (simp add: hour_fraction_def)
  then have "Hours (k * (24 * Hour)) = rn (of_int (k * 24))"
    using Hours_nonneg [OF d] by (simp add: mult.commute)
  also have "\<dots> = of_int (k * 24)" using assms by (intro rn_of_int) simp
  finally have "whole_days (k * (24 * Hour)) = trunc (rn (of_int k))" by (simp add: whole_days_def)
  also have "rn (of_int k) = of_int k" using assms by (intro rn_of_int) simp
  finally show ?thesis using assms by (simp add: trunc_def)
qed

lemma whole_days_before:
  assumes "1 \<le> k" "k \<le> 31"
  shows "whole_days (k * (24 * Hour) - 1) \<le> k - 1"
proof -
  define d where "d = k * (24 * Hour) - 1"
  have d: "0 \<le> d" "d < 2 ^ 63" using assms by (simp_all add: d_def)
  have h: "d div Hour = k * 24 - 1" "d mod Hour = Hour - 1"
  proof -
    have e: "d = (Hour - 1) + Hour * (k * 24 - 1)" by (simp add: d_def algebra_simps)
    show "d div Hour = k * 24 - 1" "d mod Hour = Hour - 1"
      unfolding e by (simp_all only: div_mult_self2 mod_mult_self2) simp_all
  qed
  have r: "rn (of_int (d mod Hour)) = of_int (d mod Hour)" unfolding h by (intro rn_of_int) simp
  have "hour_fraction d \<le> rn (of_int (2 ^ 42 - 1) / 2 ^ 42)"
    unfolding hour_fraction_def r unfolding h by (intro rn_mono) simp
  also have "\<dots> = of_int (2 ^ 42 - 1) / 2 ^ 42" by (intro rn_binary) simp
  finally have "of_int (d div Hour) + hour_fraction d \<le> of_int (k * 24 * 2 ^ 42 - 1) / 2 ^ 42"
    unfolding h by (simp add: field_simps)
  then have "Hours d \<le> rn (of_int (k * 24 * 2 ^ 42 - 1) / 2 ^ 42)"
    unfolding Hours_nonneg [OF d] by (rule rn_mono)
  also have "\<dots> = of_int (k * 24 * 2 ^ 42 - 1) / 2 ^ 42"
    using assms by (intro rn_binary) simp
  finally have "Hours d / 24 \<le> of_int (k * 2 ^ 47 - 1) / 2 ^ 47"
    by (simp add: field_simps)
  then have "rn (Hours d / 24) \<le> rn (of_int (k * 2 ^ 47 - 1) / 2 ^ 47)" by (rule rn_mono)
  also have "\<dots> = of_int (k * 2 ^ 47 - 1) / 2 ^ 47" using assms by (intro rn_binary) simp
  also have "\<dots> < of_int k" by (simp add: field_simps)
  finally have lt: "rn (Hours d / 24) < of_int k" .
  have "whole_days d < k"
  proof (cases "0 \<le> rn (Hours d / 24)")
    case True
    then show ?thesis using lt by (simp add: whole_days_def trunc_def floor_less_iff)
  next
    case False
    then show ?thesis using assms by (simp add: whole_days_def trunc_def ceiling_less_iff)
  qed
  then show ?thesis by (simp add: d_def)
qed

lemma whole_days_less_iff:
  assumes "0 \<le> d" "d < 2 ^ 63" "1 \<le> k" "k \<le> 31"
  shows "whole_days d < k \<longleftrightarrow> d < k * (24 * Hour)"
proof
  assume "d < k * (24 * Hour)"
  then have "whole_days d \<le> whole_days (k * (24 * Hour) - 1)"
    using assms by (intro whole_days_mono) simp_all
  then show "whole_days d < k" using whole_days_before [of k] assms by simp
next
  assume w: "whole_days d < k"
  show "d < k * (24 * Hour)"
  proof (rule ccontr)
    assume "\<not> d < k * (24 * Hour)"
    then have "whole_days (k * (24 * Hour)) \<le> whole_days d"
      using assms by (intro whole_days_mono) simp_all
    then show False using w whole_days_exact [of k] assms by simp
  qed
qed


abbreviation Day :: duration where "Day \<equiv> 86400000000000"

lemma time_Sub_ladder:
  assumes "b \<le> a" "1 \<le> k" "k \<le> 31"
  shows "whole_days (time_Sub a b) < k \<longleftrightarrow> a - b < k * Day"
proof -
  have "0 \<le> time_Sub a b" "time_Sub a b < 2 ^ 63" using assms(1) by (simp_all add: time_Sub_def)
  then have "whole_days (time_Sub a b) < k \<longleftrightarrow> time_Sub a b < k * Day"
    using assms whole_days_less_iff [of "time_Sub a b" k] by simp
  also have "\<dots> \<longleftrightarrow> a - b < k * Day" using assms by (auto simp: time_Sub_def)
  finally show ?thesis .
qed

lemma cert_finding_sel [simp]:
  "fCheck (cert_finding sha t c d ti sv r ev) = c" "fSeverity (cert_finding sha t c d ti sv r ev) = sv"
  "fTarget (cert_finding sha t c d ti sv r ev) = tCanonical t"
  "fTitle (cert_finding sha t c d ti sv r ev) = ti"
  "fRemediation (cert_finding sha t c d ti sv r ev) = r"
  "fFingerprint (cert_finding sha t c d ti sv r ev) = Fingerprint sha moduleID (tCanonical t) c d"
  by (simp_all add: cert_finding_def)

text \<open>
  The severity of an expiry finding is the ladder on the exact remaining time: an expired
  certificate and one with less than two days left are critical, less than eight days high, less
  than thirty-one days medium, and nothing is reported above that; neither the float arithmetic
  on the hours nor the saturation of a time difference moves a boundary. The documentation lists
  a further stage at fourteen days, which the code does not have.
\<close>

theorem expiry_ladder:
  "map (\<lambda>f. (fCheck f, fSeverity f)) (checkExpiry sha t leaf now) =
    (let left = crNotAfter leaf - now in
     if left < 0 then [(''tls.expired'', SeverityCritical)]
     else if left < 2 * Day then [(''tls.expiry'', SeverityCritical)]
     else if left < 8 * Day then [(''tls.expiry'', SeverityHigh)]
     else if left < 31 * Day then [(''tls.expiry'', SeverityMedium)]
     else [])"
proof (cases "now > crNotAfter leaf")
  case True
  then show ?thesis by (simp add: checkExpiry_def Let_def)
next
  case False
  then have le: "now \<le> crNotAfter leaf" by simp
  let ?w = "whole_days (time_Sub (crNotAfter leaf) now)"
  have "?w \<le> 30 \<longleftrightarrow> crNotAfter leaf - now < 31 * Day" "?w \<le> 7 \<longleftrightarrow> crNotAfter leaf - now < 8 * Day"
    "?w \<le> 1 \<longleftrightarrow> crNotAfter leaf - now < 2 * Day"
    using time_Sub_ladder [OF le, of 31] time_Sub_ladder [OF le, of 8] time_Sub_ladder [OF le, of 2]
    by linarith+
  with False show ?thesis by (simp add: checkExpiry_def Let_def not_less not_le) linarith
qed

subsection \<open>Findings are ingestible\<close>

lemma rem_nonempty [simp]:
  "rem_expired \<noteq> []" "rem_expiry \<noteq> []" "rem_hostname \<noteq> []" "rem_incomplete \<noteq> []"
  "rem_untrusted \<noteq> []" "rem_protocol \<noteq> []" "rem_legacy \<noteq> []" "rem_cipher \<noteq> []" "rem_key \<noteq> []"
  "rem_signature \<noteq> []"
  by (simp_all add: rem_expired_def rem_expiry_def rem_hostname_def rem_incomplete_def
      rem_untrusted_def rem_protocol_def rem_legacy_def rem_cipher_def rem_key_def rem_signature_def)

lemma valid_severities [simp]:
  "Valid SeverityCritical" "Valid SeverityHigh" "Valid SeverityMedium"
  by (simp_all add: Valid_iff)

text \<open>What the checks return, by check id; each check returns at most one finding.\<close>

lemmas check_defs = checkExpiry_def checkHostname_def checkChain_def checkProtocol_def
  checkCipher_def checkKeyStrength_def checkSignature_def probeLegacy_def

lemma check_ids:
  "map fCheck (checkExpiry sha t leaf now) \<in> {[], [''tls.expired''], [''tls.expiry'']}"
  "map fCheck (checkHostname sha env t leaf host) \<in> {[], [''tls.hostname_mismatch'']}"
  "map fCheck (checkChain sha env t state now) \<in> {[], [''tls.incomplete_chain''], [''tls.untrusted_chain'']}"
  "map fCheck (checkProtocol sha t state) \<in> {[], [''tls.weak_protocol'']}"
  "map fCheck (checkCipher sha env t state) \<in> {[], [''tls.weak_cipher'']}"
  "map fCheck (checkKeyStrength sha t leaf) \<in> {[], [''tls.weak_key'']}"
  "map fCheck (checkSignature sha t leaf) \<in> {[], [''tls.legacy_signature'']}"
  "map fCheck (probeLegacy sha env t host) \<in> {[], [''tls.legacy_protocol'']}"
  by (simp_all add: check_defs Let_def split: sum.splits public_key.splits sig_alg.splits)

definition cert_finding_ok :: "(string \<Rightarrow> string) \<Rightarrow> target \<Rightarrow> finding \<Rightarrow> bool" where
  "cert_finding_ok sha t f \<longleftrightarrow> fTarget f = tCanonical t \<and> no_bar (fCheck f) \<and> fCheck f \<noteq> [] \<and>
     fTitle f \<noteq> [] \<and> fRemediation f \<noteq> [] \<and> Valid (fSeverity f) \<and>
     (\<exists>d. fFingerprint f = Fingerprint sha moduleID (tCanonical t) (fCheck f) d)"

lemma check_findings_ok:
  "list_all (cert_finding_ok sha t) (checkExpiry sha t leaf now)"
  "list_all (cert_finding_ok sha t) (checkHostname sha env t leaf host)"
  "list_all (cert_finding_ok sha t) (checkChain sha env t state now)"
  "list_all (cert_finding_ok sha t) (checkProtocol sha t state)"
  "list_all (cert_finding_ok sha t) (checkCipher sha env t state)"
  "list_all (cert_finding_ok sha t) (checkKeyStrength sha t leaf)"
  "list_all (cert_finding_ok sha t) (checkSignature sha t leaf)"
  "list_all (cert_finding_ok sha t) (probeLegacy sha env t host)"
  by (auto simp: check_defs Let_def cert_finding_ok_def no_bar_def
      split: sum.splits public_key.splits sig_alg.splits)

definition fresh_in :: "string set \<Rightarrow> finding list \<Rightarrow> bool" where
  "fresh_in A fs \<longleftrightarrow> distinct (map fCheck fs) \<and> fCheck ` set fs \<subseteq> A"

lemma fresh_append:
  "fresh_in A xs \<Longrightarrow> fresh_in B ys \<Longrightarrow> A \<inter> B = {} \<Longrightarrow> fresh_in (A \<union> B) (xs @ ys)"
  by (auto simp: fresh_in_def)

lemma fresh_map: "map fCheck fs \<in> {[], [a], [b]} \<Longrightarrow> fresh_in {a, b} fs"
proof -
  assume "map fCheck fs \<in> {[], [a], [b]}"
  moreover have "fCheck ` set fs = set (map fCheck fs)" by simp
  ultimately show ?thesis unfolding fresh_in_def by (auto simp del: set_map)
qed

lemma fresh_map1: "map fCheck fs \<in> {[], [a]} \<Longrightarrow> fresh_in {a} fs"
  using fresh_map [of fs a a] by simp

lemma checks_fresh:
  "fresh_in ({''tls.expired'', ''tls.expiry''} \<union> ({''tls.hostname_mismatch''} \<union>
     ({''tls.incomplete_chain'', ''tls.untrusted_chain''} \<union> ({''tls.weak_protocol''} \<union>
     ({''tls.weak_cipher''} \<union> ({''tls.weak_key''} \<union> ({''tls.legacy_signature''} \<union>
     {''tls.legacy_protocol''})))))))
    (checkExpiry sha t leaf now @ checkHostname sha env t leaf host
      @ checkChain sha env t state now @ checkProtocol sha t state
      @ checkCipher sha env t state @ checkKeyStrength sha t leaf
      @ checkSignature sha t leaf @ (if p then probeLegacy sha env t host else []))"
proof -
  have "fresh_in {''tls.legacy_protocol''} (if p then probeLegacy sha env t host else [])"
    using fresh_map1 [OF check_ids(8)] by (simp add: fresh_in_def)
  then show ?thesis
    by (intro fresh_append fresh_map [OF check_ids(1)] fresh_map1 [OF check_ids(2)]
        fresh_map [OF check_ids(3)] fresh_map1 [OF check_ids(4)] fresh_map1 [OF check_ids(5)]
        fresh_map1 [OF check_ids(6)] fresh_map1 [OF check_ids(7)]) simp_all
qed

lemma Collect_parts:
  assumes "Collect sha env c t now = Inr fs"
  shows "distinct (map fCheck fs)" "list_all (cert_finding_ok sha t) fs"
proof -
  obtain state leaf host p where fs: "fs = checkExpiry sha t leaf now
      @ checkHostname sha env t leaf host @ checkChain sha env t state now @ checkProtocol sha t state
      @ checkCipher sha env t state @ checkKeyStrength sha t leaf @ checkSignature sha t leaf
      @ (if p then probeLegacy sha env t host else [])"
    using assms by (auto simp: Collect_def Let_def split: sum.splits)
  show "distinct (map fCheck fs)"
    unfolding fs using checks_fresh fresh_in_def by blast
  show "list_all (cert_finding_ok sha t) fs"
    unfolding fs list_all_append using check_findings_ok by simp
qed

lemma cert_finding_valid:
  assumes "cert_finding_ok sha t f" "tCanonical t \<noteq> []" "\<forall>s. length (sha s) = 32"
  shows "ValidateForIngest f = None \<and> fTarget f = tCanonical t"
proof -
  obtain d where "fFingerprint f = Fingerprint sha moduleID (tCanonical t) (fCheck f) d"
    using assms(1) by (auto simp: cert_finding_ok_def)
  then have "length (fFingerprint f) = 32"
    by (simp add: Fingerprint_def length_hex_encode assms(3))
  then show ?thesis using assms(1,2) by (auto simp: ValidateForIngest_None cert_finding_ok_def)
qed

lemma cert_input_inj:
  assumes "no_bar c" "no_bar c'" "fingerprint_input m t c d = fingerprint_input m t c' d'"
  shows "c = c'"
  using assms(3) split_at_bar [OF assms(1,2), of d d'] by (simp add: fingerprint_input_def)

lemma cert_inputs:
  assumes "list_all (cert_finding_ok sha t) fs" "distinct (map fCheck fs)"
  shows "\<exists>ins. map fFingerprint fs = map (\<lambda>s. hex_encode (take 16 (sha s))) ins \<and> distinct ins"
proof -
  obtain d where d: "\<forall>f \<in> set fs. fFingerprint f = Fingerprint sha moduleID (tCanonical t) (fCheck f) (d f)"
    using assms(1) unfolding list_all_iff cert_finding_ok_def by metis
  define g where "g f = fingerprint_input moduleID (tCanonical t) (fCheck f) (d f)" for f
  have "inj_on g (set fs)"
  proof (rule inj_onI)
    fix x y
    assume xy: "x \<in> set fs" "y \<in> set fs" "g x = g y"
    have "fCheck x = fCheck y"
      using assms(1) xy cert_input_inj unfolding list_all_iff cert_finding_ok_def g_def by blast
    with xy assms(2) show "x = y" by (simp add: distinct_map inj_on_def)
  qed
  moreover have "distinct fs" using assms(2) by (simp add: distinct_map)
  ultimately have "distinct (map g fs)" by (simp add: distinct_map)
  moreover have "map fFingerprint fs = map (\<lambda>s. hex_encode (take 16 (sha s))) (map g fs)"
    using d by (simp add: Fingerprint_def g_def)
  ultimately show ?thesis by blast
qed

text \<open>
  C33: whatever a server presents, every finding of a scan passes the ingest check and names the
  scanned target, each check reports at most once, and the fingerprints are hashes of pairwise
  different inputs, so they differ unless the hash collides.
\<close>

theorem Collect_ingestible:
  assumes "Collect sha env c t now = Inr fs" and "tCanonical t \<noteq> []" and "\<forall>s. length (sha s) = 32"
  shows "(\<forall>f \<in> set fs. ValidateForIngest f = None \<and> fTarget f = tCanonical t) \<and>
    distinct (map fCheck fs) \<and>
    (\<exists>ins. map fFingerprint fs = map (\<lambda>s. hex_encode (take 16 (sha s))) ins \<and> distinct ins \<and>
       (inj_on (\<lambda>s. take 16 (sha s)) (set ins) \<longrightarrow> distinct (map fFingerprint fs)))"
proof (intro conjI)
  show "distinct (map fCheck fs)" by (rule Collect_parts(1) [OF assms(1)])
  show "\<forall>f \<in> set fs. ValidateForIngest f = None \<and> fTarget f = tCanonical t"
  proof
    fix f
    assume "f \<in> set fs"
    then have "cert_finding_ok sha t f"
      using Collect_parts(2) [OF assms(1)] by (simp add: list_all_iff)
    then show "ValidateForIngest f = None \<and> fTarget f = tCanonical t"
      by (rule cert_finding_valid [OF _ assms(2,3)])
  qed
  obtain ins where ins: "map fFingerprint fs = map (\<lambda>s. hex_encode (take 16 (sha s))) ins" "distinct ins"
    using cert_inputs [OF Collect_parts(2) [OF assms(1)] Collect_parts(1) [OF assms(1)]] by blast
  have "distinct (map fFingerprint fs)" if "inj_on (\<lambda>s. take 16 (sha s)) (set ins)"
  proof -
    have "inj_on (\<lambda>s. hex_encode (take 16 (sha s))) (set ins)"
      using that hex_encode_inj by (simp add: inj_on_def)
    then show ?thesis unfolding ins(1) using ins(2) by (simp add: distinct_map)
  qed
  with ins show "\<exists>ins. map fFingerprint fs = map (\<lambda>s. hex_encode (take 16 (sha s))) ins \<and> distinct ins \<and>
       (inj_on (\<lambda>s. take 16 (sha s)) (set ins) \<longrightarrow> distinct (map fFingerprint fs))" by blast
qed

text \<open>A server with an expired, self-signed certificate that also accepts TLS 1.1.\<close>

definition sample_cert :: certificate where
  "sample_cert = \<lparr>crSubject = ''CN=a'', crIssuer = ''CN=a'', crNotBefore = 0, crNotAfter = 1000,
     crSerial = ''1'', crDNSNames = None, crPublicKey = RSA 1024, crSignatureAlgorithm = SHA1WithRSA\<rparr>"

definition sample_tls :: tls_env where
  "sample_tls = \<lparr>teDial = (\<lambda>_ _ _ hi. Inr \<lparr>csVersion = (if hi = 0 then VersionTLS12 else VersionTLS11),
       csCipherSuite = 5, csPeerCertificates = [sample_cert]\<rparr>),
     teVerifyHostname = (\<lambda>_ _. False), teVerify = (\<lambda>_ _ _. False), teInsecureCipherSuites = [5],
     teCipherSuiteName = (\<lambda>_. ''RC4''), tePrint = (\<lambda>_. False)\<rparr>"

definition sample_host :: target where
  "sample_host = \<lparr>tRaw = ''a'', tCanonical = ''a:443'', tMeta = [(''host'', ''a''), (''port'', ''443'')]\<rparr>"

definition sample_findings :: "finding list" where
  "sample_findings = (case Collect toy_hash sample_tls New_certlight sample_host 2000 of
     Inl _ \<Rightarrow> [] | Inr fs \<Rightarrow> fs)"

lemma sample_collect: "Collect toy_hash sample_tls New_certlight sample_host 2000 = Inr sample_findings"
  by (simp add: sample_findings_def Collect_def dial_def sample_tls_def sample_host_def Let_def)

theorem Collect_ingestible_witness:
  "(\<exists>fs. Collect toy_hash sample_tls New_certlight sample_host 2000 = Inr fs \<and>
     distinct (map fCheck fs)) \<and> tCanonical sample_host = ''a:443''"
proof -
  have "tCanonical sample_host \<noteq> []" "tCanonical sample_host = ''a:443''" by (simp_all add: sample_host_def)
  then show ?thesis
    using Collect_ingestible [OF sample_collect] sample_collect length_toy_hash by blast
qed

subsection \<open>The stages of the countdown\<close>

text \<open>The urgency of what is reported of the expiry: -1 for nothing, 4 for critical.\<close>

definition expiry_level :: "(string \<Rightarrow> string) \<Rightarrow> target \<Rightarrow> certificate \<Rightarrow> gtime \<Rightarrow> int" where
  "expiry_level sha t leaf now =
     (case checkExpiry sha t leaf now of [] \<Rightarrow> - 1 | f # _ \<Rightarrow> rank (fSeverity f))"

lemma expiry_level_ladder:
  "expiry_level sha t leaf now =
    (let left = crNotAfter leaf - now
     in if left < 2 * Day then 4 else if left < 8 * Day then 3 else if left < 31 * Day then 2 else - 1)"
proof -
  have "expiry_level sha t leaf now = (case map (\<lambda>f. (fCheck f, fSeverity f)) (checkExpiry sha t leaf now) of
      [] \<Rightarrow> - 1 | p # _ \<Rightarrow> rank (snd p))"
    by (simp add: expiry_level_def split: list.split)
  then show ?thesis unfolding expiry_ladder by (simp add: Let_def rank_def go_consts)
qed

text \<open>
  C13: the expiry countdown is staged as documented: with at most 30 days left there is exactly one
  finding, with at most 7 days left it is at least high and with at most 1 day left critical, an expired
  certificate is its own critical finding, and the urgency only grows as time passes. No stage comes
  early: the days left are rounded down, and with 31 days left nothing is reported, with 8 the finding is
  below high and with 2 below critical. (A change of severity at 14 days, which the documentation lists
  too, is not claimed: the code has none.)
\<close>

theorem expiry_stages:
  "let left = crNotAfter leaf - now;
       found = map (\<lambda>f. (fCheck f, fSeverity f)) (checkExpiry sha t leaf now);
       level = expiry_level sha t leaf
   in (left < 0 \<longrightarrow> found = [(''tls.expired'', SeverityCritical)]) \<and>
      (0 \<le> left \<and> left \<le> 30 * Day \<longrightarrow> (\<exists>sev. found = [(''tls.expiry'', sev)] \<and> Valid sev)) \<and>
      (31 * Day \<le> left \<longrightarrow> found = []) \<and>
      (left \<le> 7 * Day \<longrightarrow> rank SeverityHigh \<le> level now) \<and>
      (8 * Day \<le> left \<longrightarrow> level now < rank SeverityHigh) \<and>
      (left \<le> 1 * Day \<longrightarrow> level now = rank SeverityCritical) \<and>
      (2 * Day \<le> left \<longrightarrow> level now < rank SeverityCritical) \<and>
      (\<forall>later \<ge> now. level now \<le> level later)"
proof -
  have r: "rank SeverityHigh = 3" "rank SeverityCritical = 4" by (simp_all add: rank_def go_consts)
  have v: "Valid SeverityCritical" "Valid SeverityHigh" "Valid SeverityMedium" by (simp_all add: Valid_iff)
  show ?thesis
    unfolding Let_def expiry_level_ladder expiry_ladder r
    by (auto simp: v)
qed

definition fading_cert :: certificate where
  "fading_cert = sample_cert\<lparr>crNotAfter := 40 * Day\<rparr>"

theorem expiry_stages_witness:
  "checkExpiry toy_hash sample_host fading_cert (5 * Day) = [] \<and>
   (\<exists>sev. map (\<lambda>f. (fCheck f, fSeverity f)) (checkExpiry toy_hash sample_host fading_cert (10 * Day)) = [(''tls.expiry'', sev)]) \<and>
   expiry_level toy_hash sample_host fading_cert (39 * Day) = 4 \<and>
   map fSeverity (checkExpiry toy_hash sample_host fading_cert (41 * Day)) = [SeverityCritical]"
proof -
  have e: "crNotAfter fading_cert = 40 * Day" by (simp add: fading_cert_def)
  have r: "rank SeverityCritical = 4" by (simp add: rank_def go_consts)
  note p = expiry_stages [of fading_cert _ toy_hash sample_host, unfolded Let_def e]
  show ?thesis using p [of "5 * Day"] p [of "10 * Day"] p [of "39 * Day"] p [of "41 * Day"] by (auto simp: r)
qed

subsection \<open>Canonical targets\<close>

lemma last_index_of_SomeD:
  assumes "last_index_of c s = Some i"
  shows "s = take i s @ c # drop (i + 1) s \<and> c \<notin> set (drop (i + 1) s)"
proof -
  have c: "c \<in> set s" using assms by (auto simp: last_index_of_def split: if_splits)
  then obtain a b where s: "s = a @ c # b" "c \<notin> set b" by (meson split_list_last)
  then have "i = length a" using assms last_index_of_append [of c b a] by simp
  with s show ?thesis by simp
qed

lemma index_of_SomeD:
  assumes "index_of c s = Some i"
  shows "s = take i s @ c # drop (i + 1) s \<and> c \<notin> set (take i s)"
proof -
  have c: "c \<in> set s" using assms by (auto simp: index_of_def split: if_splits)
  then obtain a b where s: "s = a @ c # b" "c \<notin> set a" by (meson split_list_first)
  then have "i = length a" using assms index_of_append [of c a b] by simp
  with s show ?thesis by simp
qed

text \<open>What a successful split says: the parts come from the input, and have no brackets.\<close>

lemma SplitHostPort_SomeD:
  assumes "SplitHostPort s = Some (host, port)"
  shows "no_brackets host \<and> no_brackets port \<and> CHR '':'' \<notin> set port \<and> set host \<subseteq> set s \<and>
    set port \<subseteq> set s"
proof -
  obtain i where i: "last_index_of (CHR '':'') s = Some i"
    using assms by (auto simp: SplitHostPort_def split: option.splits)
  note li = last_index_of_SomeD [OF i]
  have port: "port = drop (i + 1) s"
    using assms i by (auto simp: SplitHostPort_def Let_def split: if_splits option.splits prod.splits)
  have sub: "set (drop n s) \<subseteq> set s" "set (take n s) \<subseteq> set s" for n
    by (simp_all add: set_drop_subset set_take_subset)
  show ?thesis
  proof (cases "hd s = CHR ''[''")
    case True
    then obtain e where e: "index_of (CHR '']'') s = Some e" "e + 1 = i" "host = drop 1 (take e s)"
      "CHR ''['' \<notin> set (drop 1 s)" "CHR '']'' \<notin> set (drop (e + 1) s)"
      using assms i by (auto simp: SplitHostPort_def Let_def split: if_splits option.splits)
    have "CHR '']'' \<notin> set host"
      using index_of_SomeD [OF e(1)] in_set_dropD [of _ 1 "take e s"] unfolding e(3) by blast
    moreover have "set host \<subseteq> set (drop 1 s)"
      unfolding e(3) by (simp add: drop_take set_take_subset)
    moreover have "set port \<subseteq> set (drop (e + 1) s)" "set port \<subseteq> set (drop 1 s)"
      unfolding port using e(2) set_drop_subset_set_drop [of "e + 1" "i + 1" s]
        set_drop_subset_set_drop [of 1 "i + 1" s] by simp_all
    ultimately show ?thesis
      using e(4,5) li port sub(1) [of 1] sub(1) [of "i + 1"] by (auto simp: no_brackets_def)
  next
    case False
    then have h: "host = take i s" "CHR ''['' \<notin> set s" "CHR '']'' \<notin> set s"
      using assms i by (auto simp: SplitHostPort_def Let_def split: if_splits)
    with li port sub show ?thesis by (auto simp: no_brackets_def)
  qed
qed

lemma has_prefix_Cons_mem: "has_prefix s p \<Longrightarrow> set p \<subseteq> set s"
  unfolding has_prefix_def by (metis set_take_subset)

lemma contains_set: "contains s p \<Longrightarrow> set p \<subseteq> set s"
  unfolding contains_iff by auto

lemma contains_char: "contains s [c] \<longleftrightarrow> c \<in> set s"
proof
  assume "c \<in> set s"
  then obtain a b where "s = a @ [c] @ b" using split_list by force
  then show "contains s [c]" unfolding contains_iff by blast
qed (auto dest: contains_set)

lemma set_JoinHostPort:
  "set (JoinHostPort host port) \<subseteq> set host \<union> set port \<union> {CHR ''['', CHR '']'', CHR '':''}"
  by (auto simp: JoinHostPort_def)

lemma JoinHostPort_ends:
  "host \<noteq> [] \<Longrightarrow> hd (JoinHostPort host port) \<in> {hd host, CHR ''[''}"
  "last (JoinHostPort host port) \<in> {last port, CHR '':''}"
  by (simp_all add: JoinHostPort_def)

text \<open>
  C34: the canonical form of a target is stable: for printable input (and a host without brackets
  where no port was given) it splits back into the host and port that the scan will use, and
  validating it again gives the same canonical form, host and port; so the saved form of a target
  restores that target.
\<close>

theorem ValidateTarget_canonical:
  assumes "certlight_ValidateTarget raw = Inr t" and "\<forall>c \<in> set (trim_space raw). printable c"
    and "SplitHostPort (trim_space raw) = None \<longrightarrow> no_brackets (trim_space raw)"
  shows "\<exists>host port. SplitHostPort (tCanonical t) = Some (host, port) \<and> host \<noteq> [] \<and>
    tMeta t = [(''host'', host), (''port'', port)] \<and>
    certlight_ValidateTarget (tCanonical t) = Inr (t\<lparr>tRaw := tCanonical t\<rparr>)"
proof -
  define inp where "inp = trim_space raw"
  obtain host port where
    hp: "SplitHostPort inp = Some (host, port) \<or> (SplitHostPort inp = None \<and>
      \<not> count_list inp (CHR '':'') > 1 \<and> (host, port) = (inp, ''443''))"
    and ne: "host \<noteq> []" and sl: "\<not> contains inp ''/''"
    and t: "t = \<lparr>tRaw = raw, tCanonical = JoinHostPort host port,
      tMeta = [(''host'', host), (''port'', port)]\<rparr>"
    using assms(1)
    by (auto simp: certlight_ValidateTarget_def Let_def inp_def split: if_splits option.splits)
  have parts: "no_brackets host \<and> no_brackets port \<and> CHR '':'' \<notin> set port \<and> set host \<subseteq> set inp \<and>
      set port \<subseteq> set inp \<union> set ''443''"
    using hp
  proof
    assume "SplitHostPort inp = Some (host, port)"
    then show ?thesis using SplitHostPort_SomeD by blast
  next
    assume n: "SplitHostPort inp = None \<and> \<not> count_list inp (CHR '':'') > 1 \<and> (host, port) = (inp, ''443'')"
    then have "no_brackets inp" using assms(3) by (simp add: inp_def)
    with n show ?thesis by (simp add: no_brackets_def)
  qed
  then have split: "SplitHostPort (JoinHostPort host port) = Some (host, port)"
    using Split_Join by blast
  have pr: "\<forall>c \<in> set inp \<union> set ''443'' \<union> {CHR ''['', CHR '']'', CHR '':''}. printable c"
    using assms(2) by (auto simp: inp_def printable_def byte_def)
  have jne: "JoinHostPort host port \<noteq> []" by (simp add: JoinHostPort_def)
  have "set (JoinHostPort host port) \<subseteq> set inp \<union> set ''443'' \<union> {CHR ''['', CHR '']'', CHR '':''}"
    using set_JoinHostPort [of host port] parts by blast
  moreover have "CHR ''/'' \<notin> set inp" using sl contains_char by simp
  ultimately have j: "\<forall>c \<in> set (JoinHostPort host port). printable c"
    "CHR ''/'' \<notin> set (JoinHostPort host port)"
    using pr by auto
  have trim: "trim_space (JoinHostPort host port) = JoinHostPort host port"
    by (intro trim_space_id) (use j(1) jne in auto)
  have sl2: "\<not> contains (JoinHostPort host port) ''/''" "\<not> contains (JoinHostPort host port) ''://''"
    using j(2) contains_set by (simp add: contains_char) (use contains_set j(2) in fastforce)
  have "certlight_ValidateTarget (JoinHostPort host port) = Inr (t\<lparr>tRaw := tCanonical t\<rparr>)"
    unfolding certlight_ValidateTarget_def Let_def trim split
    using jne sl2 ne by (simp add: t)
  with split ne show ?thesis by (simp add: t)
qed

theorem ValidateTarget_canonical_witness:
  "\<exists>t. certlight_ValidateTarget ''[::1]:8443'' = Inr t \<and> tCanonical t = ''[::1]:8443'' \<and>
     certlight_ValidateTarget (tCanonical t) = Inr (t\<lparr>tRaw := tCanonical t\<rparr>)"
proof -
  let ?raw = "''[::1]:8443''"
  have tr: "trim_space ?raw = ?raw" by (intro trim_space_id) (simp_all add: printable_def byte_def)
  have sp: "SplitHostPort ?raw = Some (''::1'', ''8443'')" by code_simp
  have v: "certlight_ValidateTarget ?raw = Inr \<lparr>tRaw = ?raw, tCanonical = ?raw,
      tMeta = [(''host'', ''::1''), (''port'', ''8443'')]\<rparr>"
    unfolding certlight_ValidateTarget_def Let_def tr sp
    by (simp add: JoinHostPort_def has_prefix_def)
  have "\<forall>c \<in> set (trim_space ?raw). printable c" unfolding tr by (simp add: printable_def byte_def)
  from ValidateTarget_canonical [OF v this] v show ?thesis
    by (simp add: tr sp)
qed

text \<open>
  Without the condition on brackets the canonical form is not stable: a bracket in a host that comes
  without a port is taken, and the form it is given is read as a host of its own.
\<close>

theorem bracket_target_drifts:
  "\<exists>t t'. certlight_ValidateTarget ''a]'' = Inr t \<and> tCanonical t = ''a]:443'' \<and>
     certlight_ValidateTarget (tCanonical t) = Inr t' \<and> tCanonical t' = ''[a]:443]:443''"
proof -
  have tr: "trim_space ''a]'' = ''a]''" "trim_space ''a]:443'' = ''a]:443''"
    by (intro trim_space_id; simp add: printable_def byte_def)+
  have sp: "SplitHostPort ''a]'' = None" "SplitHostPort ''a]:443'' = None" by code_simp+
  have "certlight_ValidateTarget ''a]'' = Inr \<lparr>tRaw = ''a]'', tCanonical = ''a]:443'',
      tMeta = [(''host'', ''a]''), (''port'', ''443'')]\<rparr>"
    unfolding certlight_ValidateTarget_def Let_def tr sp by (simp add: JoinHostPort_def has_prefix_def)
  moreover have "certlight_ValidateTarget ''a]:443'' = Inr \<lparr>tRaw = ''a]:443'', tCanonical = ''[a]:443]:443'',
      tMeta = [(''host'', ''a]:443''), (''port'', ''443'')]\<rparr>"
    unfolding certlight_ValidateTarget_def Let_def tr sp by (simp add: JoinHostPort_def has_prefix_def)
  ultimately show ?thesis by simp
qed

end
