(* ===== verification/Cmd_Main.thy ===== *)
theory Cmd_Main
  imports Web_Server Certlight_Collector
begin

text \<open>
  \<open>cmd/certlight/channels.go\<close> and \<open>cmd/certlight/main.go\<close>: from the flags to the running program. \<open>build\<close>
  turns the free channel settings into channels, \<open>paid_channels\<close> is the gate on Slack and Telegram, and \<open>boot\<close>
  is \<open>main\<close> up to the point where the loops and the HTTP server run: it returns the exit code with its
  message or the wired system. What is called of hexward-core, the files, the database driver and the
  host are arguments.
\<close>

subsection \<open>Alert and export channels\<close>

record channel_flags =
  fgWebhook :: string
  fgWebhookFormat :: string
  fgWebhookSecretFile :: string
  fgSyslogAddr :: string
  fgSyslogNetwork :: string
  fgSyslogFormat :: string
  fgSyslogRFC :: int
  fgSyslogCAFile :: string
  fgExportFile :: string
  fgHecURL :: string
  fgHecTokenFile :: string
  fgHecIndex :: string
  fgHecCAFile :: string
  fgEvidence :: string

text \<open>The values the flags have when they are not given.\<close>

definition registerChannelFlags :: channel_flags where
  "registerChannelFlags =
     \<lparr>fgWebhook = [], fgWebhookFormat = ''v1'', fgWebhookSecretFile = [], fgSyslogAddr = [],
      fgSyslogNetwork = ''udp'', fgSyslogFormat = ''kv'', fgSyslogRFC = 5424, fgSyslogCAFile = [],
      fgExportFile = [], fgHecURL = [], fgHecTokenFile = [], fgHecIndex = [], fgHecCAFile = [],
      fgEvidence = ''redacted''\<rparr>"

text \<open>The sinks of hexward-core that are set up here; \<open>'t\<close> is its TLS configuration.\<close>

datatype 't hfs_sink =
    SinkWebhook string string
  | SinkSyslog string string string int "'t option"
  | SinkFile string
  | SinkHEC string string string "'t option"

datatype ('t, 'm) channel =
    Webhook webhook_channel
  | Syslog syslog_channel
  | Slack string
  | Telegram telegram_channel
  | HFS "'t hfs_sink" hfs_meta 'm

text \<open>What is called of hexward-core, and which runes beyond ASCII are printable for \<open>strconv.Quote\<close>.\<close>

record ('t, 'm) sink_env =
  skParseEvidenceMode :: "string \<Rightarrow> 'm \<times> bool"
  skReadSecretFile :: "string \<Rightarrow> gerror + string"
  skTLSConfig :: "string \<Rightarrow> string \<Rightarrow> gerror + 't"
  skValidate :: "'t hfs_sink \<Rightarrow> gerror option"
  skEndpoint :: "'t hfs_sink \<Rightarrow> gerror option"
  skName :: "'t hfs_sink \<Rightarrow> string"
  skPrint :: "rune \<Rightarrow> bool"

definition build_webhook ::
    "('t, 'm) sink_env \<Rightarrow> channel_flags \<Rightarrow> hfs_meta \<Rightarrow> 'm \<Rightarrow> gerror + ('t, 'm) channel list" where
  "build_webhook sk c meta mode =
     (if fgWebhook c = [] then Inr []
      else case (if fgWebhookSecretFile c = [] then Inr [] else skReadSecretFile sk (fgWebhookSecretFile c)) of
        Inl e \<Rightarrow> Inl (''-webhook-secret-file: '' @ e)
      | Inr secret \<Rightarrow>
          (if fgWebhookFormat c = [] \<or> fgWebhookFormat c = ''v1''
           then Inr [Webhook \<lparr>whURL = fgWebhook c, whSecret = secret\<rparr>]
           else if fgWebhookFormat c = ''v2''
           then Inr [HFS (SinkWebhook (fgWebhook c) secret) meta mode]
           else Inl (''-webhook-format '' @ go_quote (skPrint sk) (fgWebhookFormat c) @ '': want v1 or v2'')))"

definition build_syslog ::
    "('t, 'm) sink_env \<Rightarrow> channel_flags \<Rightarrow> hfs_meta \<Rightarrow> 'm \<Rightarrow> gerror + ('t, 'm) channel list" where
  "build_syslog sk c meta mode =
     (if fgSyslogAddr c = [] then Inr []
      else if fgSyslogFormat c = [] \<or> fgSyslogFormat c = ''kv''
      then
        (if fgSyslogNetwork c \<noteq> ''udp'' \<and> fgSyslogNetwork c \<noteq> ''tcp''
         then Inl (''-syslog-network '' @ go_quote (skPrint sk) (fgSyslogNetwork c)
                   @ '' with -syslog-format kv: want udp or tcp (tls needs json or cef)'')
         else Inr [Syslog \<lparr>syAddr = fgSyslogAddr c, syNetwork = fgSyslogNetwork c, syHostname = [],
                     syTag = [], syFacility = 0\<rparr>])
      else if fgSyslogFormat c = ''json'' \<or> fgSyslogFormat c = ''cef''
      then
        (case (if fgSyslogNetwork c = ''tls''
               then (case skTLSConfig sk (fgSyslogCAFile c)
                       (case SplitHostPort (fgSyslogAddr c) of None \<Rightarrow> [] | Some (host, port) \<Rightarrow> host) of
                       Inl e \<Rightarrow> Inl e | Inr tc \<Rightarrow> Inr (Some tc))
               else Inr None) of
           Inl e \<Rightarrow> Inl (''-syslog-ca-file: '' @ e)
         | Inr tc \<Rightarrow>
             (let s = SinkSyslog (fgSyslogAddr c) (fgSyslogNetwork c) (fgSyslogFormat c) (fgSyslogRFC c) tc
              in case skValidate sk s of
                   Some e \<Rightarrow> Inl e
                 | None \<Rightarrow> Inr [HFS s meta mode]))
      else Inl (''-syslog-format '' @ go_quote (skPrint sk) (fgSyslogFormat c) @ '': want kv, json or cef''))"

definition build_file ::
    "channel_flags \<Rightarrow> hfs_meta \<Rightarrow> 'm \<Rightarrow> ('t, 'm) channel list" where
  "build_file c meta mode =
     (if fgExportFile c = [] then [] else [HFS (SinkFile (fgExportFile c)) meta mode])"

definition build_hec ::
    "('t, 'm) sink_env \<Rightarrow> channel_flags \<Rightarrow> hfs_meta \<Rightarrow> 'm \<Rightarrow> gerror + ('t, 'm) channel list" where
  "build_hec sk c meta mode =
     (if fgHecURL c = [] then Inr []
      else if fgHecTokenFile c = [] then Inl ''-hec-url needs -hec-token-file''
      else case skReadSecretFile sk (fgHecTokenFile c) of
        Inl e \<Rightarrow> Inl (''-hec-token-file: '' @ e)
      | Inr tok \<Rightarrow>
          (case skEndpoint sk (SinkHEC (fgHecURL c) tok (fgHecIndex c) None) of
             Some e \<Rightarrow> Inl (''-hec-url: '' @ e)
           | None \<Rightarrow>
               (if fgHecCAFile c = []
                then Inr [HFS (SinkHEC (fgHecURL c) tok (fgHecIndex c) None) meta mode]
                else case skTLSConfig sk (fgHecCAFile c) [] of
                  Inl e \<Rightarrow> Inl (''-hec-ca-file: '' @ e)
                | Inr tc \<Rightarrow> Inr [HFS (SinkHEC (fgHecURL c) tok (fgHecIndex c) (Some tc)) meta mode])))"

definition build ::
    "('t, 'm) sink_env \<Rightarrow> channel_flags \<Rightarrow> hfs_meta \<Rightarrow> gerror + ('t, 'm) channel list" where
  "build sk c meta =
     (case skParseEvidenceMode sk (fgEvidence c) of (mode, ok) \<Rightarrow>
        if \<not> ok then Inl (''-export-evidence '' @ go_quote (skPrint sk) (fgEvidence c) @ '': want redacted or none'')
        else case build_webhook sk c meta mode of
          Inl e \<Rightarrow> Inl e
        | Inr hooks \<Rightarrow>
            (case build_syslog sk c meta mode of
               Inl e \<Rightarrow> Inl e
             | Inr logs \<Rightarrow>
                 (case build_hec sk c meta mode of
                    Inl e \<Rightarrow> Inl e
                  | Inr hecs \<Rightarrow> Inr (hooks @ logs @ build_file c meta mode @ hecs))))"

definition evidenceMode :: "('t, 'm) sink_env \<Rightarrow> channel_flags \<Rightarrow> 'm" where
  "evidenceMode sk c = fst (skParseEvidenceMode sk (fgEvidence c))"

fun channel_name :: "('t, 'm) sink_env \<Rightarrow> ('t, 'm) channel \<Rightarrow> string" where
  "channel_name sk (Webhook w) = ''webhook''"
| "channel_name sk (Syslog s) = ''syslog''"
| "channel_name sk (Slack u) = ''slack''"
| "channel_name sk (Telegram t) = ''telegram''"
| "channel_name sk (HFS s m mode) = skName sk s"

subsection \<open>Start-up\<close>

record flags =
  flLicFile :: string
  flChannels :: channel_flags
  flSlackURL :: string
  flTgToken :: string
  flTgChat :: string
  flInterval :: duration
  flAI :: ai_config

text \<open>The gates on the paid flags.\<close>

definition paid_channels :: "activation \<Rightarrow> flags \<Rightarrow> gerror + ('t, 'm) channel list" where
  "paid_channels act fl =
     (if flSlackURL fl \<noteq> [] \<and> \<not> AllowsChannel act ''slack''
      then Inl ''-slack-webhook requires a Pro or Team license''
      else
        let slack = (if flSlackURL fl \<noteq> [] then [Slack (flSlackURL fl)] else [])
        in if flTgToken fl = [] \<and> flTgChat fl = [] then Inr slack
           else if \<not> AllowsChannel act ''telegram'' then Inl ''-telegram-* requires a Pro or Team license''
           else if flTgToken fl = [] \<or> flTgChat fl = []
           then Inl ''telegram needs both -telegram-token and -telegram-chat''
           else Inr (slack @ [Telegram \<lparr>tgBotToken = flTgToken fl, tgChatID = flTgChat fl, tgBaseURL = []\<rparr>]))"

text \<open>The saved targets are replayed through \<open>AddTarget\<close>; one that is not valid any more is skipped.\<close>

definition restore_targets :: "string \<Rightarrow> string list \<Rightarrow> scheduler \<Rightarrow> scheduler" where
  "restore_targets md raws sch = fold (\<lambda>raw sch. snd (snd (AddTarget md raw sch))) raws sch"

text \<open>
  The world at start-up: opening the database, the database that is found, the issuer
  key of the build after its base64 decoding (empty if there is none), the content of the license
  file, the host's name, and what \<open>NewAIAssist\<close> calls.
\<close>

record boot_env =
  beOpen :: "gerror option"
  beDatabase :: sq_db
  bePub :: string
  beFile :: "string option"
  beHost :: string
  beParse :: "string \<Rightarrow> (string \<times> string) option"
  beReadFile :: "string \<Rightarrow> gerror + string"

datatype 'a started = Exit int string | Up 'a

record ('t, 'm) system =
  sysServer :: "sq_db server"
  sysChannels :: "('t, 'm) channel list"
  sysDispatcher :: "dispatcher option"
  sysEvidence :: 'm

definition zero_sconfig :: "duration \<Rightarrow> sconfig" where
  "zero_sconfig interval =
     \<lparr>Workers = 0, ScanTimeout = 0, JitterFraction = 0, RetryBase = 0, RetryMax = 0,
      IntervalOverride = interval\<rparr>"

definition zero_dconfig :: dconfig where
  "zero_dconfig = \<lparr>FlushInterval = 0, MaxBatch = 0, MinSeverity = [], Retries = 0, RetryDelay = 0\<rparr>"

text \<open>The identity the exports carry.\<close>

definition export_meta :: "boot_env \<Rightarrow> hfs_meta" where
  "export_meta be = \<lparr>hmProduct = moduleID, hmVersion = miVersion certlight_info, hmHost = beHost be\<rparr>"

text \<open>\<open>main\<close> from the point where the server is there: AI Assist, the channels, the gates, the loops.\<close>

definition wire ::
    "('t, 'm) sink_env \<Rightarrow> boot_env \<Rightarrow> flags \<Rightarrow> scheduler \<Rightarrow> sq_db server \<Rightarrow> ('t, 'm) system started" where
  "wire sk be fl sch server =
     (case NewAIAssist (beParse be) (skPrint sk) (beReadFile be) (flAI fl) of
        Inl e \<Rightarrow> Exit 2 e
      | Inr assist \<Rightarrow> (case build sk (flChannels fl) (export_meta be) of
        Inl e \<Rightarrow> Exit 2 e
      | Inr free \<Rightarrow> (case paid_channels (svActivation server) fl of
        Inl e \<Rightarrow> Exit 1 e
      | Inr paid \<Rightarrow>
          (let channels = free @ paid
           in if flInterval fl > 0 \<and> \<not> CustomInterval (aLimits (svActivation server))
              then Exit 1 ''-interval requires a Pro or Team license''
              else case Start sch of
                (Some e, _, _) \<Rightarrow> Exit 1 e
              | (None, loops, sch) \<Rightarrow>
                  Up \<lparr>sysServer = server\<lparr>svExportMeta := export_meta be, svAI := assist,
                        svTargets := Some sq_target_ops, svScheduler := sch\<rparr>,
                      sysChannels = channels,
                      sysDispatcher =
                        (if channels = [] then None
                         else Some (NewDispatcher zero_dconfig (map (channel_name sk) channels))),
                      sysEvidence = evidenceMode sk (flChannels fl)\<rparr>))))"

text \<open>
  \<open>main\<close> up to the point where the loops and the HTTP server run: the exit code and message, or the
  running system.
\<close>

definition boot ::
    "('t, 'm) sink_env \<Rightarrow> web_env \<Rightarrow> boot_env \<Rightarrow> gtime \<Rightarrow> flags
     \<Rightarrow> ('t, 'm) system started" where
  "boot sk env be now fl =
     (case beOpen be of
        Some e \<Rightarrow> Exit 1 (''open database: '' @ e)
      | None \<Rightarrow> (case NewSQLiteStore (beDatabase be) of
        Inl e \<Rightarrow> Exit 1 e
      | Inr db \<Rightarrow> (case Register certlight_collector (NewScheduler (zero_sconfig (flInterval fl))) of
        (Some e, sch) \<Rightarrow> Exit 1 e
      | (None, sch) \<Rightarrow> (case sq_ListSavedTargets moduleID db of
        (Inl e, db) \<Rightarrow> Exit 1 (''load saved targets: '' @ e)
      | (Inr raws, db) \<Rightarrow>
          (let sch = restore_targets moduleID raws sch
           in case NewServer env now certlight_info sq_ops db sch (bePub be) (flLicFile fl) (beFile be) of
                Panic e \<Rightarrow> Exit 2 e
              | Done server \<Rightarrow> wire sk be fl sch server)))))"

end
