(* ===== verification/Web_Properties.thy ===== *)
theory Web_Properties
  imports Web_Server Certlight_Collector Store_Properties
begin

text \<open>
  What the dashboard of \<open>Web_Server\<close> guarantees over every sequence of requests: the tier's limit on
  targets, the license file that brings the activation back after a restart, which requests can
  change findings and how, and when the AI endpoint and its key are used. The lemmas on findings are
  proved once for any store that satisfies \<open>app_store\<close> and used at the database.
\<close>

subsection \<open>Targets and the tier limit\<close>

definition target_count :: "'s server \<Rightarrow> nat" where
  "target_count s = length (ListTargets (miID (svModule s)) (svScheduler s))"

text \<open>What no request changes.\<close>

definition same_setup :: "'s server \<Rightarrow> 's server \<Rightarrow> bool" where
  "same_setup s s' \<longleftrightarrow> svModule s' = svModule s \<and> svExportMeta s' = svExportMeta s \<and> svOps s' = svOps s \<and>
     svTargets s' = svTargets s \<and> svIssuerPub s' = svIssuerPub s \<and> svLicenseFile s' = svLicenseFile s \<and>
     svAI s' = svAI s"

lemmas handler_defs = handleSummary_def handleFindings_def handleFindingsExport_def
  handleFindingStatus_def set_finding_status_def handleListTargets_def handleAddTarget_def handleRemoveTarget_def
  handleScanNow_def handleGetLicense_def handleSetLicense_def handleAIStatus_def

lemma explain_server: "\<exists>st. snd (snd (handleExplainFinding env req s)) = s\<lparr>svStore := st\<rparr>"
proof -
  have id: "s = s\<lparr>svStore := svStore s\<rparr>" by simp
  show ?thesis
    unfolding handleExplainFinding_def Let_def
    by (auto split: option.split sum.split prod.split intro: exI [of _ "svStore s"])
qed

lemma serve_setup: "same_setup s (snd (snd (serve env now req s)))"
proof (cases req)
  case (PostExplain x)
  then show ?thesis using explain_server [of env x s] by (auto simp: same_setup_def)
qed (auto simp: same_setup_def quiet_def handler_defs Let_def
      split: option.split sum.split prod.split outcome.split list.split)

text \<open>Only three requests change more than the store.\<close>

lemma serve_scheduler:
  "svScheduler (snd (snd (serve env now req s))) =
    (case req of
       PostTarget body \<Rightarrow>
         (case decode_field ''target'' body of
            None \<Rightarrow> svScheduler s
          | Some raw \<Rightarrow>
              (if CanAddTarget (svActivation s) (int (target_count s))
               then snd (snd (AddTarget (miID (svModule s)) raw (svScheduler s))) else svScheduler s))
     | DeleteTarget c \<Rightarrow>
         (if c = [] then svScheduler s else RemoveTarget (miID (svModule s)) c (svScheduler s))
     | _ \<Rightarrow> svScheduler s)"
proof (cases req)
  case (PostExplain x)
  then show ?thesis using explain_server [of env x s] by auto
next
  case (PostTarget x)
  then show ?thesis
    by (auto simp: quiet_def handleAddTarget_def target_count_def Let_def split: option.split sum.split prod.split)
qed (auto simp: quiet_def handler_defs Let_def
      split: option.split sum.split prod.split outcome.split list.split)

lemma length_update_le: "length (AList.update k v xs) \<le> Suc (length xs)"
  by (induction xs) auto

lemma length_delete_le: "length (AList.delete k xs) \<le> length xs"
  by (simp add: AList.delete_eq)

lemma count_AddTarget:
  "length (ListTargets m (snd (snd (AddTarget m raw sch)))) \<le> Suc (length (ListTargets m sch))"
  using length_update_le
  by (auto simp: AddTarget_def ListTargets_def snapshotTargets_def Let_def update_conv' split: option.split sum.split)

lemma count_RemoveTarget: "length (ListTargets m (RemoveTarget m c sch)) \<le> length (ListTargets m sch)"
  using length_delete_le
  by (auto simp: RemoveTarget_def ListTargets_def snapshotTargets_def Let_def update_conv' split: option.split)

lemma serve_activation:
  "(\<forall>k. req \<noteq> PostLicense k) \<Longrightarrow> svActivation (snd (snd (serve env now req s))) = svActivation s"
proof (cases req)
  case (PostExplain x)
  then show ?thesis using explain_server [of env x s] by auto
qed (auto simp: quiet_def handler_defs Let_def
      split: option.split sum.split prod.split outcome.split list.split)

lemma serve_count:
  "target_count (snd (snd (serve env now req s))) \<le> target_count s \<or>
   CanAddTarget (svActivation s) (int (target_count s)) \<and>
   target_count (snd (snd (serve env now req s))) \<le> Suc (target_count s)"
proof -
  have m: "svModule (snd (snd (serve env now req s))) = svModule s"
    using serve_setup [of s env now req] by (simp add: same_setup_def)
  show ?thesis
    unfolding target_count_def [of "snd (snd _)"] m serve_scheduler
    using count_AddTarget [of "miID (svModule s)" _ "svScheduler s"]
      count_RemoveTarget [of "miID (svModule s)" _ "svScheduler s"]
    by (auto simp: target_count_def split: request.split option.split)
qed

lemma serve_all_setup: "same_setup s (serve_all env reqs s)"
proof (induction reqs arbitrary: s)
  case (Cons r reqs)
  obtain now req where r: "r = (now, req)" by fastforce
  show ?case
    using Cons.IH [of "snd (snd (serve env now req s))"] serve_setup [of s env now req]
    by (simp add: r same_setup_def)
qed (simp add: same_setup_def)

lemma targets_bounded:
  assumes "\<forall>(t, req) \<in> set reqs. \<forall>k. req \<noteq> PostLicense k"
    and "MaxTargets (aLimits (svActivation s)) \<noteq> 0" "int (target_count s) \<le> MaxTargets (aLimits (svActivation s))"
  shows "int (target_count (serve_all env reqs s)) \<le> MaxTargets (aLimits (svActivation s)) \<and>
    svActivation (serve_all env reqs s) = svActivation s"
  using assms
proof (induction reqs arbitrary: s)
  case (Cons r reqs)
  obtain now req where r: "r = (now, req)" by fastforce
  let ?s = "snd (snd (serve env now req s))"
  have act: "svActivation ?s = svActivation s" using Cons.prems(1) r by (intro serve_activation) simp
  have "int (target_count ?s) \<le> MaxTargets (aLimits (svActivation s))"
    using serve_count [of env now req s] Cons.prems(2,3) by (auto simp: CanAddTarget_def)
  then show ?case using Cons.IH [of ?s] Cons.prems(1,2) act by (simp add: r)
qed simp

text \<open>
  C17: while the license stays as it is, no sequence of requests takes the number of monitored
  targets over the limit of the tier.
\<close>

theorem targets_within_limit:
  assumes "\<forall>(t, req) \<in> set reqs. \<forall>k. req \<noteq> PostLicense k"
    and "MaxTargets (aLimits (svActivation s)) \<noteq> 0" "int (target_count s) \<le> MaxTargets (aLimits (svActivation s))"
  shows "int (target_count (serve_all env reqs s)) \<le> MaxTargets (aLimits (svActivation s))"
  using targets_bounded [OF assms] by blast

text \<open>The body that the dashboard's page sends: an object of strings.\<close>

definition string_object :: "(string \<times> string) list \<Rightarrow> string" where
  "string_object kvs = the (json_marshal (GMap (map (apsnd GStr) kvs)))"

lemma string_object_read:
  assumes "distinct (map fst kvs)"
  shows "json_read (string_object kvs) =
    Some (JObj (map (map_prod repair (\<lambda>s. JStr (repair s) (escape s))) (sort_key fst kvs)), [])"
proof -
  let ?v = "GMap (map (apsnd GStr) kvs)"
  have s: "sort_key fst (map (apsnd f) kvs) = map (apsnd f) (sort_key fst kvs)" for f :: "string \<Rightarrow> 'a"
    using sort_map_snd [of f kvs] by (simp add: apsnd_def map_prod_def case_prod_unfold)
  have "all_some (map (\<lambda>(k, e). map_option (\<lambda>t. quote k @ '':'' @ t) e)
      (map (\<lambda>p. (fst p, Some (quote (snd p)))) xs)) \<noteq> None" for xs :: "(string \<times> string) list"
    by (induction xs) auto
  then have "json_marshal ?v = Some (string_object kvs)"
    using s [of "\<lambda>x. Some (quote x)"]
    by (auto simp: string_object_def encode_object_def comp_def map_prod_def case_prod_unfold apsnd_def)
  moreover have "go_value ?v" "shallow max_nesting ?v"
    using assms by (auto simp: max_nesting_def comp_def)
  ultimately have "json_read (string_object kvs) = Some (json_of ?v, [])" by (rule json_read_marshal)
  moreover have "json_of ?v = JObj (map (map_prod repair (\<lambda>s. JStr (repair s) (escape s))) (sort_key fst kvs))"
    using s [of "\<lambda>x. JStr (repair x) (escape x)"]
    by (simp add: comp_def map_prod_def case_prod_unfold apsnd_def)
  ultimately show ?thesis by simp
qed

lemma decode_field_object: "repair name = name \<Longrightarrow> decode_field name (string_object [(name, v)]) = Some (repair v)"
  by (simp add: decode_field_def decode_body_def string_object_read decode_struct_def field_of_def decode_string_def)

lemma decode_status_object:
  "decode_status (string_object [(''fingerprint'', fp), (''status'', st)]) = Some (repair fp, repair st)"
  by (simp add: decode_status_def decode_body_def string_object_read decode_struct_def field_of_def
      decode_string_def put_status_def repair_ascii byte_def)

definition sample_scheduler :: scheduler where
  "sample_scheduler = snd (Register certlight_collector (NewScheduler default_cfg))"

definition sample_web :: "web_env" where
  "sample_web =
     \<lparr>weEd = (\<lambda>_ _ _. False),
      weWriteFile = (\<lambda>_ d _. (None, Some d)), weSnapshot = (\<lambda>_ _ _. None), weNewID = (\<lambda>_ now g. (Inr ''id'', Suc g)),
      weScan = (\<lambda>now _. \<lparr>siSlot = None, siCollected = Inr [], siReconciled = now, siFinished = now\<rparr>),
      weOrder = (\<lambda>ts. ts),
      weContextErr = None, wePrint = sample_print, weNet = sample_ai_once\<rparr>"

definition sample_server :: "sq_db server" where
  "sample_server =
     \<lparr>svModule = certlight_info, svExportMeta = \<lparr>hmProduct = [], hmVersion = [], hmHost = []\<rparr>,
      svOps = sq_ops, svStore = \<lparr>dbFindings = [], dbTargets = [], dbFaults = []\<rparr>,
      svScheduler = sample_scheduler, svTargets = Some sq_target_ops, svIssuerPub = [],
      svLicenseFile = ''license.key'', svFile = None, svActivation = free_activation [], svReported = [], svLaunched = [], svAI = None\<rparr>"

theorem targets_within_limit_witness:
  "int (target_count (serve_all sample_web (map (\<lambda>h. (0, PostTarget (string_object [(''target'', [h])]))) ''abcdefghijkl'') sample_server)) \<le> 10"
proof -
  have free: "svActivation sample_server = free_activation []" by (simp add: sample_server_def)
  have none: "target_count sample_server = 0"
    by (simp add: target_count_def sample_server_def sample_scheduler_def ListTargets_def Register_def
        NewScheduler_def snapshotTargets_def certlight_collector_def certlight_info_def Let_def moduleID_def)
  have "MaxTargets (aLimits (free_activation [])) = 10" by (simp add: free_activation_def FreeLimits_def)
  then show ?thesis
    using targets_within_limit [of "map (\<lambda>h. (0, PostTarget (string_object [(''target'', [h])]))) ''abcdefghijkl''" sample_server sample_web]
      none free by simp
qed

subsection \<open>The license file\<close>

text \<open>The replies to a sequence of requests.\<close>

fun replies :: "web_env \<Rightarrow> (gtime \<times> request) list \<Rightarrow> 's server \<Rightarrow> reply list" where
  "replies env [] s = []"
| "replies env ((now, req) # reqs) s =
     fst (serve env now req s) # replies env reqs (snd (snd (serve env now req s)))"

abbreviation not_persisted :: reply where
  "not_persisted \<equiv> httpError 500 ''could not persist license key''"

text \<open>The license file held the activation in force at some time that is not behind \<open>t\<close>.\<close>

definition backed :: "web_env \<Rightarrow> gtime \<Rightarrow> 's server \<Rightarrow> bool" where
  "backed env t s \<longleftrightarrow> (\<exists>u \<le> t. Activate (weEd env) (svIssuerPub s) (miID (svModule s))
     (case svFile s of None \<Rightarrow> [] | Some b \<Rightarrow> trim_space b) u = Done (svActivation s))"

lemma serve_license:
  "svFile (snd (snd (serve env now req s))) = svFile s \<and> svActivation (snd (snd (serve env now req s))) = svActivation s"
  if "\<forall>k. req \<noteq> PostLicense k"
proof (cases req)
  case (PostExplain x)
  then show ?thesis using explain_server [of env x s] by auto
qed (use that in \<open>auto simp: quiet_def handler_defs Let_def
      split: option.split sum.split prod.split outcome.split list.split\<close>)

lemma serve_backed:
  assumes "\<forall>p d old file. weWriteFile env p d old = (None, file) \<longrightarrow> file = Some d"
    and "svLicenseFile s \<noteq> []" "backed env t s" "now \<le> t" "fst (serve env now req s) \<noteq> not_persisted"
  shows "backed env t (snd (snd (serve env now req s)))"
proof (cases "\<exists>k. req = PostLicense k")
  case False
  then show ?thesis
    using assms(3) serve_license [of req env now s] serve_setup [of s env now req]
    by (simp add: backed_def same_setup_def)
next
  case True
  then obtain k where req: "req = PostLicense k" by blast
  show ?thesis
  proof (cases "decode_field ''key'' k")
    case (Some key)
    show ?thesis
    proof (cases "Activate (weEd env) (svIssuerPub s) (miID (svModule s)) (trim_space key) now")
      case (Done act)
      obtain e left where w: "weWriteFile env (svLicenseFile s) (trim_space key @ [newline]) (svFile s) = (e, left)"
        by fastforce
      show ?thesis
      proof (cases "aTier act = TierFree \<and> trim_space key \<noteq> []")
        case True
        with assms(3) Done show ?thesis by (simp add: req Some quiet_def handleSetLicense_def Let_def)
      next
        case False
        then have "e = None"
          using assms(2,5) Done w
          by (cases e) (auto simp: req Some quiet_def handleSetLicense_def Let_def)
        moreover from this have "left = Some (trim_space key @ [newline])" using assms(1) w by simp
        ultimately show ?thesis
          using False assms(2,4) Done w
          by (auto simp: req Some quiet_def handleSetLicense_def Let_def backed_def trim_space_newline)
      qed
    qed (use assms in \<open>simp add: req Some quiet_def handleSetLicense_def Let_def\<close>)
  next
    case None
    with assms show ?thesis by (simp add: req quiet_def handleSetLicense_def)
  qed
qed

lemma serve_all_backed:
  assumes "\<forall>p d old file. weWriteFile env p d old = (None, file) \<longrightarrow> file = Some d"
    and "svLicenseFile s \<noteq> []" "backed env t s" "\<forall>(u, req) \<in> set reqs. u \<le> t"
    and "not_persisted \<notin> set (replies env reqs s)"
  shows "backed env t (serve_all env reqs s)"
  using assms(2-)
proof (induction reqs arbitrary: s)
  case (Cons r reqs)
  obtain now req where r: "r = (now, req)" by fastforce
  have "backed env t (snd (snd (serve env now req s)))"
    using Cons.prems by (intro serve_backed [OF assms(1)]) (auto simp: r)
  then show ?case
    using Cons.IH [of "snd (snd (serve env now req s))"] Cons.prems serve_setup [of s env now req]
    by (simp add: r same_setup_def)
qed simp

text \<open>
  C15: on a disk where a write that reports no error has written its data, and as long as no request
  was answered with the error that the key could not be persisted, the license file holds the key of
  the activation in force: after any sequence of requests, a server that is started on the file at
  any later time has the same activation, or the free one with the notice of the expiry when the
  license has expired by then. A rejected key is never written. (A failed write may leave anything in
  the file, while the activation in force stays.)
\<close>

theorem restart_restores_activation:
  assumes "NewServer env t0 md ops st sch pub path file = Done s0" "path \<noteq> []"
    and "s = s0\<lparr>svTargets := ts, svExportMeta := meta, svAI := ai\<rparr>"
    and "\<forall>p d old new. weWriteFile env p d old = (None, new) \<longrightarrow> new = Some d"
    and "not_persisted \<notin> set (replies env reqs s)" "t0 \<le> t" "\<forall>(u, req) \<in> set reqs. u \<le> t"
  shows "\<exists>s'. NewServer env t md ops' st' sch' pub path (svFile (serve_all env reqs s)) = Done s' \<and>
    svActivation s' = activation_at t (svActivation (serve_all env reqs s))"
proof -
  have conf: "svLicenseFile s = path" "svIssuerPub s = pub" "svModule s = md"
    using assms(1,3) by (auto simp: NewServer_def Let_def split: outcome.splits)
  have "backed env t s"
    using assms(1-3,6) by (auto simp: NewServer_def Let_def backed_def split: outcome.splits)
  then have b: "backed env t (serve_all env reqs s)"
    using assms(2,4,5,7) conf by (intro serve_all_backed) simp_all
  have kept: "svIssuerPub (serve_all env reqs s) = pub" "svModule (serve_all env reqs s) = md"
    using serve_all_setup [of s env reqs] conf by (simp_all add: same_setup_def)
  from b obtain u where "u \<le> t" "Activate (weEd env) pub (miID md)
      (case svFile (serve_all env reqs s) of None \<Rightarrow> [] | Some b \<Rightarrow> trim_space b) u =
      Done (svActivation (serve_all env reqs s))"
    unfolding backed_def kept by blast
  from Activate_later [OF this(2,1)] show ?thesis using assms(2) by (simp add: NewServer_def)
qed

definition paid_web :: "web_env" where
  "paid_web = sample_web\<lparr>weEd := toy_verify\<rparr>"

definition unpaid_server :: "sq_db server" where
  "unpaid_server = sample_server\<lparr>svIssuerPub := toy_pub, svTargets := None\<rparr>"

lemma toy_key_trimmed: "trim_space toy_key = toy_key"
proof (rule trim_space_id)
  show "printable (hd toy_key)" by (simp add: toy_key_def key_prefix_def printable_def byte_def)
  have "b64_encode m \<noteq> []" if "m \<noteq> []" for m
    using that by (cases m rule: b64_encode.cases) simp_all
  then have "b64_encode (rev toy_payload) \<noteq> []" using toy_decodes(2) by simp
  then have "last toy_key \<in> set (b64_encode (rev toy_payload))" by (simp add: toy_key_def)
  then show "printable (last toy_key)" using b64_encode_chars by blast
qed

lemma toy_key_decodes: "decode_field ''key'' (string_object [(''key'', toy_key)]) = Some toy_key"
proof -
  have "\<forall>c \<in> set toy_key. byte c < 128"
    using b64_encode_chars [of _ toy_payload] b64_encode_chars [of _ "rev toy_payload"]
    by (fastforce simp: toy_key_def key_prefix_def printable_def byte_def)
  then show ?thesis by (simp add: decode_field_object repair_ascii byte_def)
qed

lemma unpaid_boots:
  "NewServer paid_web 0 certlight_info sq_ops (svStore sample_server) sample_scheduler toy_pub
     ''license.key'' None = Done unpaid_server"
  by (simp add: NewServer_def Activate_def toy_pub_def PublicKeySize_def unpaid_server_def sample_server_def)

lemma paid_file:
  defines "reqs \<equiv> [(50, PostLicense (string_object [(''key'', toy_key)]))]"
  shows "svFile (serve_all paid_web reqs (unpaid_server\<lparr>svTargets := ts, svExportMeta := meta, svAI := ai\<rparr>)) =
      Some (toy_key @ [newline])"
    and "svActivation (serve_all paid_web reqs (unpaid_server\<lparr>svTargets := ts, svExportMeta := meta, svAI := ai\<rparr>)) =
      paid_activation demo_license"
    and "not_persisted \<notin> set (replies paid_web reqs (unpaid_server\<lparr>svTargets := ts, svExportMeta := meta, svAI := ai\<rparr>))"
proof -
  have "Activate toy_verify toy_pub (miID certlight_info) toy_key 50 = Done (paid_activation demo_license)"
    using toy_Activate by (simp add: certlight_info_def moduleID_def paid_activation_def demo_license_def)
  moreover have "aTier (paid_activation demo_license) \<noteq> TierFree"
    by (simp add: paid_activation_def demo_license_def go_consts)
  ultimately show "svFile (serve_all paid_web reqs (unpaid_server\<lparr>svTargets := ts, svExportMeta := meta, svAI := ai\<rparr>)) =
      Some (toy_key @ [newline])"
    "svActivation (serve_all paid_web reqs (unpaid_server\<lparr>svTargets := ts, svExportMeta := meta, svAI := ai\<rparr>)) =
      paid_activation demo_license"
    "not_persisted \<notin> set (replies paid_web reqs (unpaid_server\<lparr>svTargets := ts, svExportMeta := meta, svAI := ai\<rparr>))"
    by (simp_all add: reqs_def quiet_def handleSetLicense_def toy_key_decodes toy_key_trimmed paid_web_def sample_web_def
      unpaid_server_def sample_server_def writeJSON_def httpError_def)
qed

text \<open>The restored activation while the license lasts, and after it has expired.\<close>

theorem restart_restores_activation_witness:
  "\<exists>s1 s2. NewServer paid_web 60 certlight_info sq_ops (svStore sample_server) sample_scheduler
      toy_pub ''license.key'' (Some (toy_key @ [newline])) = Done s1 \<and> aTier (svActivation s1) = TierPro \<and>
    NewServer paid_web (fst (lExpiresAt demo_license) + 1) certlight_info sq_ops (svStore sample_server) sample_scheduler
      toy_pub ''license.key'' (Some (toy_key @ [newline])) = Done s2 \<and> aTier (svActivation s2) = TierFree"
proof -
  have disk: "''license.key'' \<noteq> []" "\<forall>p d old new. weWriteFile paid_web p d old = (None, new) \<longrightarrow> new = Some d"
    by (simp_all add: paid_web_def sample_web_def)
  have exp: "60 \<le> fst (lExpiresAt demo_license)" "lTier demo_license = TierPro"
    by (simp_all add: demo_license_def)
  have restart: "\<exists>s'. NewServer paid_web t certlight_info sq_ops (svStore sample_server) sample_scheduler
      toy_pub ''license.key'' (Some (toy_key @ [newline])) = Done s' \<and>
      svActivation s' = activation_at t (paid_activation demo_license)" if t: "50 \<le> t" for t
  proof -
    have "0 \<le> t" "\<forall>(u, req) \<in> set [(50, PostLicense (string_object [(''key'', toy_key)]))]. u \<le> t"
      using t by simp_all
    from restart_restores_activation [OF unpaid_boots disk(1) refl disk(2) paid_file(3) this]
    show ?thesis unfolding paid_file(1,2) .
  qed
  from exp(1) have "50 \<le> fst (lExpiresAt demo_license) + 1" by simp
  from restart [OF this] restart [of 60] exp show ?thesis
    by (auto simp: activation_at_def paid_activation_def free_activation_def)
qed

subsection \<open>Findings\<close>

lemma serve_reports_nothing:
  assumes "req \<noteq> PostScan"
  shows "svReported (snd (snd (serve env now req s))) = svReported s"
proof (cases req)
  case (PostExplain x)
  then show ?thesis using explain_server [of env x s] by auto
qed (use assms in \<open>auto simp: quiet_def handler_defs Let_def
      split: option.split sum.split prod.split outcome.split list.split\<close>)

lemma explain_store:
  "decode_field ''fingerprint'' (take 4096 body) = Some fp \<Longrightarrow>
    svStore (snd (snd (handleExplainFinding env body s))) =
      (if trim_space fp = [] then svStore s
       else snd (sGet (svOps s) (miID (svModule s)) fp (svStore s)))"
  "decode_field ''fingerprint'' (take 4096 body) = None \<Longrightarrow>
    svStore (snd (snd (handleExplainFinding env body s))) = svStore s"
  unfolding handleExplainFinding_def Let_def
  by (auto split: option.split sum.split prod.split)

context app_store
begin

text \<open>A server on this store.\<close>

lemma serve_reads:
  assumes inv: "invar (svStore s)" and srv: "svOps s = ops" "svTargets s = None \<or> svTargets s = Some tops"
    and m: "module_ok (miID (svModule s))"
    and req: "\<forall>b. req \<noteq> PostStatus b" "req \<noteq> PostScan"
  shows "invar (svStore (snd (snd (serve env now req s)))) \<and>
    view (svStore (snd (snd (serve env now req s)))) = view (svStore s)"
proof (cases req)
  case GetSummary
  then show ?thesis
    using open_ok [OF inv] by (auto simp: quiet_def handleSummary_def srv Let_def split: prod.split sum.split)
next
  case GetFindings
  then show ?thesis
    using all_ok [OF inv] by (auto simp: quiet_def handleFindings_def srv Let_def split: prod.split sum.split)
next
  case (ExportFindings f)
  then show ?thesis
    using all_ok [OF inv] inv
    by (auto simp: quiet_def handleFindingsExport_def srv Let_def split: prod.split sum.split)
next
  case (PostTarget r)
  then show ?thesis
    using save_records inv srv
    by (fastforce simp: quiet_def handleAddTarget_def Let_def split: prod.split sum.split option.split)
next
  case (DeleteTarget c)
  then show ?thesis
    using delete_records inv srv
    by (fastforce simp: quiet_def handleRemoveTarget_def Let_def split: prod.split outcome.split)
next
  case (PostExplain r)
  show ?thesis
  proof (cases "decode_field ''fingerprint'' (take 4096 r)")
    case (Some fp)
    obtain res st where "sGet ops (miID (svModule s)) fp (svStore s) = (res, st)" by fastforce
    then show ?thesis
      using get_ok [OF inv m, of fp res st] inv PostExplain by (simp add: explain_store(1) [OF Some] srv)
  next
    case None
    with inv PostExplain show ?thesis by (simp add: explain_store)
  qed
qed (use inv req in \<open>auto simp: quiet_def handler_defs Let_def split: option.split prod.split outcome.split\<close>)

text \<open>A status change replaces the status of one record and nothing else.\<close>

lemma status_change:
  assumes inv: "invar (svStore s)" and srv: "svOps s = ops" and m: "module_ok (miID (svModule s))"
    and h: "set_finding_status fp next s = (rep, s')"
  shows "invar (svStore s') \<and> s' = s\<lparr>svStore := svStore s'\<rparr> \<and>
    (if rep = writeJSON OkBody
     then next \<in> {StatusAcknowledged, StatusSuppressed, StatusOpen} \<and>
       (\<exists>r. view (svStore s) (miID (svModule s), fp) = Some r \<and>
          view (svStore s') = (view (svStore s))((miID (svModule s), fp) \<mapsto> r\<lparr>fStatus := next\<rparr>))
     else view (svStore s') = view (svStore s))"
proof (cases "next \<in> {StatusAcknowledged, StatusSuppressed, StatusOpen}")
  case ok: True
  obtain res st where get: "sGet ops (miID (svModule s)) fp (svStore s) = (res, st)" by fastforce
  note g = get_ok [OF inv m get]
  show ?thesis
  proof (cases "\<exists>r. res = Inr (Some r)")
    case False
    then have "rep \<noteq> writeJSON OkBody \<and> s' = s\<lparr>svStore := st\<rparr>"
      using h ok get srv
      by (auto simp: set_finding_status_def httpError_def writeJSON_def split: sum.splits option.splits)
    then show ?thesis using g by simp
  next
    case True
    then obtain r where r: "res = Inr (Some r)" by blast
    then have vr: "view (svStore s) (miID (svModule s), fp) = Some r" using g by simp
    then have key: "rkey (r\<lparr>fStatus := next\<rparr>) = (miID (svModule s), fp)" "fModule (r\<lparr>fStatus := next\<rparr>) = miID (svModule s)"
      using view_key [OF inv] by (auto simp: rkey_def)
    then have kept: "identity_kept (view st) (r\<lparr>fStatus := next\<rparr>)"
      using g vr by (simp add: identity_kept_def same_identity_def)
    obtain err st' where up: "sUpsert ops (r\<lparr>fStatus := next\<rparr>) st = (err, st')" by fastforce
    have hh: "rep = (case err of None \<Rightarrow> writeJSON OkBody | Some e \<Rightarrow> httpError 500 ''store error'') \<and>
        s' = s\<lparr>svStore := st'\<rparr>"
      using h ok get srv r up by (auto simp: set_finding_status_def split: option.splits)
    have inv': "invar st'" using upsert_invar [OF _ _ up] g m key by simp
    show ?thesis
    proof (cases err)
      case None
      then have "view st' = (view st)(rkey (r\<lparr>fStatus := next\<rparr>) \<mapsto> canon (r\<lparr>fStatus := next\<rparr>))"
        using upsert_ok [OF _ _ kept] up g m key by simp
      moreover have "canon (r\<lparr>fStatus := next\<rparr>) = r\<lparr>fStatus := next\<rparr>"
        using canon_kept [OF inv vr, of "r\<lparr>fStatus := next\<rparr>"] by simp
      ultimately have "view st' = (view st)(rkey (r\<lparr>fStatus := next\<rparr>) \<mapsto> r\<lparr>fStatus := next\<rparr>)" by simp
      then show ?thesis using hh None inv' ok vr key g by simp
    next
      case (Some e)
      then have "view st' = view st" using upsert_fails up g by blast
      then show ?thesis using hh Some inv' g by (simp add: httpError_def writeJSON_def)
    qed
  qed
next
  case False
  then have "rep \<noteq> writeJSON OkBody \<and> s' = s"
    using h by (auto simp: set_finding_status_def httpError_def writeJSON_def)
  then show ?thesis using inv by simp
qed

end

text \<open>The first scans that a request starts: that of the target it adds, if the scheduler runs.\<close>

definition first_scans :: "'s server \<Rightarrow> request \<Rightarrow> target list" where
  "first_scans s req =
     (case req of
        PostTarget body \<Rightarrow>
          (case decode_field ''target'' body of
             None \<Rightarrow> []
           | Some raw \<Rightarrow>
               (if \<not> CanAddTarget (svActivation s) (int (target_count s)) then []
                else case AddTarget (miID (svModule s)) raw (svScheduler s) of
                       (Inr t, True, _) \<Rightarrow> [t]
                     | _ \<Rightarrow> []))
      | _ \<Rightarrow> [])"

lemma serve_launched: "svLaunched (snd (snd (serve env now req s))) = svLaunched s @ first_scans s req"
proof (cases req)
  case (PostExplain x)
  then show ?thesis using explain_server [of env x s] by (auto simp: first_scans_def)
next
  case (PostTarget x)
  then show ?thesis
    by (auto simp: quiet_def handleAddTarget_def target_count_def first_scans_def Let_def
        split: option.split sum.split prod.split bool.split)
qed (auto simp: first_scans_def quiet_def handler_defs Let_def
      split: option.split sum.split prod.split outcome.split list.split)

text \<open>
  C38: of all requests only a status change and a scan on demand can change findings before they are
  answered: every other request, an explanation by the model among them, leaves every stored record
  as it is and reports nothing, whatever the outside world answers. What such a request leaves behind
  that can change findings later is exact, too: an added target whose limit, validation and running
  scheduler allow it has its first scan started, on its own (also when the target could not be
  saved); no other request starts a scan.
\<close>

theorem requests_leave_findings:
  assumes "svOps s = sq_ops" "svTargets s = None \<or> svTargets s = Some sq_target_ops"
    and "sq_invar (svStore s)" and "\<forall>b. req \<noteq> PostStatus b" "req \<noteq> PostScan"
    and "serve env now req s = (rep, out, s')"
  shows "sq_view (svStore s') = sq_view (svStore s) \<and> sq_invar (svStore s') \<and>
    svReported s' = svReported s \<and> svLaunched s' = svLaunched s @ first_scans s req"
proof -
  have s': "s' = snd (snd (serve env now req s))" using assms(6) by simp
  show ?thesis
    unfolding s' using sqapp.serve_reads [of s req env now] assms(1-5)
    by (simp add: serve_reports_nothing serve_launched)
qed

lemma plain_target:
  "certlight_ValidateTarget ''a'' =
     Inr \<lparr>tRaw = ''a'', tCanonical = ''a:443'', tMeta = [(''host'', ''a''), (''port'', ''443'')]\<rparr>"
proof -
  have "trim_space ''a'' = ''a''" by (intro trim_space_id) (simp_all add: printable_def byte_def)
  moreover have "SplitHostPort ''a'' = None" "JoinHostPort ''a'' ''443'' = ''a:443''" by code_simp+
  moreover have "\<not> contains ''a'' ''://''" "\<not> contains ''a'' ''/''" by code_simp+
  ultimately show ?thesis by (simp add: certlight_ValidateTarget_def Let_def)
qed

definition running_server :: "sq_db server" where
  "running_server = sample_server\<lparr>svStore := sample_db, svScheduler := sample_scheduler\<lparr>schStarted := True\<rparr>\<rparr>"

theorem requests_leave_findings_witness:
  "sq_view (svStore (snd (snd (serve sample_web 5 (PostTarget (string_object [(''target'', ''a'')])) running_server))))
     = sq_view sample_db \<and>
   map tCanonical (svLaunched (snd (snd (serve sample_web 5 (PostTarget (string_object [(''target'', ''a'')])) running_server))))
     = [''a:443'']"
proof -
  let ?req = "PostTarget (string_object [(''target'', ''a'')])"
  obtain rep out s' where r: "serve sample_web 5 ?req running_server = (rep, out, s')" by (rule prod_cases3)
  have inv: "sq_invar (svStore running_server)" by code_simp
  have conf: "svOps running_server = sq_ops" "svTargets running_server = None \<or> svTargets running_server = Some sq_target_ops"
    "svStore running_server = sample_db" "svLaunched running_server = []"
    by (simp_all add: running_server_def sample_server_def)
  have "map tCanonical (first_scans running_server ?req) = [''a:443'']"
  proof -
    have m: "map_of (schModules (svScheduler running_server)) (miID (svModule running_server)) =
        Some \<lparr>regCollector = certlight_collector, regInfo = certlight_info, regTargets = []\<rparr>"
      "schStarted (svScheduler running_server)" "\<not> schCancelled (svScheduler running_server)"
      by (simp_all add: running_server_def sample_server_def sample_scheduler_def Register_def NewScheduler_def
          certlight_collector_def certlight_info_def moduleID_def Let_def)
    have "CanAddTarget (svActivation running_server) (int (target_count running_server))"
      using m(1) by (simp add: CanAddTarget_def target_count_def ListTargets_def snapshotTargets_def)
        (simp add: running_server_def sample_server_def free_activation_def FreeLimits_def)
    moreover have "decode_field ''target'' (string_object [(''target'', ''a'')]) = Some ''a''"
      by (simp add: decode_field_object repair_ascii byte_def)
    ultimately show ?thesis
      by (simp add: first_scans_def AddTarget_def m certlight_collector_def plain_target)
  qed
  then show ?thesis using requests_leave_findings [OF conf(1,2) inv _ _ r] r conf by simp
qed

text \<open>
  C39: when a request to change the status of a finding succeeds, the status is one of the three the
  dashboard offers, and exactly that field of exactly that record has changed: a resolution time and
  an absence count stay as they were, on a record that is opened again too. When it does not succeed
  no record has changed.
\<close>

theorem status_change_exact:
  assumes "svOps s = sq_ops" "sq_invar (svStore s)"
    and "handleFindingStatus body s = (rep, s')" "decode_status body = Some (fp, next)"
  shows "s' = s\<lparr>svStore := svStore s'\<rparr> \<and>
    (if rep = writeJSON OkBody
     then next \<in> {StatusAcknowledged, StatusSuppressed, StatusOpen} \<and>
       (\<exists>r. sq_view (svStore s) (miID (svModule s), fp) = Some r \<and>
          sq_view (svStore s') =
            (sq_view (svStore s))((miID (svModule s), fp) \<mapsto> r\<lparr>fStatus := next\<rparr>))
     else sq_view (svStore s') = sq_view (svStore s))"
proof -
  have "set_finding_status fp next s = (rep, s')"
    using assms(3,4) by (simp add: handleFindingStatus_def)
  from sqapp.status_change [OF assms(2,1) TrueI this] show ?thesis by blast
qed

definition ledger :: "sq_db server" where
  "ledger = sample_server\<lparr>svModule := sample_module, svStore := sample_db\<rparr>"

definition reopen :: string where
  "reopen = string_object [(''fingerprint'', ''r''), (''status'', StatusOpen)]"

lemma reopen_decodes: "decode_status reopen = Some (''r'', StatusOpen)"
  by (simp add: reopen_def decode_status_object StatusOpen_def repair_ascii byte_def)

theorem status_change_exact_witness:
  "\<exists>r. sq_view (svStore (snd (handleFindingStatus reopen ledger))) (''ssl'', ''r'')
       = Some r \<and> fStatus r = StatusOpen \<and> fResolvedAt r = Some 30 \<and> rAbsentStreak r = 2"
proof -
  have h: "handleFindingStatus reopen ledger = set_finding_status ''r'' StatusOpen ledger"
    by (simp add: handleFindingStatus_def reopen_decodes)
  have "fst (set_finding_status ''r'' StatusOpen ledger) = writeJSON OkBody" by code_simp
  then have ok: "handleFindingStatus reopen ledger =
      (writeJSON OkBody, snd (handleFindingStatus reopen ledger))"
    unfolding h by (metis prod.collapse)
  have l: "svOps ledger = sq_ops" "sq_invar (svStore ledger)" "miID (svModule ledger) = ''ssl''"
    "svStore ledger = sample_db"
    using sample_invar by (simp_all add: ledger_def sample_server_def sample_module_def)
  have v: "sq_view sample_db (''ssl'', ''r'') = Some (scanRecord (sample_row ''r'' StatusResolved))"
    by (simp add: sq_view_def sample_db_def row_key_def sample_row_def)
  have "\<exists>r. sq_view sample_db (''ssl'', ''r'') = Some r \<and>
      sq_view (svStore (snd (handleFindingStatus reopen ledger))) (''ssl'', ''r'') =
        Some (r\<lparr>fStatus := StatusOpen\<rparr>)"
    using status_change_exact [OF l(1,2) ok reopen_decodes] unfolding l by auto
  then show ?thesis
    by (auto simp: v scanRecord_def sample_row_def)
qed

subsection \<open>The AI endpoint\<close>

lemma trim_slashes_idem [simp]: "trim_slashes (trim_slashes s) = trim_slashes s"
proof -
  have "dropWhile P (dropWhile P xs) = dropWhile P xs" for P and xs :: string
    by (induction xs) auto
  then show ?thesis by (simp add: trim_slashes_def)
qed

lemma option_keeps:
  "acBaseURL (fold apply_option opts c) = acBaseURL c"
  "(\<forall>k. WithAPIKey k \<notin> set opts) \<Longrightarrow> acAPIKey (fold apply_option opts c) = acAPIKey c"
  "(\<forall>n. WithMaxRetries n \<notin> set opts) \<Longrightarrow> acMaxRetries (fold apply_option opts c) = acMaxRetries c"
proof (induction opts arbitrary: c)
  case (Cons opt opts)
  { case 1 show ?case using Cons.IH(1) by (cases opt) simp_all }
  { case 2 then show ?case using Cons.IH(2) by (cases opt) auto }
  { case 3 then show ?case using Cons.IH(3) by (cases opt) auto }
qed simp_all

lemma assist_client:
  assumes "NewAIAssist parse q rf cfg = Inr (Some a)"
  shows "\<exists>c. aaClient a = Some c \<and> acMaxRetries c = 0 \<and> (acAPIKey c \<noteq> [] \<longrightarrow> aaKeyed a) \<and>
    (trim_slashes (trim_space (aiURL cfg)) \<noteq> [] \<longrightarrow> acBaseURL c = trim_slashes (trim_space (aiURL cfg)))"
proof -
  define url where "url = trim_slashes (trim_space (aiURL cfg))"
  define thinking where "thinking = (if aiNoThinking cfg then [WithDisableThinking] else [])"
  define key where "key = (if aiKeyFile cfg = [] then [] else [WithAPIKey (trim_space (projr (rf (aiKeyFile cfg))))])"
  have th: "\<forall>k. WithAPIKey k \<notin> set thinking" "\<forall>n. WithMaxRetries n \<notin> set thinking"
    by (simp_all add: thinking_def)
  have c: "aaClient a = Some (New_client url
      ([WithTimeout (120 * Second), WithMaxRetries 0, WithMaxTokens 300] @ key @ thinking))"
    and keyed: "aaKeyed a \<longleftrightarrow> key \<noteq> []"
    using assms unfolding NewAIAssist_def Let_def url_def [symmetric] thinking_def [symmetric] key_def
    by (auto split: if_splits option.splits sum.splits)
  have k: "acMaxRetries (fold apply_option key c') = acMaxRetries c'"
    "key = [] \<Longrightarrow> acAPIKey (fold apply_option key c') = acAPIKey c'" for c'
    by (simp_all add: key_def)
  show ?thesis
    using c keyed k(2) unfolding url_def [symmetric]
    by (intro exI [of _ "New_client url
        ([WithTimeout (120 * Second), WithMaxRetries 0, WithMaxTokens 300] @ key @ thinking)"])
      (auto simp: New_client_def Let_def option_keeps th k(1) url_def)
qed

lemma explain_sent:
  "handleExplainFinding env r s = (rep, out, s') \<Longrightarrow> out = [] \<or>
     (\<exists>st a c packet res. aiAllowed (s\<lparr>svStore := st\<rparr>) = Inr (a, c) \<and>
        Explain (wePrint env) (weNet env) c packet = (out, res))"
  unfolding handleExplainFinding_def Let_def
  by (auto split: if_splits sum.splits option.splits prod.splits)

text \<open>
  C16: with the endpoint configured at start-up, a request to the dashboard sends at most one request
  to it, and nothing else in the dashboard sends any; and the API key only travels while a Pro or
  Team license is in force.
\<close>

theorem api_key_needs_license:
  assumes "NewAIAssist parse q rf cfg = Inr (svAI s)" and "serve env now req s = (rep, out, s')"
  shows "length out \<le> 1 \<and>
    (\<forall>r \<in> set out. (\<exists>body. req = PostExplain body) \<and>
       (map_of (rqHeader r) ''Authorization'' \<noteq> None \<longrightarrow> aTier (svActivation s) \<in> {TierPro, TierTeam}))"
proof (cases "out = []")
  case False
  then obtain body where req: "req = PostExplain body" and h: "handleExplainFinding env body s = (rep, out, s')"
    using assms(2) by (cases req) (simp_all add: quiet_def)
  then obtain st a c packet res where allowed: "aiAllowed (s\<lparr>svStore := st\<rparr>) = Inr (a, c)"
    and e: "Explain (wePrint env) (weNet env) c packet = (out, res)"
    using explain_sent [OF h] False by blast
  then have out: "out = fst (Explain (wePrint env) (weNet env) c packet)" by simp
  from allowed have a: "svAI s = Some a" "aaClient a = Some c"
    and tier: "aaKeyed a \<longrightarrow> aTier (svActivation s) \<in> {TierPro, TierTeam}"
    by (auto simp: aiAllowed_def Let_def split: option.splits if_splits)
  have key: "acMaxRetries c = 0" "acAPIKey c \<noteq> [] \<longrightarrow> aaKeyed a"
    using assist_client [of parse q rf cfg a] assms(1) a by auto
  from Explain_sends [of "wePrint env" "weNet env" c packet] obtain rq where
    s: "length out \<le> nat (acMaxRetries c + 1)" "set out \<subseteq> {rq}"
    "map_of (rqHeader rq) ''Authorization'' = (if acAPIKey c = [] then None else Some (''Bearer '' @ acAPIKey c))"
    unfolding out by blast
  have "length out \<le> 1" using s(1) key(1) by simp
  moreover have "map_of (rqHeader rq) ''Authorization'' \<noteq> None \<longrightarrow> aTier (svActivation s) \<in> {TierPro, TierTeam}"
    using s(3) key(2) tier by simp
  ultimately show ?thesis using s(2) req by blast
qed simp

definition keyed_config :: ai_config where
  "keyed_config = \<lparr>aiURL = ''http://ai:8435/'', aiKeyFile = ''ai.key'', aiLanguage = ''id'', aiNoThinking = False\<rparr>"

theorem api_key_needs_license_witness:
  "\<exists>a. NewAIAssist (\<lambda>_. Some (''http'', ''ai:8435'')) sample_print (\<lambda>_. Inr ''k'') keyed_config = Inr (Some a) \<and> aaKeyed a \<and>
     length (fst (snd (serve sample_web 5 (PostExplain (string_object [(''fingerprint'', ''o'')])) (ledger\<lparr>svAI := Some a\<rparr>)))) \<le> 1"
proof -
  have t: "trim_space ''http://ai:8435/'' = ''http://ai:8435/''" "trim_space ''k'' = ''k''"
    by (intro trim_space_id; simp add: printable_def byte_def)+
  obtain a where a: "NewAIAssist (\<lambda>_. Some (''http'', ''ai:8435'')) sample_print (\<lambda>_. Inr ''k'') keyed_config = Inr (Some a)"
      "aaKeyed a"
    by (simp add: NewAIAssist_def keyed_config_def t Let_def)
  let ?s = "ledger\<lparr>svAI := Some a\<rparr>"
  have "NewAIAssist (\<lambda>_. Some (''http'', ''ai:8435'')) sample_print (\<lambda>_. Inr ''k'') keyed_config = Inr (svAI ?s)"
    using a by simp
  moreover obtain rep out s' where r: "serve sample_web 5 (PostExplain (string_object [(''fingerprint'', ''o'')])) ?s = (rep, out, s')"
    using prod_cases3 by blast
  ultimately have "length out \<le> 1" using api_key_needs_license by blast
  with a r show ?thesis by (intro exI [of _ a]) simp
qed

end
