(* ===== verification/Cmd_Properties.thy ===== *)
theory Cmd_Properties
  imports Cmd_Main Web_Properties
begin

text \<open>
  What the start-up of \<open>Cmd_Main\<close> guarantees: no paid channel and no scan interval without a signed
  license, no alert setting that is dropped, and the monitored targets that survive a restart after any
  sequence of requests. \<open>in_sync\<close> is the invariant that ties the scheduler's registry to the saved rows;
  it is proved over every store that satisfies \<open>app_store\<close> and used at the database.
\<close>

subsection \<open>Paid flags\<close>

text \<open>What the system that runs was put together from.\<close>

lemma wire_up:
  assumes "wire sk be fl sch server = Up sys"
  obtains assist free paid where
    "NewAIAssist (beParse be) (skPrint sk) (beReadFile be) (flAI fl) = Inr assist"
    "build sk (flChannels fl) (export_meta be) = Inr free"
    "paid_channels (svActivation server) fl = Inr paid"
    "flInterval fl > 0 \<longrightarrow> CustomInterval (aLimits (svActivation server))"
    "sysChannels sys = free @ paid"
    "sysServer sys = server\<lparr>svExportMeta := export_meta be, svAI := assist, svTargets := Some sq_target_ops,
       svScheduler := snd (snd (Start sch))\<rparr>"
    "sysDispatcher sys = (if free @ paid = [] then None
       else Some (NewDispatcher zero_dconfig (map (channel_name sk) (free @ paid))))"
proof -
  obtain assist where ai: "NewAIAssist (beParse be) (skPrint sk) (beReadFile be) (flAI fl) = Inr assist"
    using assms by (cases "NewAIAssist (beParse be) (skPrint sk) (beReadFile be) (flAI fl)") (simp_all add: wire_def)
  obtain free where free: "build sk (flChannels fl) (export_meta be) = Inr free"
    using assms by (cases "build sk (flChannels fl) (export_meta be)") (simp_all add: wire_def ai)
  obtain paid where paid: "paid_channels (svActivation server) fl = (Inr paid :: gerror + ('a, 'b) channel list)"
    using assms
    by (cases "paid_channels (svActivation server) fl :: gerror + ('a, 'b) channel list") (simp_all add: wire_def ai free)
  obtain err loops sch' where start: "Start sch = (err, loops, sch')" using prod_cases3 by blast
  have "err = None" "flInterval fl > 0 \<longrightarrow> CustomInterval (aLimits (svActivation server))"
    using assms by (auto simp: wire_def ai free paid start Let_def split: if_splits option.splits)
  then show thesis
    using assms by (intro that [OF ai free paid]) (auto simp: wire_def ai free paid start Let_def split: if_splits)
qed

lemma boot_up:
  assumes "boot sk env be now fl = Up sys"
  obtains db raws db' sch server where
    "NewSQLiteStore (beDatabase be) = Inr db" "Register certlight_collector (NewScheduler (zero_sconfig (flInterval fl))) = (None, sch)"
    "sq_ListSavedTargets moduleID db = (Inr raws, db')"
    "NewServer env now certlight_info sq_ops db' (restore_targets moduleID raws sch) (bePub be)
       (flLicFile fl) (beFile be) = Done server"
    "wire sk be fl (restore_targets moduleID raws sch) server = Up sys"
proof -
  obtain db where db: "beOpen be = None" "NewSQLiteStore (beDatabase be) = Inr db"
    using assms by (cases "beOpen be"; cases "NewSQLiteStore (beDatabase be)") (simp_all add: boot_def)
  obtain e sch where reg: "Register certlight_collector (NewScheduler (zero_sconfig (flInterval fl))) = (e, sch)"
    by (cases "Register certlight_collector (NewScheduler (zero_sconfig (flInterval fl)))")
  with assms have "e = None" by (cases e) (simp_all add: boot_def db)
  note sch = reg [unfolded this]
  obtain names db' where names: "sq_ListSavedTargets moduleID db = (names, db')" by fastforce
  with assms obtain raws where raws: "names = Inr raws" by (cases names) (simp_all add: boot_def db sch)
  let ?new = "NewServer env now certlight_info sq_ops db' (restore_targets moduleID raws sch) (bePub be)
       (flLicFile fl) (beFile be)"
  from assms obtain server where "?new = Done server" "wire sk be fl (restore_targets moduleID raws sch) server = Up sys"
    by (cases ?new) (simp_all add: boot_def db sch names raws Let_def)
  then show thesis using that db(2) sch names raws by blast
qed

lemma build_split:
  assumes "build sk c meta = Inr cs"
  obtains mode hooks logs hecs where
    "skParseEvidenceMode sk (fgEvidence c) = (mode, True)" "build_webhook sk c meta mode = Inr hooks"
    "build_syslog sk c meta mode = Inr logs" "build_hec sk c meta mode = Inr hecs"
    "cs = hooks @ logs @ build_file c meta mode @ hecs"
proof -
  obtain mode ok where m: "skParseEvidenceMode sk (fgEvidence c) = (mode, ok)" by fastforce
  with assms have ok: "ok" by (cases ok) (simp_all add: build_def)
  obtain hooks where h: "build_webhook sk c meta mode = Inr hooks"
    using assms m ok by (cases "build_webhook sk c meta mode") (simp_all add: build_def)
  obtain logs where l: "build_syslog sk c meta mode = Inr logs"
    using assms m ok h by (cases "build_syslog sk c meta mode") (simp_all add: build_def)
  obtain hecs where e: "build_hec sk c meta mode = Inr hecs"
    using assms m ok h l by (cases "build_hec sk c meta mode") (simp_all add: build_def)
  show thesis
    by (rule that [OF _ h l e]) (use assms m ok in \<open>simp_all add: build_def h l e\<close>)
qed

text \<open>The destination of each setting.\<close>

definition destination :: "('t, 'm) channel \<Rightarrow> string" where
  "destination ch =
     (case ch of
        Webhook w \<Rightarrow> whURL w | Syslog s \<Rightarrow> syAddr s | Slack u \<Rightarrow> u | Telegram t \<Rightarrow> tgChatID t
      | HFS s meta mode \<Rightarrow>
          (case s of SinkWebhook u _ \<Rightarrow> u | SinkSyslog a _ _ _ _ \<Rightarrow> a | SinkFile p \<Rightarrow> p | SinkHEC u _ _ _ \<Rightarrow> u))"

fun unpaid :: "('t, 'm) channel \<Rightarrow> bool" where
  "unpaid (Slack u) = False"
| "unpaid (Telegram t) = False"
| "unpaid ch = True"

lemma build_webhook_ok:
  "build_webhook sk c meta mode = Inr cs \<Longrightarrow>
    map destination cs = filter (\<lambda>d. d \<noteq> []) [fgWebhook c] \<and> list_all unpaid cs"
  unfolding build_webhook_def by (auto simp: destination_def split: sum.splits if_splits)

lemma build_syslog_ok:
  "build_syslog sk c meta mode = Inr cs \<Longrightarrow>
    map destination cs = filter (\<lambda>d. d \<noteq> []) [fgSyslogAddr c] \<and> list_all unpaid cs"
  unfolding build_syslog_def Let_def by (auto simp: destination_def split: sum.splits if_splits option.splits)

lemma build_file_ok:
  "map destination (build_file c meta mode) = filter (\<lambda>d. d \<noteq> []) [fgExportFile c] \<and>
    list_all unpaid (build_file c meta mode)"
  unfolding build_file_def by (auto simp: destination_def)

lemma build_hec_ok:
  "build_hec sk c meta mode = Inr cs \<Longrightarrow>
    map destination cs = filter (\<lambda>d. d \<noteq> []) [fgHecURL c] \<and> list_all unpaid cs"
  unfolding build_hec_def by (auto simp: destination_def split: sum.splits if_splits option.splits)

lemma build_ok:
  assumes "build sk c meta = Inr cs"
  shows "map destination cs = filter (\<lambda>d. d \<noteq> []) [fgWebhook c, fgSyslogAddr c, fgExportFile c, fgHecURL c] \<and>
    list_all unpaid cs"
  using assms
proof (rule build_split)
  fix mode hooks logs hecs
  assume b: "build_webhook sk c meta mode = Inr hooks" "build_syslog sk c meta mode = Inr logs"
    "build_hec sk c meta mode = Inr hecs" and cs: "cs = hooks @ logs @ build_file c meta mode @ hecs"
  show ?thesis
    using build_webhook_ok [OF b(1)] build_syslog_ok [OF b(2)] build_file_ok [of c meta mode] build_hec_ok [OF b(3)]
    unfolding cs by auto
qed

lemma build_no_paid:
  "build sk c meta = Inr cs \<Longrightarrow> Slack u \<notin> set cs \<and> Telegram t \<notin> set cs"
  using build_ok [of sk c meta cs] by (auto simp: list_all_iff)

lemma paid_channels_ok:
  assumes "paid_channels act fl = Inr cs"
  shows "Slack u \<in> set cs \<longleftrightarrow> flSlackURL fl \<noteq> [] \<and> u = flSlackURL fl"
    "flSlackURL fl \<noteq> [] \<longrightarrow> AllowsChannel act ''slack''"
    "flTgToken fl \<noteq> [] \<or> flTgChat fl \<noteq> [] \<longrightarrow> AllowsChannel act ''telegram''"
    "Telegram t \<in> set cs \<longrightarrow> tgBotToken t = flTgToken fl \<and> tgBotToken t \<noteq> [] \<and> tgChatID t \<noteq> []"
  using assms by (auto simp: paid_channels_def Let_def split: if_splits)

text \<open>What is more than free was signed for.\<close>

definition signed_for :: "web_env \<Rightarrow> string \<Rightarrow> string \<Rightarrow> gtime \<Rightarrow> license \<Rightarrow> bool" where
  "signed_for env pub product now lic \<longleftrightarrow>
     (\<exists>payload sig. length pub = PublicKeySize \<and> weEd env pub payload sig \<and> decode_license payload = Some lic \<and>
        lProduct lic = product \<and> now \<le> fst (lExpiresAt lic))"

lemma more_than_free:
  assumes "Activate (weEd env) pub product key now = Done act"
    and "AllowsChannel act ''slack'' \<or> AllowsChannel act ''telegram'' \<or> CustomInterval (aLimits act) \<or> ScanNow (aLimits act)"
  shows "\<exists>lic. aLicense act = Some lic \<and> aTier act = lTier lic \<and> signed_for env pub product now lic"
proof -
  have "\<not> AllowsChannel (free_activation n) ''slack'' \<and> \<not> AllowsChannel (free_activation n) ''telegram'' \<and>
      \<not> CustomInterval (aLimits (free_activation n)) \<and> \<not> ScanNow (aLimits (free_activation n))" for n
    by (simp add: AllowsChannel_def free_activation_def FreeLimits_def)
  then obtain lic where v: "Verify (weEd env) pub product key now = Done (lic, None)"
    and act: "act = paid_activation lic"
    using Activate_cases [of "weEd env" pub product key now] assms by auto
  from Verify_ok [OF v] show ?thesis
    by (auto simp: act paid_activation_def signed_for_def)
qed

lemma NewServer_activation:
  "NewServer env now md ops st sch pub path file = Done s \<Longrightarrow>
    \<exists>key. Activate (weEd env) pub (miID md) key now = Done (svActivation s)"
  by (auto simp: NewServer_def Let_def split: outcome.splits)

text \<open>
  C14: the program only comes up with Slack or Telegram alerts, or with a scan interval of the user's
  own, if the key in the license file carries a license that the issuer key signed for this product
  and that has not expired. A paid flag without one ends the program at start-up, and a Telegram
  channel has both its settings.
\<close>

theorem paid_flags_need_license:
  assumes "boot sk env be now fl = Up sys"
    and "Slack u \<in> set (sysChannels sys) \<or> Telegram t \<in> set (sysChannels sys) \<or> flInterval fl > 0 \<or>
      flSlackURL fl \<noteq> [] \<or> flTgToken fl \<noteq> [] \<or> flTgChat fl \<noteq> []"
  shows "(\<exists>lic. aLicense (svActivation (sysServer sys)) = Some lic \<and>
      signed_for env (bePub be) moduleID now lic) \<and>
    (Telegram t \<in> set (sysChannels sys) \<longrightarrow> tgBotToken t \<noteq> [] \<and> tgChatID t \<noteq> [])"
  using assms(1)
proof (rule boot_up)
  fix db raws db' sch server
  assume server: "NewServer env now certlight_info sq_ops db' (restore_targets moduleID raws sch) (bePub be)
      (flLicFile fl) (beFile be) = Done server"
    and wired: "wire sk be fl (restore_targets moduleID raws sch) server = Up sys"
  from wired obtain assist free paid where w:
    "build sk (flChannels fl) (export_meta be) = Inr free" "paid_channels (svActivation server) fl = Inr paid"
    "flInterval fl > 0 \<longrightarrow> CustomInterval (aLimits (svActivation server))" "sysChannels sys = free @ paid"
    "svActivation (sysServer sys) = svActivation server"
    by (rule wire_up) simp
  have none: "Slack u \<notin> set free" "Telegram t \<notin> set free" using build_no_paid [OF w(1)] by simp_all
  note pc = paid_channels_ok [OF w(2)]
  have "AllowsChannel (svActivation server) ''slack'' \<or> AllowsChannel (svActivation server) ''telegram'' \<or>
      CustomInterval (aLimits (svActivation server))"
    using assms(2) none pc(1) [of u] pc(2,3) pc(4) [of t] w(3,4) by auto
  moreover obtain key where "Activate (weEd env) (bePub be) (miID certlight_info) key now =
      Done (svActivation server)"
    using NewServer_activation [OF server] by blast
  ultimately have "\<exists>lic. aLicense (svActivation server) = Some lic \<and>
      signed_for env (bePub be) (miID certlight_info) now lic"
    using more_than_free by blast
  then show ?thesis using w(4,5) none pc(4) [of t] by (auto simp: certlight_info_def)
qed

text \<open>
  No alert or export setting is dropped: if the settings are accepted there is one channel for
  each destination that was given, in the order webhook, syslog, file, Splunk, and the evidence mode
  is a valid one.
\<close>

theorem build_complete:
  assumes "build sk c meta = Inr cs"
  shows "map destination cs = filter (\<lambda>d. d \<noteq> []) [fgWebhook c, fgSyslogAddr c, fgExportFile c, fgHecURL c] \<and>
    skParseEvidenceMode sk (fgEvidence c) = (evidenceMode sk c, True)"
proof
  show "map destination cs = filter (\<lambda>d. d \<noteq> []) [fgWebhook c, fgSyslogAddr c, fgExportFile c, fgHecURL c]"
    using build_ok [OF assms] by blast
  from assms show "skParseEvidenceMode sk (fgEvidence c) = (evidenceMode sk c, True)"
    by (rule build_split) (simp add: evidenceMode_def)
qed

text \<open>A stand-in for hexward-core that takes every setting, for concrete runs.\<close>

definition sample_sinks :: "(unit, bool) sink_env" where
  "sample_sinks =
     \<lparr>skParseEvidenceMode = (\<lambda>s. (s = ''none'', s = ''none'' \<or> s = ''redacted'')),
      skReadSecretFile = (\<lambda>_. Inr ''secret''), skTLSConfig = (\<lambda>_ _. Inr ()), skValidate = (\<lambda>_. None),
      skEndpoint = (\<lambda>_. None), skName = (\<lambda>_. ''sink''), skPrint = sample_print\<rparr>"

definition sample_channels :: channel_flags where
  "sample_channels = registerChannelFlags
     \<lparr>fgWebhook := ''https://hook'', fgWebhookFormat := ''v2'', fgSyslogAddr := ''log:514'', fgExportFile := ''out.ndjson''\<rparr>"

theorem build_complete_witness:
  "\<exists>cs. build sample_sinks sample_channels \<lparr>hmProduct = ''certlight'', hmVersion = [], hmHost = []\<rparr> = Inr cs \<and>
     map destination cs = [''https://hook'', ''log:514'', ''out.ndjson'']"
proof -
  let ?m = "\<lparr>hmProduct = ''certlight'', hmVersion = [], hmHost = []\<rparr>"
  have "\<not> isl (build sample_sinks sample_channels ?m)" by code_simp
  then obtain cs where cs: "build sample_sinks sample_channels ?m = Inr cs"
    by (cases "build sample_sinks sample_channels ?m") simp_all
  from build_complete [OF cs] have "map destination cs = [''https://hook'', ''log:514'', ''out.ndjson'']"
    by (simp add: sample_channels_def registerChannelFlags_def)
  with cs show ?thesis by (intro exI [of _ cs] conjI)
qed

subsection \<open>Targets across a restart\<close>

text \<open>The scheduler knows the module, with this validation of its targets.\<close>

definition knows :: "(string \<Rightarrow> gerror + target) \<Rightarrow> string \<Rightarrow> scheduler \<Rightarrow> bool" where
  "knows v m sch \<longleftrightarrow> (\<exists>reg. map_of (schModules sch) m = Some reg \<and> ValidateTarget (regCollector reg) = v \<and>
     miID (regInfo reg) = m)"

text \<open>
  The monitored targets are the saved ones, and each saved raw form is valid and gives its canonical
  form again.
\<close>

definition in_sync ::
    "(string \<Rightarrow> gerror + target) \<Rightarrow> string \<Rightarrow> scheduler \<Rightarrow> (string \<times> string) list \<Rightarrow> bool" where
  "in_sync v m sch rows \<longleftrightarrow> knows v m sch \<and> dom (registry sch) = {m} \<times> snd ` set rows \<and>
     (\<forall>p \<in> set rows. \<exists>t. v (fst p) = Inr t \<and> tCanonical t = snd p)"

lemma AddTarget_known:
  assumes "knows v m sch"
  shows "fst (AddTarget m raw sch) = v raw" "knows v m (snd (snd (AddTarget m raw sch)))"
  using assms
  by (auto simp: knows_def AddTarget_def Let_def update_conv' split: sum.split)

lemma AddTarget_dom:
  assumes "knows v m sch"
  shows "dom (registry (snd (snd (AddTarget m raw sch)))) =
    (case v raw of Inl e \<Rightarrow> dom (registry sch) | Inr t \<Rightarrow> insert (m, tCanonical t) (dom (registry sch)))"
proof -
  obtain r b sch' where a: "AddTarget m raw sch = (r, b, sch')" using prod_cases3 by blast
  then have r: "r = v raw" using AddTarget_known(1) [OF assms, of raw] by simp
  show ?thesis
  proof (cases r)
    case (Inl e)
    then show ?thesis using AddTarget_fails [of m raw sch e b sch'] a r by simp
  next
    case (Inr t)
    then show ?thesis using registry_add [of m raw sch t b sch'] a r by (auto simp: dom_def)
  qed
qed

lemma RemoveTarget_known:
  "knows v m sch \<Longrightarrow> knows v m (RemoveTarget m c sch)"
  "dom (registry (RemoveTarget m c sch)) = dom (registry sch) - {(m, c)}"
proof -
  show "knows v m (RemoveTarget m c sch)" if "knows v m sch"
    using that by (auto simp: knows_def RemoveTarget_def Let_def update_conv')
  show "dom (registry (RemoveTarget m c sch)) = dom (registry sch) - {(m, c)}"
    unfolding registry_remove by auto
qed

lemma restore_known:
  assumes "knows v m sch"
  shows "knows v m (restore_targets m raws sch) \<and>
    dom (registry (restore_targets m raws sch)) =
      dom (registry sch) \<union> {(m, tCanonical t) |t raw. raw \<in> set raws \<and> v raw = Inr t}"
  using assms
proof (induction raws arbitrary: sch)
  case (Cons raw raws)
  let ?s = "snd (snd (AddTarget m raw sch))"
  have "knows v m ?s" using AddTarget_known(2) [OF Cons.prems] .
  from Cons.IH [OF this] show ?case
    using AddTarget_dom [OF Cons.prems, of raw] by (auto simp: restore_targets_def split: sum.splits)
qed (simp add: restore_targets_def)

lemma restore_in_sync:
  assumes "knows v m sch" "registry sch = Map.empty" "\<forall>p \<in> set rows. \<exists>t. v (fst p) = Inr t \<and> tCanonical t = snd p"
  shows "in_sync v m (restore_targets m (map fst rows) sch) rows"
  using restore_known [OF assms(1), of "map fst rows"] assms(2,3)
  unfolding in_sync_def by force

context app_store
begin

lemma scans_saved:
  "saved (fst (snd (snd (Scheduler_ScanNow ops newID world order ctxErr m sch s g)))) = saved s \<and>
   (reliable s \<longrightarrow> reliable (fst (snd (snd (Scheduler_ScanNow ops newID world order ctxErr m sch s g)))))"
proof -
  let ?P = "\<lambda>s'. saved s' = saved s \<and> (reliable s \<longrightarrow> reliable s')"
  have "?P (snd (sListByTarget ops m t s'))" if "?P s'" for m t s'
    using that by_target_saved [of m t s' "fst (sListByTarget ops m t s')" "snd (sListByTarget ops m t s')"] by simp
  moreover have "?P (snd (sUpsert ops r s'))" if "?P s'" for r s'
    using that upsert_saved [of r s' "fst (sUpsert ops r s')" "snd (sUpsert ops r s')"] by simp
  ultimately show ?thesis by (intro ScanNow_keeps [of ?P ops]) simp_all
qed

text \<open>Only the two requests on targets touch what is saved.\<close>

lemma serve_saved:
  assumes srv: "svOps s = ops" and req: "\<forall>x. req \<noteq> PostTarget x" "\<forall>x. req \<noteq> DeleteTarget x"
  shows "saved (svStore (snd (snd (serve env now req s)))) = saved (svStore s) \<and>
    (reliable (svStore s) \<longrightarrow> reliable (svStore (snd (snd (serve env now req s)))))"
proof (cases req)
  case GetSummary
  then show ?thesis
    using lists_saved [of _ "svStore s"] by (auto simp: quiet_def handleSummary_def srv Let_def split: prod.split sum.split)
next
  case GetFindings
  then show ?thesis
    using lists_saved [of _ "svStore s"] by (auto simp: quiet_def handleFindings_def srv Let_def split: prod.split sum.split)
next
  case (ExportFindings f)
  then show ?thesis
    using lists_saved [of _ "svStore s"]
    by (auto simp: quiet_def handleFindingsExport_def srv Let_def split: prod.split sum.split)
next
  case (PostStatus r)
  show ?thesis
  proof (cases "decode_status r")
    case (Some p)
    obtain fp status where p: "p = (fp, status)" by fastforce
    obtain res st where get: "sGet ops (miID (svModule s)) fp (svStore s) = (res, st)" by fastforce
    note g = get_saved [OF get]
    have "svStore (snd (handleFindingStatus r s)) \<in> {svStore s, st} \<union> {st'. \<exists>r e. sUpsert ops r st = (e, st')}"
      by (auto simp: Some p handleFindingStatus_def set_finding_status_def srv get split: sum.split option.split prod.split)
    then show ?thesis using g upsert_saved PostStatus by (auto simp: quiet_def dest!: upsert_saved)
  next
    case None
    with PostStatus show ?thesis by (simp add: quiet_def handleFindingStatus_def)
  qed
next
  case PostScan
  then show ?thesis
    using scans_saved [of "weNewID env now" "weScan env now" "weOrder env" "weContextErr env" "miID (svModule s)"
        "svScheduler s" "svStore s" 0]
    by (auto simp: quiet_def handleScanNow_def srv Let_def split: prod.split option.split)
next
  case (PostExplain r)
  show ?thesis
  proof (cases "decode_field ''fingerprint'' (take 4096 r)")
    case (Some fp)
    obtain res st where "sGet ops (miID (svModule s)) fp (svStore s) = (res, st)" by fastforce
    then show ?thesis using get_saved [of "miID (svModule s)" fp "svStore s" res st] PostExplain
      by (simp add: explain_store(1) [OF Some] srv)
  next
    case None
    with PostExplain show ?thesis by (simp add: explain_store)
  qed
qed (use req in \<open>auto simp: quiet_def handler_defs Let_def split: option.split prod.split outcome.split\<close>)

lemma serve_in_sync:
  assumes srv: "svOps s = ops" "svTargets s = Some tops" and rel: "reliable (svStore s)"
    and m: "miID (svModule s) = m" and raw: "\<And>raw t. v raw = Inr t \<Longrightarrow> tRaw t = raw"
    and sync: "in_sync v m (svScheduler s) (saved (svStore s) m)"
  shows "in_sync v m (svScheduler (snd (snd (serve env now req s)))) (saved (svStore (snd (snd (serve env now req s)))) m) \<and>
    reliable (svStore (snd (snd (serve env now req s))))"
proof (cases "(\<exists>x. req = PostTarget x) \<or> (\<exists>x. req = DeleteTarget x)")
  case False
  then have "svScheduler (snd (snd (serve env now req s))) = svScheduler s"
    unfolding serve_scheduler by (auto split: request.split)
  then show ?thesis using serve_saved [OF srv(1), of req env now] False sync rel by auto
next
  case True
  have known: "knows v m (svScheduler s)" using sync by (simp add: in_sync_def)
  from True show ?thesis
  proof (elim disjE exE)
    fix x assume req: "req = PostTarget x"
    show ?thesis
    proof (cases "decode_field ''target'' x \<noteq> None \<and> CanAddTarget (svActivation s) (int (target_count s))")
      case False
      then show ?thesis
        using sync rel m by (auto simp: req quiet_def handleAddTarget_def target_count_def Let_def split: option.split)
    next
      case True
      then obtain r where x: "decode_field ''target'' x = Some r" and can: "CanAddTarget (svActivation s) (int (target_count s))" by blast
      obtain res b sch where add: "AddTarget m r (svScheduler s) = (res, b, sch)" using prod_cases3 by blast
      have res: "res = v r" and known': "knows v m sch" using AddTarget_known [OF known, of r] add by simp_all
      show ?thesis
      proof (cases res)
        case (Inl e)
        then have "sch = svScheduler s" using AddTarget_fails add by blast
        then show ?thesis
          using sync rel m can add Inl
          by (simp add: req x quiet_def handleAddTarget_def target_count_def Let_def)
      next
        case (Inr t)
        obtain e st where save: "tsSave tops m (tRaw t) (tCanonical t) (svStore s) = (e, st)" by fastforce
        then have e: "e = None" "reliable st" using save_reliable [OF rel save] by simp_all
        have rows: "saved st m = save_pair (tRaw t) (tCanonical t) (saved (svStore s) m)"
          using save_ok save e by simp
        have vr: "v r = Inr t" using res Inr by simp
        have dom: "dom (registry sch) = insert (m, tCanonical t) (dom (registry (svScheduler s)))"
          using AddTarget_dom [OF known, of r] add vr by simp
        have "v (tRaw t) = Inr t" using raw [OF vr] vr by simp
        then have "in_sync v m sch (saved st m)"
          using sync known' unfolding in_sync_def dom rows by (auto simp: save_pair_def)
        then show ?thesis
          using m can add Inr save e srv
          by (simp add: req x quiet_def handleAddTarget_def target_count_def Let_def)
      qed
    qed
  next
    fix c assume req: "req = DeleteTarget c"
    obtain st where del: "tsDelete tops m c (svStore s) = Done (None, st)" "reliable st"
      using delete_reliable [OF rel] by blast
    have rows: "saved st m = filter (\<lambda>p. snd p \<noteq> c) (saved (svStore s) m)" using delete_ok del by simp
    have "in_sync v m (RemoveTarget m c (svScheduler s)) (saved st m)"
      using sync RemoveTarget_known(1) [of v m "svScheduler s" c] RemoveTarget_known(2) [of m c "svScheduler s"] unfolding in_sync_def rows by auto
    then show ?thesis
      using m del srv sync rel
      by (simp add: req quiet_def handleRemoveTarget_def Let_def)
  qed
qed

lemma serve_all_in_sync:
  assumes "svOps s = ops" "svTargets s = Some tops" "reliable (svStore s)" "miID (svModule s) = m"
    and raw: "\<And>raw t. v raw = Inr t \<Longrightarrow> tRaw t = raw"
    and "in_sync v m (svScheduler s) (saved (svStore s) m)"
  shows "in_sync v m (svScheduler (serve_all env reqs s)) (saved (svStore (serve_all env reqs s)) m) \<and>
    reliable (svStore (serve_all env reqs s))"
  using assms(1-4,6)
proof (induction reqs arbitrary: s)
  case (Cons r reqs)
  obtain now req where r: "r = (now, req)" by fastforce
  let ?s = "snd (snd (serve env now req s))"
  have k: "svOps ?s = ops" "svTargets ?s = Some tops" "miID (svModule ?s) = m"
    using serve_setup [of s env now req] Cons.prems by (simp_all add: same_setup_def)
  from serve_in_sync [OF Cons.prems(1-4) raw Cons.prems(5), of env now req] show ?case
    using Cons.IH [OF k(1,2) _ k(3)] by (simp add: r)
qed simp

end

lemma registered:
  assumes "Register certlight_collector (NewScheduler cfg) = (e, sch)"
  shows "e = None" "knows certlight_ValidateTarget moduleID sch" "registry sch = Map.empty"
proof -
  have "miID certlight_info = moduleID" "moduleID \<noteq> []" by (simp_all add: certlight_info_def moduleID_def)
  then show "e = None" "knows certlight_ValidateTarget moduleID sch" "registry sch = Map.empty"
    using assms
    by (auto simp: Register_def NewScheduler_def certlight_collector_def knows_def registry_def fun_eq_iff Let_def
        split: option.splits if_splits)
qed

lemma Start_registry: "registry (snd (snd (Start sch))) = registry sch \<and> (knows v m (snd (snd (Start sch))) \<longleftrightarrow> knows v m sch)"
  by (simp add: Start_def registry_def knows_def)

lemma certlight_raw: "certlight_ValidateTarget raw = Inr t \<Longrightarrow> tRaw t = raw"
  by (auto simp: certlight_ValidateTarget_def Let_def split: if_splits option.splits)

text \<open>The server of the program that comes up, on any database.\<close>

lemma boot_server:
  assumes "boot sk env be now fl = Up sys" and "NewSQLiteStore (beDatabase be) = Inr db"
  shows "\<exists>sch. knows certlight_ValidateTarget moduleID sch \<and> registry sch = Map.empty \<and> svScheduler (sysServer sys) =
      snd (snd (Start (restore_targets moduleID (map fst (sq_saved db moduleID)) sch)))"
    "svOps (sysServer sys) = sq_ops" "svTargets (sysServer sys) = Some sq_target_ops"
    "miID (svModule (sysServer sys)) = moduleID"
    "svStore (sysServer sys) = snd (sq_ListSavedTargets moduleID db)"
    "sq_saved (svStore (sysServer sys)) moduleID = sq_saved db moduleID"
    "dbFaults db = [] \<Longrightarrow> dbFaults (svStore (sysServer sys)) = []"
proof -
  from assms(1) obtain db0 raws db' sch server where b: "NewSQLiteStore (beDatabase be) = Inr db0"
    "Register certlight_collector (NewScheduler (zero_sconfig (flInterval fl))) = (None, sch)"
    "sq_ListSavedTargets moduleID db0 = (Inr raws, db')"
    "NewServer env now certlight_info sq_ops db' (restore_targets moduleID raws sch) (bePub be)
       (flLicFile fl) (beFile be) = Done server"
    "wire sk be fl (restore_targets moduleID raws sch) server = Up sys"
    by (rule boot_up)
  have lst: "tsList sq_target_ops moduleID db = (Inr raws, db')" using b(1,3) assms(2) by (simp add: sq_target_ops_def)
  from sqt.list_ok [OF this] have l: "raws = map fst (sq_saved db moduleID)" "sq_saved db' = sq_saved db" by simp_all
  obtain assist where s: "sysServer sys = server\<lparr>svExportMeta := export_meta be, svAI := assist,
      svTargets := Some sq_target_ops, svScheduler := snd (snd (Start (restore_targets moduleID raws sch)))\<rparr>"
    using b(5) by (rule wire_up)
  have server: "svOps server = sq_ops" "svStore server = db'" "svModule server = certlight_info"
    using b(4) by (auto simp: NewServer_def Let_def split: outcome.splits)
  show "\<exists>sch. knows certlight_ValidateTarget moduleID sch \<and> registry sch = Map.empty \<and> svScheduler (sysServer sys) =
      snd (snd (Start (restore_targets moduleID (map fst (sq_saved db moduleID)) sch)))"
    using registered(2,3) [OF b(2)] by (intro exI [of _ sch]) (simp add: s l)
  show "dbFaults (svStore (sysServer sys)) = []" if "dbFaults db = []"
    using sqapp.list_reliable [OF that lst] server by (simp add: s)
  show "svOps (sysServer sys) = sq_ops" "svTargets (sysServer sys) = Some sq_target_ops"
    "miID (svModule (sysServer sys)) = moduleID" "svStore (sysServer sys) = snd (sq_ListSavedTargets moduleID db)"
    "sq_saved (svStore (sysServer sys)) moduleID = sq_saved db moduleID"
    using server l b(1,3) assms(2) by (simp_all add: s certlight_info_def)
qed

lemma boot_knows:
  assumes "boot sk env be now fl = Up sys" and "NewSQLiteStore (beDatabase be) = Inr db"
  shows "knows certlight_ValidateTarget moduleID (svScheduler (sysServer sys))"
  using boot_server(1) [OF assms] restore_known Start_registry by fastforce

text \<open>With saved targets that are valid it monitors the saved targets.\<close>

lemma boot_in_sync:
  assumes "boot sk env be now fl = Up sys" and "NewSQLiteStore (beDatabase be) = Inr db"
    and "\<forall>p \<in> set (sq_saved db moduleID). \<exists>t. certlight_ValidateTarget (fst p) = Inr t \<and> tCanonical t = snd p"
  shows "in_sync certlight_ValidateTarget moduleID (svScheduler (sysServer sys)) (sq_saved (svStore (sysServer sys)) moduleID)"
proof -
  obtain sch where sch: "knows certlight_ValidateTarget moduleID sch" "registry sch = Map.empty"
    "svScheduler (sysServer sys) = snd (snd (Start (restore_targets moduleID (map fst (sq_saved db moduleID)) sch)))"
    using boot_server(1) [OF assms(1,2)] by blast
  let ?sch = "restore_targets moduleID (map fst (sq_saved db moduleID)) sch"
  have "in_sync certlight_ValidateTarget moduleID ?sch (sq_saved db moduleID)"
    by (rule restore_in_sync [OF sch(1,2) assms(3)])
  then show ?thesis
    unfolding sch(3) boot_server(6) [OF assms(1,2)] using Start_registry [of ?sch] by (simp add: in_sync_def)
qed

text \<open>
  C5: as long as the database reports no error and the saved targets are valid (what the program
  itself saves is), a restart loses no target and brings none back: the program is started on such a
  database, takes any sequence of requests (scans among them, with any results), and is started again
  on the database it left, with whatever flags; then it monitors exactly the targets it monitored
  when it ended. Both conditions are needed: a deletion that fails is dropped, and its target comes
  back (see removed_target_returns below).
\<close>

theorem targets_survive_restart:
  assumes "boot sk env be now fl = Up sys" and "NewSQLiteStore (beDatabase be) = Inr db" "dbFaults db = []"
    and "\<forall>p \<in> set (sq_saved db moduleID). \<exists>t. certlight_ValidateTarget (fst p) = Inr t \<and> tCanonical t = snd p"
    and "NewSQLiteStore (beDatabase be') = Inr (svStore (serve_all run reqs (sysServer sys)))" and "boot sk' env' be' now' fl' = Up sys'"
  shows "dom (registry (svScheduler (sysServer sys'))) = dom (registry (svScheduler (serve_all run reqs (sysServer sys))))"
proof -
  note b = boot_in_sync [OF assms(1,2,4)] boot_server(2-7) [OF assms(1,2)]
  let ?final = "serve_all run reqs (sysServer sys)"
  have e: "in_sync certlight_ValidateTarget moduleID (svScheduler ?final) (sq_saved (svStore ?final) moduleID)"
    "dbFaults (svStore ?final) = []"
    using sqapp.serve_all_in_sync [OF b(2,3) b(7) [OF assms(3)] b(4) certlight_raw b(1)] by blast+
  then have "\<forall>p \<in> set (sq_saved (svStore ?final) moduleID). \<exists>t. certlight_ValidateTarget (fst p) = Inr t \<and> tCanonical t = snd p"
    by (simp add: in_sync_def)
  note b' = boot_in_sync [OF assms(6,5) this] boot_server(6) [OF assms(6,5)]
  show ?thesis using b' e(1) by (simp add: in_sync_def)
qed

definition plain_flags :: flags where
  "plain_flags =
     \<lparr>flLicFile = ''license.key'', flChannels = registerChannelFlags, flSlackURL = [], flTgToken = [], flTgChat = [],
      flInterval = 0, flAI = \<lparr>aiURL = [], aiKeyFile = [], aiLanguage = [], aiNoThinking = False\<rparr>\<rparr>"

definition boot_on :: "sq_db \<Rightarrow> boot_env" where
  "boot_on db = \<lparr>beOpen = None, beDatabase = db\<lparr>dbFaults := None # dbFaults db\<rparr>, bePub = [], beFile = None, beHost = ''h'',
     beParse = (\<lambda>_. None), beReadFile = (\<lambda>_. Inl ''no file'')\<rparr>"

lemma boot_on_store [simp]: "NewSQLiteStore (beDatabase (boot_on db)) = Inr db"
  by (simp add: boot_on_def NewSQLiteStore_def sq_migrate_def next_fault_def)

lemma boot_on_world [simp]:
  "beOpen (boot_on db) = None" "bePub (boot_on db) = []" "beFile (boot_on db) = None"
  by (simp_all add: boot_on_def)

definition fresh_db :: sq_db where
  "fresh_db = \<lparr>dbFindings = [], dbTargets = [], dbFaults = []\<rparr>"

lemma restore_started: "schStarted (restore_targets m raws sch) = schStarted sch"
proof (induction raws arbitrary: sch)
  case (Cons raw raws)
  have "schStarted (snd (snd (AddTarget m raw sch))) = schStarted sch"
    by (auto simp: AddTarget_def Let_def split: option.split sum.split)
  then show ?case using Cons.IH [of "snd (snd (AddTarget m raw sch))"] by (simp add: restore_targets_def)
qed (simp add: restore_targets_def)

lemma plain_boot:
  assumes "hd (dbFaults db @ [None]) = None"
  shows "\<exists>sys. boot sample_sinks sample_web (boot_on db) now plain_flags = Up sys"
proof -
  obtain names db' where names: "sq_ListSavedTargets moduleID db = (names, db')" by fastforce
  with assms obtain raws where raws: "names = Inr raws"
    by (cases "dbFaults db") (auto simp: sq_ListSavedTargets_def next_fault_def)
  obtain e sch where reg: "Register certlight_collector (NewScheduler (zero_sconfig 0)) = (e, sch)" by fastforce
  have "e = None" using registered(1) [OF reg] .
  moreover have "schStarted sch = False"
    using reg by (auto simp: Register_def NewScheduler_def Let_def split: option.splits if_splits)
  moreover have "\<not> isl (build sample_sinks registerChannelFlags m)" for m
    by (simp add: build_def build_webhook_def build_syslog_def build_hec_def sample_sinks_def registerChannelFlags_def)
  then obtain cs where "build sample_sinks registerChannelFlags (export_meta (boot_on db)) = Inr cs"
    by (metis sum.collapse(2))
  ultimately show ?thesis
    using reg names raws
    by (simp add: boot_def plain_flags_def NewServer_def Activate_def Let_def wire_def NewAIAssist_def
        paid_channels_def Start_def restore_started)
qed

definition first_run :: "(unit, bool) system started" where
  "first_run = boot sample_sinks sample_web (boot_on fresh_db) 0 plain_flags"

lemma first_run_room:
  "case first_run of
     Up sys \<Rightarrow> CanAddTarget (svActivation (sysServer sys)) (int (target_count (sysServer sys)))
   | Exit c e \<Rightarrow> False"
  by code_simp

theorem targets_survive_restart_witness:
  "\<exists>sys sys'. first_run = Up sys \<and>
     boot sample_sinks sample_web
       (boot_on (svStore (serve_all sample_web [(0, PostTarget (string_object [(''target'', ''a'')]))] (sysServer sys)))) 5 plain_flags = Up sys' \<and>
     (moduleID, ''a:443'') \<in> dom (registry (svScheduler (sysServer sys')))"
proof -
  obtain sys where up: "boot sample_sinks sample_web (boot_on fresh_db) 0 plain_flags = Up sys"
    using plain_boot [of fresh_db 0] by (auto simp: fresh_db_def)
  have db: "NewSQLiteStore (beDatabase (boot_on fresh_db)) = Inr fresh_db" "dbFaults fresh_db = []"
    "\<forall>p \<in> set (sq_saved fresh_db moduleID). \<exists>t. certlight_ValidateTarget (fst p) = Inr t \<and> tCanonical t = snd p"
    by (simp_all add: fresh_db_def sq_saved_def)
  note b = boot_in_sync [OF up db(1,3)] boot_server(2-7) [OF up db(1)]
  let ?final = "serve_all sample_web [(0, PostTarget (string_object [(''target'', ''a'')]))] (sysServer sys)"
  have "CanAddTarget (svActivation (sysServer sys)) (int (target_count (sysServer sys)))"
    using first_run_room up by (simp add: first_run_def)
  moreover have "knows certlight_ValidateTarget moduleID (svScheduler (sysServer sys))"
    using b(1) by (simp add: in_sync_def)
  ultimately have "(moduleID, ''a:443'') \<in> dom (registry (svScheduler ?final))"
    using AddTarget_dom [of certlight_ValidateTarget moduleID "svScheduler (sysServer sys)" "''a''"]
      serve_scheduler [of sample_web 0 "PostTarget (string_object [(''target'', ''a'')])" "sysServer sys"]
    by (simp add: b(4) plain_target decode_field_object repair_ascii byte_def del: serve.simps)
  moreover have "dbFaults (svStore ?final) = []"
    using sqapp.serve_all_in_sync [OF b(2,3) b(7) [OF db(2)] b(4) certlight_raw b(1)] by blast
  then obtain sys' where "boot sample_sinks sample_web (boot_on (svStore ?final)) 5 plain_flags = Up sys'"
    using plain_boot [of "svStore ?final"] by auto
  moreover have "NewSQLiteStore (beDatabase (boot_on (svStore ?final))) = Inr (svStore ?final)" by simp
  moreover note targets_survive_restart [OF up db]
  ultimately show ?thesis using up unfolding first_run_def by blast
qed

lemma failed_delete: "sq_DeleteTarget m c db = Done (Some e, db') \<Longrightarrow> dbTargets db' = dbTargets db"
proof (cases "dbFaults db")
  case (Cons f fs)
  then show "sq_DeleteTarget m c db = Done (Some e, db') \<Longrightarrow> dbTargets db' = dbTargets db"
    by (cases f) (auto simp: sq_DeleteTarget_def next_fault_def)
qed (simp add: sq_DeleteTarget_def next_fault_def)

text \<open>
  C40: the deletion of a saved target can fail without a word: the request is answered as a success
  and the target is not monitored any more, but the next start brings it back.
\<close>

theorem removed_target_returns:
  assumes "boot sk env be now fl = Up sys" and "NewSQLiteStore (beDatabase be) = Inr db"
    and "\<forall>p \<in> set (sq_saved db moduleID). \<exists>t. certlight_ValidateTarget (fst p) = Inr t \<and> tCanonical t = snd p"
    and "(raw, c) \<in> set (sq_saved db moduleID)" "c \<noteq> []"
    and "sq_DeleteTarget moduleID c (svStore (sysServer sys)) = Done (Some e, st)"
    and "NewSQLiteStore (beDatabase be') = Inr st" and "boot sk' env' be' now' fl' = Up sys'"
  shows "\<exists>s. serve run t (DeleteTarget c) (sysServer sys) = (writeJSON OkBody, [], s) \<and> svStore s = st \<and>
    (moduleID, c) \<notin> dom (registry (svScheduler s)) \<and> (moduleID, c) \<in> dom (registry (svScheduler (sysServer sys')))"
proof -
  note b = boot_server [OF assms(1,2)]
  have "dbTargets st = dbTargets (svStore (sysServer sys))"
    using assms(6) by (rule failed_delete)
  then have rows: "sq_saved st moduleID = sq_saved db moduleID" using b(6) by (simp add: sq_saved_def)
  note b' = boot_in_sync [OF assms(8,7) assms(3) [folded rows]] boot_server(6) [OF assms(8,7)]
  have "c \<in> snd ` set (sq_saved db moduleID)" by (rule image_eqI [OF _ assms(4)]) simp
  moreover have "dom (registry (svScheduler (sysServer sys'))) = {moduleID} \<times> snd ` set (sq_saved db moduleID)"
    using b'(1) unfolding in_sync_def b'(2) rows by blast
  ultimately have "(moduleID, c) \<in> dom (registry (svScheduler (sysServer sys')))" by simp
  then show ?thesis
    using assms(5,6) b(3,4)
    by (simp add: quiet_def handleRemoveTarget_def sq_target_ops_def Let_def RemoveTarget_known(2))
qed

definition faulty_db :: sq_db where
  "faulty_db = \<lparr>dbFindings = [], dbTargets = [\<lparr>trModule = moduleID, trRaw = ''a'', trCanonical = ''a:443''\<rparr>],
     dbFaults = [None, Some ''disk full'']\<rparr>"

theorem removed_target_returns_witness:
  "\<exists>sys sys' s. boot sample_sinks sample_web (boot_on faulty_db) 0 plain_flags = Up sys \<and>
     serve sample_web 1 (DeleteTarget ''a:443'') (sysServer sys) = (writeJSON OkBody, [], s) \<and>
     boot sample_sinks sample_web (boot_on (svStore s)) 5 plain_flags = Up sys' \<and>
     (moduleID, ''a:443'') \<in> dom (registry (svScheduler (sysServer sys')))"
proof -
  obtain sys where up: "boot sample_sinks sample_web (boot_on faulty_db) 0 plain_flags = Up sys"
    using plain_boot [of faulty_db 0] by (auto simp: faulty_db_def)
  have db: "NewSQLiteStore (beDatabase (boot_on faulty_db)) = Inr faulty_db"
    "\<forall>p \<in> set (sq_saved faulty_db moduleID). \<exists>t. certlight_ValidateTarget (fst p) = Inr t \<and> tCanonical t = snd p"
    "(''a'', ''a:443'') \<in> set (sq_saved faulty_db moduleID)" "''a:443'' \<noteq> []"
    by (simp_all add: faulty_db_def sq_saved_def plain_target)
  obtain st where st: "sq_DeleteTarget moduleID ''a:443'' (svStore (sysServer sys)) = Done (Some ''disk full'', st)"
    "dbFaults st = []"
    using boot_server(5) [OF up db(1)]
    by (simp add: sq_ListSavedTargets_def next_fault_def faulty_db_def sq_DeleteTarget_def)
  obtain sys' where up': "boot sample_sinks sample_web (boot_on st) 5 plain_flags = Up sys'"
    using plain_boot [of st 5] st(2) by auto
  have "NewSQLiteStore (beDatabase (boot_on st)) = Inr st" by simp
  from removed_target_returns [OF up db st(1) this up', of sample_web 1] up up' show ?thesis by blast
qed

definition paid_boot :: boot_env where
  "paid_boot = (boot_on fresh_db)\<lparr>bePub := toy_pub, beFile := Some (toy_key @ [newline])\<rparr>"

definition slack_flags :: flags where
  "slack_flags = plain_flags\<lparr>flSlackURL := ''https://hooks''\<rparr>"

lemma paid_boots:
  "\<exists>sys. boot sample_sinks paid_web paid_boot 50 slack_flags = Up sys \<and>
     Slack ''https://hooks'' \<in> set (sysChannels sys)"
proof -
  let ?act = "\<lparr>aTier = TierPro, aLimits = limitsFor TierPro, aLicense = Some demo_license, aNotice = []\<rparr>"
  have act: "Activate toy_verify toy_pub (miID certlight_info) toy_key 50 = Done ?act"
    using toy_Activate by (simp add: certlight_info_def moduleID_def)
  have key: "trim_space (toy_key @ [newline]) = toy_key" using trim_space_newline [of toy_key] by (simp add: toy_key_trimmed)
  obtain e sch where reg: "Register certlight_collector (NewScheduler (zero_sconfig 0)) = (e, sch)" by fastforce
  have e: "e = None" using registered(1) [OF reg] .
  have idle: "\<not> schStarted sch"
    using reg by (auto simp: Register_def NewScheduler_def Let_def split: option.splits if_splits)
  have "\<not> isl (build sample_sinks registerChannelFlags m)" for m
    by (simp add: build_def build_webhook_def build_syslog_def build_hec_def sample_sinks_def registerChannelFlags_def)
  then obtain cs where cs: "build sample_sinks registerChannelFlags (export_meta paid_boot) = Inr cs"
    by (metis sum.collapse(2))
  have "AllowsChannel ?act ''slack''" by (simp add: AllowsChannel_def limitsFor_def TierLimits_def go_consts)
  then show ?thesis
    using reg e cs idle
    by (simp add: boot_def paid_boot_def slack_flags_def plain_flags_def fresh_db_def sq_ListSavedTargets_def
        next_fault_def NewServer_def paid_web_def sample_web_def act key Let_def wire_def NewAIAssist_def
        paid_channels_def Start_def restore_started)
qed

theorem paid_flags_need_license_witness:
  "\<exists>sys lic. boot sample_sinks paid_web paid_boot 50 slack_flags = Up sys \<and>
     aLicense (svActivation (sysServer sys)) = Some lic \<and> signed_for paid_web toy_pub moduleID 50 lic"
proof -
  obtain sys where up: "boot sample_sinks paid_web paid_boot 50 slack_flags = Up sys"
    and slack: "Slack ''https://hooks'' \<in> set (sysChannels sys)" using paid_boots by blast
  have "bePub paid_boot = toy_pub" by (simp add: paid_boot_def)
  with paid_flags_need_license [OF up, of "''https://hooks''"] slack up show ?thesis by auto
qed

end
