(* ===== verification/Certlight_System.thy ===== *)
theory Certlight_System
  imports Cmd_Properties
begin

text \<open>
  The program while it runs, as a step relation over the components: the server that \<open>boot\<close> returns, the
  state of the module's loop and the dispatcher. \<open>live_step\<close> interleaves whole requests, sweeps, the first
  scans that requests have started and timers in any order; a request or scan that reports findings calls
  the dispatcher through the callback of \<open>BindScheduler\<close>. The invariant \<open>live_ok\<close> joins the invariants of
  the components and holds whatever errors the database reports, \<open>synced\<close> adds what needs a database that
  reports none, and the last theorem follows a finding from the handshake to the digests of every channel.
  The end of the program (\<open>Close\<close>) is not a step here.
\<close>

subsection \<open>The running program\<close>

record live =
  lvServer :: "sq_db server"
  lvLoop :: loop_state
  lvDispatcher :: "dispatcher option"

text \<open>The callback that \<open>main\<close> installs with \<open>BindScheduler\<close>, over the results of some scans.\<close>

definition deliver :: "gtime \<Rightarrow> scan_result list \<Rightarrow> dispatcher option \<Rightarrow> dispatcher option" where
  "deliver now rs = map_option (\<lambda>d. fold (\<lambda>r d. snd (BindScheduler None now r ((), d))) rs d)"

definition launch :: "('t, 'm) system \<Rightarrow> live" where
  "launch sys = \<lparr>lvServer = sysServer sys, lvLoop = new_loop, lvDispatcher = sysDispatcher sys\<rparr>"

text \<open>
  The steps while the program runs: a request, a sweep of the module's loop, the first scan of a
  target that a request has added (once for each addition, at any time after it), and the timer of the
  dispatcher. What the world contributes to a step is arbitrary.
\<close>

inductive live_step :: "live \<Rightarrow> live \<Rightarrow> bool" where
  request: "serve env now req (lvServer y) = (rep, out, s) \<Longrightarrow>
    live_step y (y\<lparr>lvServer := s,
      lvDispatcher := deliver now (drop (length (svReported (lvServer y))) (svReported s)) (lvDispatcher y)\<rparr>)"
| sweep: "map_of (schModules (svScheduler (lvServer y))) moduleID = Some reg \<Longrightarrow>
    sweep (svOps (lvServer y)) newID (schCfg (svScheduler (lvServer y))) reg world order now (lvLoop y)
      (svStore (lvServer y)) (g :: nat) = (results, errs, l, st, g') \<Longrightarrow>
    live_step y (y\<lparr>lvServer := (lvServer y)\<lparr>svStore := st\<rparr>, lvLoop := l,
      lvDispatcher := deliver now results (lvDispatcher y)\<rparr>)"
| first_scan: "t \<in> set (svLaunched (lvServer y)) \<Longrightarrow>
    map_of (schModules (svScheduler (lvServer y))) moduleID = Some reg \<Longrightarrow>
    scanOne (svOps (lvServer y)) newID now (regInfo reg) t slot collected (svStore (lvServer y)) (g :: nat) =
      (err, res, st, g') \<Longrightarrow>
    live_step y (y\<lparr>lvServer := (lvServer y)\<lparr>svStore := st, svLaunched := remove1 t (svLaunched (lvServer y))\<rparr>,
      lvDispatcher := deliver now (case res of None \<Rightarrow> [] | Some r \<Rightarrow> [r]) (lvDispatcher y)\<rparr>)"
| timer: "live_step y (y\<lparr>lvDispatcher := map_option (Flush now) (lvDispatcher y)\<rparr>)"

text \<open>
  The invariant, with a database that may fail at any time: the table's constraints, the registered
  module, and a dispatcher that is open and in order. \<open>synced\<close> adds that the monitored targets are the
  saved ones; it needs a driver that reports no error.
\<close>

definition live_ok :: "live \<Rightarrow> bool" where
  "live_ok y \<longleftrightarrow>
     (let s = lvServer y
      in svOps s = sq_ops \<and> svTargets s = Some sq_target_ops \<and> miID (svModule s) = moduleID \<and>
         sq_invar (svStore s) \<and> knows certlight_ValidateTarget moduleID (svScheduler s) \<and>
         (\<forall>d. lvDispatcher y = Some d \<longrightarrow> dispatcher_ok d \<and> \<not> dClosed d \<and> 0 < MaxBatch (dCfg d)))"

definition synced :: "live \<Rightarrow> bool" where
  "synced y \<longleftrightarrow> dbFaults (svStore (lvServer y)) = [] \<and>
     in_sync certlight_ValidateTarget moduleID (svScheduler (lvServer y)) (sq_saved (svStore (lvServer y)) moduleID)"

subsection \<open>What a step does to the dispatcher\<close>

lemma Enqueue_open: "dClosed (Enqueue e now d) = dClosed d"
  by (auto simp: Enqueue_alt flushLocked_fields add_event_fields)

lemma flush_open: "dClosed (Flush now d) = dClosed d"
  by (simp add: Flush_def flushLocked_fields)

lemma enqueue_steps:
  "\<forall>e \<in> set es. event_ok e \<Longrightarrow> dispatch_step\<^sup>*\<^sup>* d (fold (\<lambda>e. Enqueue e now) es d) \<and>
     dClosed (fold (\<lambda>e. Enqueue e now) es d) = dClosed d"
proof (induction es arbitrary: d)
  case (Cons e es)
  have "dispatch_step d (Enqueue e now d)" using Cons.prems by (intro dispatch_step.enqueue) simp
  with Cons.IH [of "Enqueue e now d"] Cons.prems show ?case
    by (auto simp: Enqueue_open intro: converse_rtranclp_into_rtranclp)
qed simp

lemma result_events_ok: "no_bar (srModule r) \<Longrightarrow> e \<in> set (result_events r) \<Longrightarrow> event_ok e"
  by (auto simp: result_events_def event_ok_def)

lemma deliver_steps:
  assumes "\<forall>r \<in> set rs. no_bar (srModule r)"
  shows "\<exists>d'. deliver now rs (Some d) = Some d' \<and> dispatch_step\<^sup>*\<^sup>* d d' \<and> dClosed d' = dClosed d"
  using assms
proof (induction rs arbitrary: d)
  case (Cons r rs)
  let ?d = "fold (\<lambda>e. Enqueue e now) (result_events r) d"
  have r: "dispatch_step\<^sup>*\<^sup>* d ?d \<and> dClosed ?d = dClosed d"
    using Cons.prems by (intro enqueue_steps) (auto intro: result_events_ok)
  obtain d' where "deliver now rs (Some ?d) = Some d'" "dispatch_step\<^sup>*\<^sup>* ?d d'" "dClosed d' = dClosed ?d"
    using Cons.IH [of ?d] Cons.prems by auto
  then show ?case using r by (auto simp: deliver_def BindScheduler_def intro: rtranclp_trans)
qed (simp add: deliver_def)

lemma deliver_None [simp]: "deliver now rs None = None"
  by (simp add: deliver_def)

text \<open>What a request reports is of the module.\<close>

lemma serve_reported:
  assumes "knows v (miID (svModule s)) (svScheduler s)"
  shows "\<exists>rs. svReported (snd (snd (serve env now req s))) = svReported s @ rs \<and>
    (\<forall>r \<in> set rs. srModule r = miID (svModule s))"
proof (cases "req = PostScan")
  case True
  obtain reg where reg: "map_of (schModules (svScheduler s)) (miID (svModule s)) = Some reg"
    "miID (regInfo reg) = miID (svModule s)" using assms by (auto simp: knows_def)
  obtain err results st g where scan: "Scheduler_ScanNow (svOps s) (weNewID env now) (weScan env now) (weOrder env)
      (weContextErr env) (miID (svModule s)) (svScheduler s) (svStore s) 0 = (err, results, st, g)" using prod_cases4 by blast
  have "\<forall>r \<in> set results. srModule r = miID (svModule s)"
    using ScanNow_module [OF _ reg(1), of _ "svOps s" "weNewID env now" "weScan env now" "weOrder env"
        "weContextErr env" "svStore s" 0] scan reg(2) by simp
  then show ?thesis
    by (cases "ScanNow (aLimits (svActivation s))") (auto simp: True quiet_def handleScanNow_def scan Let_def split: option.split)
next
  case False
  then show ?thesis by (intro exI [of _ "[]"]) (simp add: serve_reports_nothing)
qed

text \<open>Every step of the program is a number of steps of the dispatcher, none of which closes it.\<close>

lemma moduleID_no_bar: "no_bar moduleID"
  by (simp add: moduleID_def no_bar_def)

lemma live_step_dispatcher:
  assumes "live_step y y'" "live_ok y" "lvDispatcher y = Some d"
  shows "\<exists>d'. lvDispatcher y' = Some d' \<and> dispatch_step\<^sup>*\<^sup>* d d' \<and> dClosed d' = dClosed d"
proof -
  have known: "knows certlight_ValidateTarget moduleID (svScheduler (lvServer y))" and m: "miID (svModule (lvServer y)) = moduleID"
    using assms(2) by (simp_all add: live_ok_def Let_def)
  have info: "no_bar (miID (regInfo reg))" if "map_of (schModules (svScheduler (lvServer y))) moduleID = Some reg" for reg
    using known that moduleID_no_bar by (auto simp: knows_def)
  from assms(1) show ?thesis
  proof (cases rule: live_step.cases)
    case (request env now req rep out s)
    then have s: "s = snd (snd (serve env now req (lvServer y)))" by simp
    obtain rs where "svReported s = svReported (lvServer y) @ rs" "\<forall>r \<in> set rs. srModule r = moduleID"
      using serve_reported [of certlight_ValidateTarget "lvServer y" env now req] known unfolding m s by blast
    then show ?thesis
      using deliver_steps [of rs now d] request(1) assms(3) moduleID_no_bar by auto
  next
    case (sweep reg newID world order now g results errs l st g')
    have "\<forall>r \<in> set results. no_bar (srModule r)"
      using sweep(3) info [OF sweep(2)] unfolding sweep_def by (auto dest: sweep_scans_module)
    then show ?thesis using deliver_steps [of results now d] sweep(1) assms(3) by auto
  next
    case (first_scan t reg newID now slot collected g err res st g')
    have "\<forall>r \<in> set (case res of None \<Rightarrow> [] | Some r \<Rightarrow> [r]). no_bar (srModule r)"
      using first_scan(4) info [OF first_scan(3)] by (auto split: option.splits dest: scanOne_module)
    then show ?thesis
      using deliver_steps [of "case res of None \<Rightarrow> [] | Some r \<Rightarrow> [r]" now d] first_scan(1) assms(3) by auto
  next
    case (timer now)
    then show ?thesis using assms(3) dispatch_step.flush [of d now] by (auto simp: flush_open)
  qed
qed

subsection \<open>The invariant of the running program\<close>

text \<open>What a scan keeps of the database.\<close>

definition db_kept :: "sq_db \<Rightarrow> sq_db \<Rightarrow> bool" where
  "db_kept db db' \<longleftrightarrow> sq_invar db' \<and> sq_saved db' = sq_saved db \<and> (dbFaults db = [] \<longrightarrow> dbFaults db' = [])"

lemma db_kept_ops:
  assumes "db_kept db db'"
  shows "db_kept db (snd (sListByTarget sq_ops m t db'))" "db_kept db (snd (sUpsert sq_ops r db'))"
proof -
  obtain res db1 where l: "sListByTarget sq_ops m t db' = (res, db1)" by fastforce
  show "db_kept db (snd (sListByTarget sq_ops m t db'))"
    using sq.list_keeps [OF _ l] sqapp.by_target_saved [OF l] assms by (simp add: l db_kept_def)
  obtain e db2 where u: "sUpsert sq_ops r db' = (e, db2)" by fastforce
  show "db_kept db (snd (sUpsert sq_ops r db'))"
    using sq.upsert_invar [OF _ TrueI u] sqapp.upsert_saved [OF u] assms by (simp add: u db_kept_def)
qed

lemma dispatch_steps_ok:
  assumes "dispatch_step\<^sup>*\<^sup>* d d'" "dispatcher_ok d" "0 < MaxBatch (dCfg d)"
  shows "dispatcher_ok d' \<and> dCfg d' = dCfg d \<and> dChannels d' = dChannels d"
  using assms(1)
proof (induction rule: rtranclp_induct)
  case (step x z)
  then show ?case using dispatch_step_ok [of x z] dispatch_step_cfg [of x z] assms(3) by simp
qed (use assms in simp)

lemma serve_invar:
  assumes "svOps s = sq_ops" "svTargets s = Some sq_target_ops" "sq_invar (svStore s)"
  shows "sq_invar (svStore (snd (snd (serve env now req s))))"
proof (cases "(\<exists>b. req = PostStatus b) \<or> req = PostScan")
  case False
  then show ?thesis using sqapp.serve_reads [of s req env now] assms by simp
next
  case True
  then show ?thesis
  proof
    assume "req = PostScan"
    moreover have "db_kept (svStore s) (fst (snd (snd (Scheduler_ScanNow sq_ops newID world order ctxErr m sch (svStore s) g))))"
      for newID :: "gtime \<Rightarrow> nat \<Rightarrow> (gerror + string) \<times> nat" and world order ctxErr m sch g
      using assms(3) by (intro ScanNow_keeps [of "db_kept (svStore s)" "sq_ops"] db_kept_ops) (simp_all add: db_kept_def)
    from this [of "weNewID env now" "weScan env now" "weOrder env" "weContextErr env" "miID (svModule s)" "svScheduler s" 0]
    show ?thesis
      using assms(1,3) \<open>req = PostScan\<close>
      by (auto simp: quiet_def handleScanNow_def db_kept_def Let_def split: prod.splits option.splits)
  next
    assume "\<exists>b. req = PostStatus b"
    then obtain b where req: "req = PostStatus b" by blast
    show ?thesis
    proof (cases "decode_status b")
      case (Some p)
      obtain fp status where p: "p = (fp, status)" by fastforce
      obtain rep s' where h: "set_finding_status fp status s = (rep, s')" by fastforce
      show ?thesis
        using sqapp.status_change [OF assms(3,1) TrueI h] by (simp add: req Some p quiet_def handleFindingStatus_def h)
    next
      case None
      with assms(3) show ?thesis by (simp add: req quiet_def handleFindingStatus_def)
    qed
  qed
qed

lemma serve_knows:
  assumes "knows v (miID (svModule s)) (svScheduler s)"
  shows "knows v (miID (svModule s)) (svScheduler (snd (snd (serve env now req s))))"
  unfolding serve_scheduler
  using assms AddTarget_known(2) [OF assms] RemoveTarget_known(1) [OF assms]
  by (auto split: request.split option.split)

text \<open>A step whose scans have left the database as \<open>st\<close>.\<close>

lemma live_ok_scans:
  assumes "live_ok y" "db_kept (svStore (lvServer y)) st"
    and "\<forall>d'. lvDispatcher y' = Some d' \<longrightarrow> dispatcher_ok d' \<and> \<not> dClosed d' \<and> 0 < MaxBatch (dCfg d')"
    and "lvServer y' = (lvServer y)\<lparr>svStore := st, svLaunched := ts\<rparr>"
  shows "live_ok y' \<and> (synced y \<longrightarrow> synced y')"
  using assms by (simp add: live_ok_def synced_def db_kept_def Let_def)

lemma steps_dispatcher_ok:
  assumes "dispatch_step\<^sup>*\<^sup>* d d'" "dClosed d' = dClosed d" "live_ok y" "lvDispatcher y = Some d"
  shows "dispatcher_ok d' \<and> \<not> dClosed d' \<and> 0 < MaxBatch (dCfg d')"
proof -
  have d: "dispatcher_ok d" "\<not> dClosed d" "0 < MaxBatch (dCfg d)" using assms(3,4) by (simp_all add: live_ok_def Let_def)
  from dispatch_steps_ok [OF assms(1) d(1,3)] show ?thesis using d assms(2) by simp
qed

lemma live_step_ok:
  assumes "live_step y y'" "live_ok y"
  shows "live_ok y' \<and> (synced y \<longrightarrow> synced y')"
proof -
  have y: "svOps (lvServer y) = sq_ops" "svTargets (lvServer y) = Some sq_target_ops"
    "miID (svModule (lvServer y)) = moduleID" "sq_invar (svStore (lvServer y))"
    "knows certlight_ValidateTarget moduleID (svScheduler (lvServer y))"
    using assms(2) by (simp_all add: live_ok_def Let_def)
  have kept: "db_kept (svStore (lvServer y)) (svStore (lvServer y))" using y by (simp add: db_kept_def)
  have disp: "\<forall>d'. lvDispatcher y' = Some d' \<longrightarrow> dispatcher_ok d' \<and> \<not> dClosed d' \<and> 0 < MaxBatch (dCfg d')"
  proof (cases "lvDispatcher y")
    case None
    with assms(1) show ?thesis by (cases rule: live_step.cases) simp_all
  next
    case (Some d)
    obtain d' where d': "lvDispatcher y' = Some d'" "dispatch_step\<^sup>*\<^sup>* d d'" "dClosed d' = dClosed d"
      using live_step_dispatcher [OF assms Some] by blast
    from steps_dispatcher_ok [OF d'(2,3) assms(2) Some] d'(1) show ?thesis by simp
  qed
  from assms(1) show ?thesis
  proof (cases rule: live_step.cases)
    case (request env now req rep out s)
    then have s: "s = snd (snd (serve env now req (lvServer y)))" by simp
    have same: "same_setup (lvServer y) s" unfolding s by (rule serve_setup)
    moreover have "sq_invar (svStore s)" unfolding s by (rule serve_invar [OF y(1,2,4)])
    moreover have "knows certlight_ValidateTarget moduleID (svScheduler s)"
      unfolding s using serve_knows [of certlight_ValidateTarget "lvServer y" env now req] y(3,5) by simp
    ultimately have "live_ok y'" using y disp request(1) by (simp add: live_ok_def same_setup_def Let_def)
    moreover have "synced y'" if sync: "synced y"
      using sqapp.serve_in_sync [OF y(1,2) _ y(3) certlight_raw, where env = env and now = now and req = req] sync request(1)
      by (simp add: synced_def s [symmetric])
    ultimately show ?thesis by blast
  next
    case (sweep reg newID world order now g results errs l st g')
    have "db_kept (svStore (lvServer y)) st"
      by (rule sweep_keeps [of "db_kept (svStore (lvServer y))", OF db_kept_ops kept sweep(3) [unfolded y(1)]])
    then show ?thesis using live_ok_scans [OF assms(2) _ disp, of st "svLaunched (lvServer y)"] sweep(1) by simp
  next
    case (first_scan t reg newID now slot collected g err res st g')
    have "db_kept (svStore (lvServer y)) st"
      by (rule scanOne_keeps [of "db_kept (svStore (lvServer y))", OF db_kept_ops kept first_scan(4) [unfolded y(1)]])
    then show ?thesis using live_ok_scans [OF assms(2) _ disp] first_scan(1) by simp
  next
    case (timer now)
    then show ?thesis
      using live_ok_scans [OF assms(2) kept disp, of "svLaunched (lvServer y)"] by simp
  qed
qed

lemma launch_dispatcher:
  assumes "boot sk env be now fl = Up sys"
  shows "lvDispatcher (launch sys) = (if sysChannels sys = [] then None
      else Some (NewDispatcher zero_dconfig (map (channel_name sk) (sysChannels sys))))"
proof -
  from assms obtain sch server where "wire sk be fl sch server = Up sys" by (rule boot_up)
  then show ?thesis by (rule wire_up) (simp add: launch_def)
qed

lemma launch_ok:
  assumes "boot sk env be now fl = Up sys" and "NewSQLiteStore (beDatabase be) = Inr db" "sq_invar db"
  shows "live_ok (launch sys)"
proof -
  note b = boot_server [OF assms(1,2)]
  obtain res db' where l: "sq_ListSavedTargets moduleID db = (res, db')" by fastforce
  then have "dbFindings db' = dbFindings db \<and> dbTargets db' = dbTargets db"
    by (cases "dbFaults db") (auto simp: sq_ListSavedTargets_def next_fault_def split: option.splits)
  then have "sq_invar db'" using assms(3) by (simp only: sq_invar_def)
  then have "sq_invar (svStore (sysServer sys))" unfolding b(5) l by simp
  moreover have "dispatcher_ok d \<and> \<not> dClosed d \<and> 0 < MaxBatch (dCfg d)" if "lvDispatcher (launch sys) = Some d" for d
  proof -
    have "d = NewDispatcher zero_dconfig (map (channel_name sk) (sysChannels sys))"
      using that launch_dispatcher [OF assms(1)] by (simp split: if_splits)
    then show ?thesis
      using reachable_ok [OF reachable_new, of zero_dconfig "map (channel_name sk) (sysChannels sys)"]
      by (simp add: NewDispatcher_def)
  qed
  ultimately show ?thesis using b(2-4) boot_knows [OF assms(1,2)] by (simp add: live_ok_def launch_def Let_def)
qed

lemma launch_synced:
  assumes "boot sk env be now fl = Up sys" and "NewSQLiteStore (beDatabase be) = Inr db" "dbFaults db = []"
    and "\<forall>p \<in> set (sq_saved db moduleID). \<exists>t. certlight_ValidateTarget (fst p) = Inr t \<and> tCanonical t = snd p"
  shows "synced (launch sys)"
  using boot_in_sync [OF assms(1,2,4)] boot_server(7) [OF assms(1,2)] assms(3) by (simp add: synced_def launch_def)

lemma live_steps_ok: "live_step\<^sup>*\<^sup>* y y' \<Longrightarrow> live_ok y \<Longrightarrow> live_ok y' \<and> (synced y \<longrightarrow> synced y')"
  by (induction rule: rtranclp_induct) (auto dest: live_step_ok)

subsection \<open>Properties\<close>

lemma live_steps_dispatcher:
  assumes "live_step\<^sup>*\<^sup>* y y'" "live_ok y" "lvDispatcher y = Some d"
  shows "\<exists>d'. lvDispatcher y' = Some d' \<and> dispatch_step\<^sup>*\<^sup>* d d' \<and> dClosed d' = dClosed d"
  using assms(1)
proof (induction rule: rtranclp_induct)
  case (step x z)
  then obtain d1 where "lvDispatcher x = Some d1" "dispatch_step\<^sup>*\<^sup>* d d1" "dClosed d1 = dClosed d" by blast
  moreover have "live_ok x" using live_steps_ok [OF step.hyps(1) assms(2)] by blast
  ultimately show ?case using live_step_dispatcher [OF step.hyps(2)] by (metis rtranclp_trans)
qed (use assms(3) in simp)

text \<open>A finding of a delivered result is waiting, or sent after the result came.\<close>

lemma way_earlier: "on_its_way n d e \<Longrightarrow> m \<le> n \<Longrightarrow> on_its_way m d e"
  using set_drop_subset_set_drop [of m n "dSpawned d"] unfolding on_its_way_def sent_def by blast

lemma dispatch_steps_append:
  assumes "dispatch_step\<^sup>*\<^sup>* d d'"
  shows "\<exists>new. dSpawned d' = dSpawned d @ new"
  using assms
proof (induction rule: rtranclp_induct)
  case (step x z)
  then show ?case using dispatch_step_appends [OF step.hyps(2)] by force
qed simp

lemma deliver_announces:
  assumes "dispatcher_ok d" "\<not> dClosed d" "0 < MaxBatch (dCfg d)" "MinSeverity (dCfg d) = []"
    and "no_bar (srModule r)" "f \<in> set (NewlyOpen (srReconcile r))"
  shows "\<exists>d' e. deliver now [r] (Some d) = Some d' \<and> length (dSpawned d) \<le> length (dSpawned d') \<and>
    dispatch_step\<^sup>*\<^sup>* d d' \<and> dClosed d' = dClosed d \<and> eKind e = KindOpened \<and> eModule e = srModule r \<and>
    fFingerprint (eFinding e) = fFingerprint f \<and> on_its_way (length (dSpawned d)) d' e"
proof -
  let ?e = "\<lparr>eKind = KindOpened, eModule = srModule r, eFinding = f\<rparr>"
  have "?e \<in> set (result_events r)" using assms(6) by (simp add: result_events_def)
  then obtain before later where split: "result_events r = before @ ?e # later" by (auto dest: split_list)
  have ev: "\<forall>e \<in> set (result_events r). event_ok e" using result_events_ok [OF assms(5)] by blast
  let ?d1 = "fold (\<lambda>e. Enqueue e now) before d" and ?d' = "fold (\<lambda>e. Enqueue e now) (result_events r) d"
  have s1: "dispatch_step\<^sup>*\<^sup>* d ?d1" "dClosed ?d1 = dClosed d"
    using enqueue_steps [of before d now] ev split by auto
  note ok1 = dispatch_steps_ok [OF s1(1) assms(1,3)]
  have pass: "passesSeverity (dCfg ?d1) (fSeverity (eFinding ?e))" using ok1 assms(4) by (simp add: passesSeverity_def)
  have eok: "event_ok ?e" using ev split by simp
  have "dispatcher_ok ?d1" "\<not> dClosed ?d1" using ok1 s1(2) assms(2) by simp_all
  from Enqueue_announces [OF this(1) eok this(2) impI, OF pass] obtain e where
    e: "eKind e = KindOpened" "eModule e = srModule r" "fFingerprint (eFinding e) = fFingerprint f"
    "on_its_way (length (dSpawned ?d1)) (Enqueue ?e now ?d1) e" by auto
  have len: "length (dSpawned d) \<le> length (dSpawned ?d1)" "length (dSpawned d) \<le> length (dSpawned (Enqueue ?e now ?d1))"
    using dispatch_steps_append [OF s1(1)] Enqueue_appends [of ?e now ?d1] by auto
  have ok2: "dispatcher_ok (Enqueue ?e now ?d1)" "0 < MaxBatch (dCfg (Enqueue ?e now ?d1))"
    using dispatch_steps_ok [OF r_into_rtranclp, OF dispatch_step.enqueue [OF eok, of ?d1 now]] ok1 assms(3) by simp_all
  have "dispatch_step\<^sup>*\<^sup>* (Enqueue ?e now ?d1) ?d'"
    using enqueue_steps [of later "Enqueue ?e now ?d1" now] ev split by simp
  from steps_keep [OF this ok2 len(2) way_earlier [OF e(4) len(1)]]
  have "length (dSpawned d) \<le> length (dSpawned ?d')" "on_its_way (length (dSpawned d)) ?d' e" by simp_all
  moreover have "deliver now [r] (Some d) = Some ?d'" by (simp add: deliver_def BindScheduler_def)
  moreover have "dispatch_step\<^sup>*\<^sup>* d ?d'" "dClosed ?d' = dClosed d" using enqueue_steps [OF ev, of d now] by simp_all
  ultimately show ?thesis using e(1-3) by (intro exI [of _ ?d'] exI [of _ e]) simp
qed

text \<open>
  From a finding that a scan announces to the digests: whatever the program does after the scan, once
  the window is over every channel has been handed, after the scan, a digest with the finding.
\<close>

lemma announced_is_sent:
  assumes "boot sk env be t0 fl = Up sys" and "live_ok (launch sys)" "live_step\<^sup>*\<^sup>* (launch sys) y"
    and "srModule r = moduleID" "f \<in> set (NewlyOpen (srReconcile r))" "db_kept (svStore (lvServer y)) st"
    and "live_step\<^sup>*\<^sup>* (y\<lparr>lvServer := (lvServer y)\<lparr>svStore := st\<rparr>, lvDispatcher := deliver now [r] (lvDispatcher y)\<rparr>) y'"
    and "ch \<in> set (sysChannels sys)"
  shows "\<exists>d0 d dg. lvDispatcher y = Some d0 \<and> map_option (Flush later) (lvDispatcher y') = Some d \<and>
    (channel_name sk ch, dg) \<in> set (drop (length (dSpawned d0)) (dSpawned d)) \<and>
    dgModule dg = moduleID \<and> fFingerprint f \<in> fFingerprint ` set (dgOpened dg)"
proof -
  let ?d0 = "NewDispatcher zero_dconfig (map (channel_name sk) (sysChannels sys))"
  have d0: "lvDispatcher (launch sys) = Some ?d0" using launch_dispatcher [OF assms(1)] assms(8) by auto
  obtain d where d: "lvDispatcher y = Some d" "dispatch_step\<^sup>*\<^sup>* ?d0 d" "dClosed d = dClosed ?d0"
    using live_steps_dispatcher [OF assms(3,2) d0] by blast
  have ok0: "dispatcher_ok ?d0" "0 < MaxBatch (dCfg ?d0)"
    using reachable_ok [OF reachable_new, of zero_dconfig "map (channel_name sk) (sysChannels sys)"] by simp_all
  note ok = dispatch_steps_ok [OF d(2) ok0]
  have "MinSeverity (dCfg ?d0) = []" "\<not> dClosed ?d0" "dChannels ?d0 = map (channel_name sk) (sysChannels sys)"
    by (simp_all add: NewDispatcher_def dconfig_withDefaults_def zero_dconfig_def)
  with ok ok0 d(3) have dd: "dispatcher_ok d" "\<not> dClosed d" "0 < MaxBatch (dCfg d)" "MinSeverity (dCfg d) = []"
    "dChannels d = map (channel_name sk) (sysChannels sys)" by simp_all
  have bar: "no_bar (srModule r)" by (simp add: assms(4) moduleID_no_bar)
  obtain d1 e where d1: "deliver now [r] (Some d) = Some d1" "length (dSpawned d) \<le> length (dSpawned d1)"
    "dispatch_step\<^sup>*\<^sup>* d d1" "dClosed d1 = dClosed d" "eKind e = KindOpened" "eModule e = srModule r"
    "fFingerprint (eFinding e) = fFingerprint f" "on_its_way (length (dSpawned d)) d1 e"
    using deliver_announces [OF dd(1-4) bar assms(5)] by blast
  let ?y = "y\<lparr>lvServer := (lvServer y)\<lparr>svStore := st\<rparr>, lvDispatcher := deliver now [r] (lvDispatcher y)\<rparr>"
  have yok: "live_ok y" using live_steps_ok [OF assms(3,2)] by blast
  have y1: "lvDispatcher ?y = Some d1" by (simp add: d(1) d1(1))
  have ok1: "dispatcher_ok d1" "0 < MaxBatch (dCfg d1)" "dChannels d1 = dChannels d"
    using dispatch_steps_ok [OF d1(3) dd(1,3)] dd(3) by simp_all
  have "live_ok ?y"
    using live_ok_scans [OF yok assms(6), of ?y "svLaunched (lvServer y)"] y1 ok1 d1(4) dd(2) by simp
  from live_steps_dispatcher [OF assms(7) this y1]
  obtain d2 where d2: "lvDispatcher y' = Some d2" "dispatch_step\<^sup>*\<^sup>* d1 d2" by blast
  have "pending_ok d2" "length (dSpawned d) \<le> length (dSpawned d2)" "on_its_way (length (dSpawned d)) d2 e"
    using steps_keep [OF d2(2) ok1(1,2) d1(2,8)] by (simp_all add: dispatcher_ok_def)
  from flush_delivers [OF this] have "sent (length (dSpawned d)) (flushLocked later d2) e" .
  moreover have "channel_name sk ch \<in> set (dChannels (flushLocked later d2))"
    using dispatch_steps_ok [OF d2(2) ok1(1,2)] ok1(3) dd(5) assms(8) by (simp add: flushLocked_fields)
  ultimately obtain dg where dg: "(channel_name sk ch, dg) \<in> set (drop (length (dSpawned d)) (dSpawned (flushLocked later d2)))"
    "dgModule dg = eModule e" "eFinding e \<in> set (dgOpened dg)"
    using d1(5) unfolding sent_def by auto
  then have "fFingerprint f \<in> fFingerprint ` set (dgOpened dg)" unfolding d1(7) [symmetric] by (rule_tac imageI)
  then show ?thesis
    using d(1) d2(1) dg(1,2) d1(6) assms(4)
    by (intro exI [of _ d] exI [of _ "Flush later d2"] exI [of _ dg]) (simp add: Flush_def)
qed

lemma Collect_expired:
  assumes "dial tls (tCanonical t) (case map_of (tMeta t) ''host'' of None \<Rightarrow> [] | Some h \<Rightarrow> h) VersionTLS10 0 = Inr state"
    and "now > crNotAfter (csPeerCertificates state ! 0)" "tCanonical t \<noteq> []" "\<forall>s. length (sha s) = 32"
  shows "\<exists>fs f. Collect sha tls c t now = Inr fs \<and> f \<in> set fs \<and> ValidateForIngest f = None \<and>
    fFingerprint f = Fingerprint sha moduleID (tCanonical t) ''tls.expired'' []"
proof -
  let ?leaf = "csPeerCertificates state ! 0"
  obtain ti ev where f: "checkExpiry sha t ?leaf now = [cert_finding sha t ''tls.expired'' [] ti SeverityCritical rem_expired ev]"
    using assms(2) by (simp add: checkExpiry_def Let_def)
  define f where "f = cert_finding sha t ''tls.expired'' [] ti SeverityCritical rem_expired ev"
  obtain fs where fs: "Collect sha tls c t now = Inr fs" "f \<in> set fs"
    using assms(1) f by (simp add: Collect_def Let_def f_def)
  have "cert_finding_ok sha t f" using Collect_parts(2) [OF fs(1)] fs(2) by (simp add: list_all_iff)
  then have "ValidateForIngest f = None" using cert_finding_valid [OF _ assms(3,4)] by blast
  moreover have "fFingerprint f = Fingerprint sha moduleID (tCanonical t) ''tls.expired'' []" by (simp add: f_def)
  ultimately show ?thesis using fs by blast
qed

text \<open>
  C4: in every state the running program can reach, by requests, sweeps, first scans and timers in any
  order, with any results of the scans and with a database that reports any errors, the table's
  constraints hold, fewer events wait than the batch limit and only with a timer set, and every digest
  that was sent is well-formed. As long as the database reports no error, and if the targets saved at
  the start are valid, the monitored targets are the saved ones.
\<close>

theorem running_invariant:
  assumes "boot sk env be now fl = Up sys" and "NewSQLiteStore (beDatabase be) = Inr db" "sq_invar db"
    and "live_step\<^sup>*\<^sup>* (launch sys) y"
  shows "sq_invar (svStore (lvServer y)) \<and>
    (\<forall>d. lvDispatcher y = Some d \<longrightarrow> int (pending_total d) < MaxBatch (dCfg d) \<and>
       (dPending d \<noteq> [] \<longrightarrow> dTimer d) \<and> (\<forall>(ch, dg) \<in> set (dSpawned d). digest_ok (dCfg d) dg)) \<and>
    (dbFaults db = [] \<and>
       (\<forall>p \<in> set (sq_saved db moduleID). \<exists>t. certlight_ValidateTarget (fst p) = Inr t \<and> tCanonical t = snd p) \<longrightarrow>
     dom (registry (svScheduler (lvServer y))) = {moduleID} \<times> snd ` set (sq_saved (svStore (lvServer y)) moduleID))"
proof -
  note ok = live_steps_ok [OF assms(4) launch_ok [OF assms(1-3)]]
  have "sq_invar (svStore (lvServer y))" using ok by (simp add: live_ok_def Let_def)
  moreover have "int (pending_total d) < MaxBatch (dCfg d) \<and> (dPending d \<noteq> [] \<longrightarrow> dTimer d) \<and>
      (\<forall>(ch, dg) \<in> set (dSpawned d). digest_ok (dCfg d) dg)" if "lvDispatcher y = Some d" for d
  proof -
    have "dispatcher_ok d" using ok that by (simp add: live_ok_def Let_def)
    then show ?thesis by (auto simp: dispatcher_ok_def pending_ok_def)
  qed
  moreover have "dom (registry (svScheduler (lvServer y))) = {moduleID} \<times> snd ` set (sq_saved (svStore (lvServer y)) moduleID)"
    if "dbFaults db = []"
      "\<forall>p \<in> set (sq_saved db moduleID). \<exists>t. certlight_ValidateTarget (fst p) = Inr t \<and> tCanonical t = snd p"
    using ok launch_synced [OF assms(1,2) that] by (simp add: synced_def in_sync_def)
  ultimately show ?thesis by blast
qed

text \<open>
  C1: an expired certificate is announced to every channel: whatever the program did before (with a
  database that may have failed on the way), when a scan meets a leaf certificate that is past its
  end, the finding is not known yet and the scan is stored, then after the window of the dispatcher
  every configured channel has been handed, after that scan, a digest with the finding, whatever else
  happens in between.
\<close>

theorem expired_certificate_reaches_every_channel:
  assumes "boot sk env be t0 fl = Up sys" and "NewSQLiteStore (beDatabase be) = Inr db" "sq_invar db"
    and "live_step\<^sup>*\<^sup>* (launch sys) y" "map_of (schModules (svScheduler (lvServer y))) moduleID = Some reg"
    and "dial tls (tCanonical t) (case map_of (tMeta t) ''host'' of None \<Rightarrow> [] | Some h \<Rightarrow> h) VersionTLS10 0 = Inr state"
    and "now > crNotAfter (csPeerCertificates state ! 0)" "tCanonical t \<noteq> []" "\<forall>s. length (sha s) = 32"
    and "fp = Fingerprint sha moduleID (tCanonical t) ''tls.expired'' []" "sq_view (svStore (lvServer y)) (moduleID, fp) = None"
    and "scan_ok (sq_view (svStore (lvServer y))) certlight_info (tCanonical t) (projr (Collect sha tls c t now))"
    and "scanOne (svOps (lvServer y)) newID now (regInfo reg) t None (Collect sha tls c t now) (svStore (lvServer y)) (g :: nat) =
      (None, Some r, st, g')"
    and "live_step\<^sup>*\<^sup>* (y\<lparr>lvServer := (lvServer y)\<lparr>svStore := st\<rparr>, lvDispatcher := deliver now [r] (lvDispatcher y)\<rparr>) y'"
    and "ch \<in> set (sysChannels sys)"
  shows "\<exists>d0 d dg. lvDispatcher y = Some d0 \<and> map_option (Flush later) (lvDispatcher y') = Some d \<and>
    (channel_name sk ch, dg) \<in> set (drop (length (dSpawned d0)) (dSpawned d)) \<and>
    dgModule dg = moduleID \<and> fp \<in> fFingerprint ` set (dgOpened dg)"
proof -
  have start: "live_ok (launch sys)" by (rule launch_ok [OF assms(1-3)])
  have yok: "live_ok y" using live_steps_ok [OF assms(4) start] by blast
  obtain fs f where fs: "Collect sha tls c t now = Inr fs" "f \<in> set fs" "ValidateForIngest f = None" "fFingerprint f = fp"
    using Collect_expired [OF assms(6-9)] assms(10) by blast
  have info: "miID (regInfo reg) = moduleID" "miID certlight_info = moduleID"
    using yok assms(5) by (auto simp: live_ok_def knows_def certlight_info_def Let_def)
  have ops: "svOps (lvServer y) = sq_ops" "sq_invar (svStore (lvServer y))" using yok by (simp_all add: live_ok_def Let_def)
  have scan: "scan_ok (sq_view (svStore (lvServer y))) (regInfo reg) (tCanonical t) fs"
    using assms(12) fs(1) info by (simp add: scan_ok_def)
  obtain res where res: "Reconcile sq_ops newID now (regInfo reg) (tCanonical t) fs (svStore (lvServer y)) g = (None, res, st, g')"
    "srReconcile r = res" "srModule r = moduleID"
    using assms(13) fs(1) ops(1) info by (auto simp: scanOne_def split: prod.splits option.splits)
  have "fp \<in> fFingerprint ` set (filter (\<lambda>f. announces (sq_view (svStore (lvServer y)) (miID (regInfo reg), fFingerprint f))) (accepted fs))"
    using fs assms(11) info by (intro image_eqI [of _ _ f]) (auto simp: accepted_def announces_def)
  then have "fp \<in> set (map fFingerprint (NewlyOpen res))"
    using sq.reconcile_ok(3) [OF res(1) ops(2) TrueI scan] by simp
  then obtain x where x: "x \<in> set (NewlyOpen (srReconcile r))" "fFingerprint x = fp" using res(2) by auto
  have same: "db_kept (svStore (lvServer y)) (svStore (lvServer y))" using ops(2) by (simp add: db_kept_def)
  have kept: "db_kept (svStore (lvServer y)) st"
    by (rule scanOne_keeps [of "db_kept (svStore (lvServer y))", OF db_kept_ops same assms(13) [unfolded ops(1)]])
  from announced_is_sent [OF assms(1) start assms(4) res(3) x(1) kept assms(14,15)] show ?thesis unfolding x(2) .
qed

subsection \<open>A run\<close>

definition expired_tls :: tls_env where
  "expired_tls = \<lparr>teDial = (\<lambda>_ _ _ _. Inr \<lparr>csVersion = VersionTLS12, csCipherSuite = 1,
       csPeerCertificates = [sample_cert\<lparr>crPublicKey := OtherKey, crSignatureAlgorithm := OtherAlg []\<rparr>]\<rparr>),
     teVerifyHostname = (\<lambda>_ _. True), teVerify = (\<lambda>_ _ _. True), teInsecureCipherSuites = [],
     teCipherSuiteName = (\<lambda>_. []), tePrint = (\<lambda>_. False)\<rparr>"

definition plain_certlight :: certlight where
  "plain_certlight = New_certlight\<lparr>clProbeLegacyProtocols := False\<rparr>"

lemma one_expired:
  "\<exists>f. Collect toy_hash expired_tls plain_certlight sample_host 2000 = Inr [f]"
  by (simp add: Collect_def dial_def expired_tls_def plain_certlight_def sample_host_def Let_def checkExpiry_def
      checkHostname_def checkChain_def checkProtocol_def checkCipher_def checkKeyStrength_def checkSignature_def sample_cert_def)

lemma fresh_scan:
  assumes "ValidateForIngest f = None"
  shows "\<exists>r st g'. scanOne sq_ops sample_ids now info t None (Inr [f]) fresh_db g = (None, Some r, st, g')"
proof -
  have "\<exists>col. marshalEvidence (fEvidence (capEvidence f)) = Inr col"
    using capped_marshals [of f] by (auto simp: marshalEvidence_def split: option.splits)
  then show ?thesis
    using assms
    by (auto simp: scanOne_def Reconcile_def sq_ops_def sq_ListByTarget_def sq_select_def next_fault_def fresh_db_def
        ingest_one_def Let_def index_by_fp_def sample_ids_def sq_Upsert_def opened_record_def insert_row_def
        new_record_simps split: option.split)
qed

definition alert_flags :: flags where
  "alert_flags = plain_flags\<lparr>flChannels := sample_channels\<rparr>"

lemma alert_boot:
  "\<exists>sys. boot sample_sinks sample_web (boot_on fresh_db) 0 alert_flags = Up sys \<and> sysChannels sys \<noteq> []"
proof -
  obtain e sch where reg: "Register certlight_collector (NewScheduler (zero_sconfig 0)) = (e, sch)" by fastforce
  have "e = None" using registered(1) [OF reg] .
  moreover have "schStarted sch = False"
    using reg by (auto simp: Register_def NewScheduler_def Let_def split: option.splits if_splits)
  moreover have "\<not> isl (build sample_sinks sample_channels m)" for m
    by (simp add: build_def build_webhook_def build_syslog_def build_hec_def sample_sinks_def sample_channels_def
        registerChannelFlags_def)
  then obtain cs where cs: "build sample_sinks sample_channels (export_meta (boot_on fresh_db)) = Inr cs"
    by (metis sum.collapse(2))
  moreover have "cs \<noteq> []" using build_ok [OF cs] by (auto simp: sample_channels_def registerChannelFlags_def)
  ultimately show ?thesis
    using reg
    by (simp add: boot_def alert_flags_def plain_flags_def NewServer_def Activate_def Let_def wire_def
        NewAIAssist_def paid_channels_def Start_def restore_started sq_ListSavedTargets_def next_fault_def fresh_db_def)
qed

lemma fresh_ok:
  "NewSQLiteStore (beDatabase (boot_on fresh_db)) = Inr fresh_db" "dbFaults fresh_db = []" "sq_invar fresh_db"
  "\<forall>p \<in> set (sq_saved fresh_db moduleID). \<exists>t. certlight_ValidateTarget (fst p) = Inr t \<and> tCanonical t = snd p"
  by (simp_all add: fresh_db_def sq_saved_def sq_invar_def)

text \<open>The first scan of a host with an expired certificate after that start.\<close>

lemma alert_run:
  obtains sys ch reg f r st g where
    "boot sample_sinks sample_web (boot_on fresh_db) 0 alert_flags = Up sys" "ch \<in> set (sysChannels sys)"
    "map_of (schModules (svScheduler (sysServer sys))) moduleID = Some reg"
    "Collect toy_hash expired_tls plain_certlight sample_host 2000 = Inr [f]" "svStore (sysServer sys) = fresh_db"
    "scanOne (svOps (sysServer sys)) sample_ids 2000 (regInfo reg) sample_host None
       (Collect toy_hash expired_tls plain_certlight sample_host 2000) (svStore (sysServer sys)) 0 = (None, Some r, st, g)"
proof -
  obtain sys where up: "boot sample_sinks sample_web (boot_on fresh_db) 0 alert_flags = Up sys"
    and some: "sysChannels sys \<noteq> []" using alert_boot by blast
  have ch: "hd (sysChannels sys) \<in> set (sysChannels sys)" using some by simp
  note b = boot_server(2,5) [OF up fresh_ok(1)]
  from boot_knows [OF up fresh_ok(1)] obtain reg where reg: "map_of (schModules (svScheduler (sysServer sys))) moduleID = Some reg"
    by (auto simp: knows_def)
  have st: "svStore (sysServer sys) = fresh_db" using b(2) by (simp add: sq_ListSavedTargets_def next_fault_def fresh_db_def)
  obtain f where f: "Collect toy_hash expired_tls plain_certlight sample_host 2000 = Inr [f]" using one_expired by blast
  have "list_all (cert_finding_ok toy_hash sample_host) [f]" by (rule Collect_parts(2) [OF f])
  then have "cert_finding_ok toy_hash sample_host f" by simp
  moreover have "tCanonical sample_host \<noteq> []" by (simp add: sample_host_def)
  ultimately have valid: "ValidateForIngest f = None" using cert_finding_valid length_toy_hash by blast
  obtain r st' g where "scanOne sq_ops sample_ids 2000 (regInfo reg) sample_host None (Inr [f]) fresh_db 0 = (None, Some r, st', g)"
    using fresh_scan [OF valid] by blast
  then show thesis using that [OF up ch reg f st] by (simp add: b(1) st f)
qed

lemma alert_room:
  "case boot sample_sinks sample_web (boot_on fresh_db) 0 alert_flags of
     Up sys \<Rightarrow> CanAddTarget (svActivation (sysServer sys)) (int (target_count (sysServer sys))) \<and>
       schStarted (svScheduler (sysServer sys)) \<and> \<not> schCancelled (svScheduler (sysServer sys)) \<and>
       svLaunched (sysServer sys) = []
   | Exit c e \<Rightarrow> False"
  by code_simp

text \<open>A target is added, and its first scan runs.\<close>

theorem running_invariant_witness:
  "\<exists>sys y. boot sample_sinks sample_web (boot_on fresh_db) 0 alert_flags = Up sys \<and>
     live_step\<^sup>*\<^sup>* (launch sys) y \<and> lvDispatcher y \<noteq> None \<and> sq_invar (svStore (lvServer y)) \<and>
     dom (registry (svScheduler (lvServer y))) = {moduleID} \<times> snd ` set (sq_saved (svStore (lvServer y)) moduleID)"
proof -
  obtain sys where up: "boot sample_sinks sample_web (boot_on fresh_db) 0 alert_flags = Up sys" "sysChannels sys \<noteq> []"
    using alert_boot by blast
  let ?s = "sysServer sys" and ?req = "PostTarget (string_object [(''target'', ''a'')])"
  have m: "miID (svModule ?s) = moduleID" "knows certlight_ValidateTarget moduleID (svScheduler ?s)"
    using boot_server(4) [OF up(1) fresh_ok(1)] boot_knows [OF up(1) fresh_ok(1)] by simp_all
  have room: "CanAddTarget (svActivation ?s) (int (target_count ?s))" "schStarted (svScheduler ?s)"
    "\<not> schCancelled (svScheduler ?s)" "svLaunched ?s = []" using alert_room up(1) by simp_all
  obtain t where t: "certlight_ValidateTarget ''a'' = Inr t" using plain_target by blast
  then obtain sch where add: "AddTarget moduleID ''a'' (svScheduler ?s) = (Inr t, True, sch)"
    using m(2) room(2,3) by (auto simp: knows_def AddTarget_def Let_def)
  have scans: "first_scans ?s ?req = [t]"
    using room(1) add m(1) by (simp add: first_scans_def decode_field_object repair_ascii byte_def)
  obtain rep out s where r: "serve sample_web 0 ?req ?s = (rep, out, s)" by (rule prod_cases3)
  have s: "s = snd (snd (serve sample_web 0 ?req ?s))" unfolding r by simp
  have launched: "svLaunched s = [t]" unfolding s serve_launched scans room(4) by simp
  let ?y = "(launch sys)\<lparr>lvServer := s, lvDispatcher := deliver 0 (drop (length (svReported ?s)) (svReported s)) (sysDispatcher sys)\<rparr>"
  have one: "live_step (launch sys) ?y"
    using live_step.request [of sample_web 0 ?req "launch sys" rep out s] r by (simp add: launch_def)
  have "knows certlight_ValidateTarget moduleID (svScheduler s)"
    unfolding s using serve_knows [of certlight_ValidateTarget ?s sample_web 0 ?req] m by simp
  then obtain reg where reg: "map_of (schModules (svScheduler s)) moduleID = Some reg" by (auto simp: knows_def)
  obtain err res st g where scan: "scanOne (svOps s) sample_ids 1 (regInfo reg) t None (Inr []) (svStore s) (0 :: nat) =
      (err, res, st, g)" using prod_cases4 by blast
  let ?z = "?y\<lparr>lvServer := s\<lparr>svStore := st, svLaunched := remove1 t (svLaunched s)\<rparr>,
    lvDispatcher := deliver 1 (case res of None \<Rightarrow> [] | Some r \<Rightarrow> [r]) (lvDispatcher ?y)\<rparr>"
  have "live_step ?y ?z"
    using live_step.first_scan [of t ?y reg sample_ids 1 None "Inr []" 0 err res st g] launched reg scan by simp
  with one have steps: "live_step\<^sup>*\<^sup>* (launch sys) ?z" by (rule converse_rtranclp_into_rtranclp [OF _ r_into_rtranclp])
  have disp: "lvDispatcher ?z \<noteq> None"
    using launch_dispatcher [OF up(1)] up(2) by (simp only: if_False) (simp add: launch_def deliver_def)
  note inv = running_invariant [OF up(1) fresh_ok(1,3) steps]
  from inv [THEN conjunct1] inv [THEN conjunct2, THEN conjunct2, THEN mp, OF conjI [OF fresh_ok(2,4)]] show ?thesis
    by (intro exI [of _ sys] exI [of _ ?z] conjI up(1) steps disp)
qed

theorem expired_certificate_reaches_every_channel_witness:
  "\<exists>sys ch r d0 d dg. boot sample_sinks sample_web (boot_on fresh_db) 0 alert_flags = Up sys \<and>
     ch \<in> set (sysChannels sys) \<and> sysDispatcher sys = Some d0 \<and>
     map_option (Flush 2030) (deliver 2000 [r] (sysDispatcher sys)) = Some d \<and>
     (channel_name sample_sinks ch, dg) \<in> set (drop (length (dSpawned d0)) (dSpawned d)) \<and>
     Fingerprint toy_hash moduleID ''a:443'' ''tls.expired'' [] \<in> fFingerprint ` set (dgOpened dg)"
proof (rule alert_run)
  fix sys reg f ch r st g
  assume up: "boot sample_sinks sample_web (boot_on fresh_db) 0 alert_flags = Up sys"
    and ch: "ch \<in> set (sysChannels sys)"
    and reg: "map_of (schModules (svScheduler (sysServer sys))) moduleID = Some reg"
    and f: "Collect toy_hash expired_tls plain_certlight sample_host 2000 = Inr [f]"
    and store: "svStore (sysServer sys) = fresh_db"
    and scan: "scanOne (svOps (sysServer sys)) sample_ids 2000 (regInfo reg) sample_host None
       (Collect toy_hash expired_tls plain_certlight sample_host 2000) (svStore (sysServer sys)) (0 :: nat) = (None, Some r, st, g)"
  have l: "lvServer (launch sys) = sysServer sys" "lvDispatcher (launch sys) = sysDispatcher sys" by (simp_all add: launch_def)
  have disp: "lvDispatcher ((launch sys)\<lparr>lvServer := a, lvDispatcher := b\<rparr>) = b" for a b by simp
  have view: "sq_view (svStore (lvServer (launch sys))) (m, fp) = None" for m fp
    by (simp add: l store sq_view_def fresh_db_def)
  obtain state where dial: "dial expired_tls (tCanonical sample_host)
      (case map_of (tMeta sample_host) ''host'' of None \<Rightarrow> [] | Some h \<Rightarrow> h) VersionTLS10 0 = Inr state"
    "2000 > crNotAfter (csPeerCertificates state ! 0)"
    by (simp add: dial_def expired_tls_def sample_cert_def)
  have ok: "scan_ok (sq_view (svStore (lvServer (launch sys)))) certlight_info (tCanonical sample_host)
      (projr (Collect toy_hash expired_tls plain_certlight sample_host 2000))"
    by (simp add: f scan_ok_def view accepted_def)
  have host: "tCanonical sample_host \<noteq> []" "tCanonical sample_host = ''a:443''" by (simp_all add: sample_host_def)
  have hash: "\<forall>s. length (toy_hash s) = 32" using length_toy_hash by blast
  from expired_certificate_reaches_every_channel [OF up fresh_ok(1,3) rtranclp.rtrancl_refl reg [folded l] dial host(1) hash
      refl view ok scan [folded l] rtranclp.rtrancl_refl ch, of 2030]
  obtain d0 d dg where "sysDispatcher sys = Some d0" "map_option (Flush 2030) (deliver 2000 [r] (sysDispatcher sys)) = Some d"
    "(channel_name sample_sinks ch, dg) \<in> set (drop (length (dSpawned d0)) (dSpawned d))"
    "Fingerprint toy_hash moduleID ''a:443'' ''tls.expired'' [] \<in> fFingerprint ` set (dgOpened dg)"
    unfolding l host(2) disp by blast
  then show ?thesis using up ch by blast
qed

end
