(* ===== verification/Spec2Isabelle.thy ===== *)
theory Spec2Isabelle
  imports Store_Ulid Certlight_System
begin

text \<open>
  CertLight watches the TLS certificates of a list of hosts. A scheduler scans every host at an interval;
  the collector turns a handshake into findings; the reconcile engine folds the findings of a scan into
  the finding store and says which are new and which are resolved; the dispatcher batches these into
  digests and hands them to the alert channels. A dashboard lists findings and targets, changes the status
  of a finding, adds and removes targets, takes a license key and asks a local model to explain a finding.
  The license decides how many targets, which channels and which features are allowed.

  The theories follow the packages under \<open>src/\<close>. A Go type is a record or datatype with the fields of the
  source, a function or method is a definition of the same name (a method of several types has the type in
  its name), state is passed and returned, and an error is a value: \<open>gerror option\<close> for \<open>error\<close>,
  \<open>gerror + 'a\<close> for a result or an error, \<open>outcome\<close> where the code can panic.

  Go's library (\<open>Go_Prelude\<close> and the other theories \<open>Go_*\<close>). A string is its bytes. The parts of the
  standard library that the program relies on are defined, not assumed: UTF-8 and runes, the functions of
  \<open>strings\<close>, base64, \<open>json.Marshal\<close> and \<open>json.Unmarshal\<close> with the text of floats, RFC 3339 times and
  dates, \<open>float64\<close> rounding, host and port, \<open>%q\<close>, and \<open>regexp\<close> matching. Lemmas: round trips (UTF-8,
  base64, JSON, times, floats), and what a match in a joined text says about its parts.

  Data model. \<open>Core_Finding\<close> is \<open>core/finding.go\<close> and \<open>core/collector.go\<close>: findings, severities, the
  ingest check, the fingerprint (SHA-256 is an argument).

  Finding store. \<open>Store_Interface\<close> has the record and the method tables of \<open>store/store.go\<close> and
  \<open>store/targets.go\<close>, and the contracts as locales: \<open>record_store\<close> (what the engine relies on),
  \<open>readable_store\<close> (the reads of the dashboard), \<open>target_store\<close> (the saved targets), \<open>app_store\<close> (all of it
  on one database). \<open>Store_Memory\<close> (\<open>store/memory.go\<close>) and \<open>Store_Sqlite\<close> (\<open>store/sqlite.go\<close>) interpret all
  four. In \<open>Store_Sqlite\<close> each statement consumes one entry of a list of driver errors, so that every error
  path is a branch. \<open>Store_Reconcile\<close> is \<open>store/reconcile.go\<close> over any \<open>record_store\<close>; its lemmas describe the
  effect of both loops on the map of records, which \<open>Store_Properties\<close> states for the database: the exact
  effect and report of a scan, what is kept when it fails midway, suppression, absence and resolution over
  many scans, silence of a repeated scan, evidence limits. \<open>Store_Ulid\<close> is \<open>store/ulid.go\<close> on 64-bit words.

  Scheduler. \<open>Sched\<close> is \<open>sched/scheduler.go\<close>: the registry of modules and targets, \<open>scanOne\<close>, a sweep, the
  loop of a module, the sweep on demand, jitter and backoff. Lemmas: a host that fails does not disturb the
  others, the gate after a run of failures, and that each operation keeps what the store methods keep.

  Collector. \<open>Certlight_Collector\<close> is \<open>certlight/collector.go\<close>: validation of a target, the checks on a
  certificate and connection, and their order. Lemmas: stability of the canonical form, the stages of the
  expiry check through its float arithmetic, and that every finding passes ingest.

  License. \<open>License\<close> is \<open>license/license.go\<close>: signing, verification and activation of keys and the limits
  of the tiers. Lemmas: nothing beyond the free tier without a signature of the issuer, the round trip of a
  key, and how an activation ages.

  Alerts. \<open>Notify_Dispatcher\<close> is \<open>notify/notify.go\<close> with the step relation \<open>dispatch_step\<close>;
  \<open>Notify_Format\<close> (\<open>notify/format.go\<close>, syslog frames) and \<open>Notify_Channels\<close> (\<open>notify/channels.go\<close>,
  \<open>notify/hfs.go\<close>, \<open>notify/bridge.go\<close>, \<open>hfsbridge/hfsbridge.go\<close>) are what goes on the wire. Lemmas: the
  dispatcher's invariant, that every announcement is sent in a digest after it came, one syslog frame of
  bounded length per finding, and the webhook's request decoded.

  AI Assist. \<open>Ai_Guard\<close>, \<open>Ai_Evidence\<close>, \<open>Ai_Codec\<close> and \<open>Ai_Client\<close> are \<open>internal/aiclient\<close>: the checks on
  what a model wrote, what may be sent of a finding, the texts on the wire, and the attempts of a request.

  Dashboard. \<open>Web_Server\<close> is \<open>web/server.go\<close> and \<open>web/ai.go\<close>: the state \<open>server\<close>, one definition per
  handler, and the mux \<open>serve\<close>. \<open>svLaunched\<close> are the targets whose first scan a request has started.
  \<open>Web_Properties\<close> has the properties over sequences of requests, proved over \<open>app_store\<close> and used at the
  database.

  Program. \<open>Cmd_Main\<close> is \<open>cmd/certlight/main.go\<close> and \<open>cmd/certlight/channels.go\<close> from the flags to the wired
  system; \<open>Cmd_Properties\<close> what start-up and restart guarantee. \<open>Certlight_System\<close> puts the components
  together as the step relation \<open>live_step\<close> over requests, sweeps, first scans and timers, with its invariants
  and the path of a finding from the handshake to the channels.

  Arguments of the model, standing for what is not in the repository or not computable: ed25519, SHA-256,
  the handshake, chain verification and cipher tables of \<open>crypto/tls\<close> and \<open>crypto/x509\<close>, the answers of the
  network and of contexts, \<open>url.Parse\<close>, the table of printable runes beyond ASCII, the event constructor,
  settings and sinks of hexward-core, the issuer key, the clock, random bits, the host's time zone, names and
  process id, the errors of the database driver, and the files read or written. Hypotheses on them are named
  in the theorems that use them, each with a witness on concrete functions.

  Bounds. Recursions are structural or end by a measure (reading JSON, runes, sentences and escapes by the
  length of the text). Two have a bound: the shortest text of a float is searched through 1400 powers of
  ten, which reach from the largest float to the multiple of \<open>10^-1074\<close> that every float is, and a lemma shows
  that the search succeeds; the attempts of a request are counted by its retries. JSON nests up to 10000
  levels, as in Go. Limits of the code are kept: 4096 bytes of a request to explain, 1 MiB of an answer,
  1600 bytes of a syslog text, 64 KiB of evidence, 24 keys, 12 items, 3 levels and 400 runes of what is sent
  to a model. Go's \<open>int\<close> is an unbounded
  integer where no value comes near its limits; durations, ULIDs and float arithmetic are kept at their width.

  Not modelled: \<open>web/static\<close>, \<open>cmd/demo\<close>, the tests and scripts, flag parsing, the HTTP transport and static
  files, the JSON text of the dashboard's replies (they are structured values), the closing of the program,
  key generation, the payload declarations of features that no product here sends, and the text in which the
  database keeps a timestamp. Goroutines that run at the same time are sequences of steps: a handler, a scan
  or a dispatcher method runs to its end before the next begins, so races inside them are not covered.
\<close>

end
